(* ===== verification/Prelude.thy ===== *)
theory Prelude
  imports Main
begin

text \<open>
  Shared vocabulary of the development.

  A C++ function that can stop the process is modelled by a function into
  \<open>'a res\<close>, the sum of a \<open>fault\<close> and a value: \<open>AssertFail\<close> is the
  \<open>std::exit(EXIT_FAILURE)\<close> of \<open>myAssert\<close> (src/common/util.cpp) and of the
  other fatal checks, \<open>OutOfRange\<close> an index outside a \<open>std::vector\<close>,
  \<open>NullDeref\<close> a dereference of a null or freed pointer and \<open>BadParse\<close> the
  exception a deserialiser throws; \<open>Diverges\<close> stands for a loop that never ends.
  \<open>bindr\<close> sequences such functions.
  \<open>vec_at\<close> and \<open>vec_set\<close> are \<open>operator[]\<close> on a vector, read and written.

  The second half holds the locale \<open>inductive_invariant\<close>: a predicate that holds
  at the start of a transition system and that every step keeps holds in every
  reachable state. The invariants of the cluster are interpretations of it.
\<close>

section \<open>Faults and results\<close>

datatype fault = AssertFail | OutOfRange | NullDeref | BadParse | Diverges

type_synonym 'a res = "fault + 'a"

definition bindr :: "'a res \<Rightarrow> ('a \<Rightarrow> 'b res) \<Rightarrow> 'b res" where
  "bindr m f = (case m of Inl e \<Rightarrow> Inl e | Inr x \<Rightarrow> f x)"

definition myAssert :: "bool \<Rightarrow> unit res" where
  "myAssert condition = (if condition then Inr () else Inl AssertFail)"

definition vec_at :: "'a list \<Rightarrow> int \<Rightarrow> 'a res" where
  "vec_at xs i = (if 0 \<le> i \<and> i < int (length xs) then Inr (xs ! nat i) else Inl OutOfRange)"

definition vec_set :: "'a list \<Rightarrow> int \<Rightarrow> 'a \<Rightarrow> 'a list res" where
  "vec_set xs i v =
     (if 0 \<le> i \<and> i < int (length xs) then Inr (xs[nat i := v]) else Inl OutOfRange)"

named_theorems res_simps \<open>evaluation rules of the fault monad\<close>

section \<open>Lemmas on results\<close>

lemma bindr_Inr [simp, res_simps]: "bindr (Inr x) f = f x"
  by (simp add: bindr_def)

lemma bindr_Inl [simp, res_simps]: "bindr (Inl e) f = Inl e"
  by (simp add: bindr_def)

lemma bindr_eq_Inr: "bindr m f = Inr y \<longleftrightarrow> (\<exists>x. m = Inr x \<and> f x = Inr y)"
  by (cases m) auto

lemma bindr_eq_Inl: "bindr m f = Inl e \<longleftrightarrow> m = Inl e \<or> (\<exists>x. m = Inr x \<and> f x = Inl e)"
  by (cases m) auto

lemma bindrE [elim?]:
  assumes "bindr m f = Inr y"
  obtains x where "m = Inr x" and "f x = Inr y"
  using assms by (auto simp: bindr_eq_Inr)

lemma bindr_cong: "m = m' \<Longrightarrow> (\<And>x. m' = Inr x \<Longrightarrow> f x = g x) \<Longrightarrow> bindr m f = bindr m' g"
  by (cases m') auto

lemma myAssert_True [simp, res_simps]: "myAssert True = Inr ()"
  by (simp add: myAssert_def)

lemma myAssert_False [simp, res_simps]: "myAssert False = Inl AssertFail"
  by (simp add: myAssert_def)

lemma myAssert_Inr [simp]: "myAssert c = Inr u \<longleftrightarrow> c"
  by (simp add: myAssert_def)

lemma bindr_myAssert: "c \<Longrightarrow> bindr (myAssert c) f = f ()"
  by simp

lemma vec_at_in [simp]: "0 \<le> i \<Longrightarrow> i < int (length xs) \<Longrightarrow> vec_at xs i = Inr (xs ! nat i)"
  by (simp add: vec_at_def)

lemma vec_at_eq_Inr: "vec_at xs i = Inr v \<longleftrightarrow> 0 \<le> i \<and> i < int (length xs) \<and> v = xs ! nat i"
  by (auto simp: vec_at_def)

lemma vec_set_in [simp]:
  "0 \<le> i \<Longrightarrow> i < int (length xs) \<Longrightarrow> vec_set xs i v = Inr (xs[nat i := v])"
  by (simp add: vec_set_def)

lemma vec_set_eq_Inr:
  "vec_set xs i v = Inr ys \<longleftrightarrow> 0 \<le> i \<and> i < int (length xs) \<and> ys = xs[nat i := v]"
  by (auto simp: vec_set_def)

lemma vec_set_length: "vec_set xs i v = Inr ys \<Longrightarrow> length ys = length xs"
  by (auto simp: vec_set_eq_Inr)

section \<open>Transition systems and inductive invariants\<close>

locale inductive_invariant =
  fixes start :: "'s \<Rightarrow> bool"
    and step :: "'s \<Rightarrow> 's \<Rightarrow> bool"
    and I :: "'s \<Rightarrow> bool"
  assumes holds_start: "start s \<Longrightarrow> I s"
    and kept_by_step: "I s \<Longrightarrow> step s t \<Longrightarrow> I t"
begin

lemma kept_by_run:
  assumes run: "step\<^sup>*\<^sup>* s t" and I: "I s"
  shows "I t"
  using run I by induction (auto intro: kept_by_step)

lemma holds_reachable: "start s \<Longrightarrow> step\<^sup>*\<^sup>* s t \<Longrightarrow> I t"
  by (rule kept_by_run[OF _ holds_start])

end

text \<open>A quantity that no step decreases, under an invariant.\<close>

locale monotone_quantity = inductive_invariant +
  fixes f :: "'s \<Rightarrow> 'a :: preorder"
  assumes step_mono: "I s \<Longrightarrow> step s t \<Longrightarrow> f s \<le> f t"
begin

lemma run_mono:
  assumes run: "step\<^sup>*\<^sup>* s t" and I: "I s"
  shows "f s \<le> f t"
  using run I
proof induction
  case (step t u)
  then show ?case
    using kept_by_run[OF step.hyps(1)] by (blast intro: order_trans step_mono)
qed simp

end

end
