(* ===== verification/Util.thy ===== *)
theory Util
  imports Prelude "HOL-Library.Word"
begin

text \<open>
  The shared utilities of src/src/common: the tuning constants of config.h, the blocking
  queue \<open>LockQueue\<close>, the client operation \<open>Op\<close>, the message \<open>ApplyMsg\<close> a Raft
  node hands to its key-value server (src/src/raftCore/include/ApplyMsg.h) and the port search.

  A queue operation runs under the queue's mutex, so it is one step on the queue.
  A wait on the condition variable releases the mutex: what the other threads left in
  the queue when the wait returns is an argument of the model, one element per wait.

  The locale \<open>fifo\<close> is the contract both users of the queue rely on: the apply
  channel from a Raft node to its server and the wait channels of the pending requests.
\<close>

section \<open>Constants\<close>

definition HeartBeatTimeout :: int where "HeartBeatTimeout = 25"
definition ApplyInterval :: int where "ApplyInterval = 10"
definition minRandomizedElectionTime :: int where "minRandomizedElectionTime = 300"
definition maxRandomizedElectionTime :: int where "maxRandomizedElectionTime = 500"
definition CONSENSUS_TIMEOUT :: int where "CONSENSUS_TIMEOUT = 500"

text \<open>
  The election time-out is drawn from a uniform distribution: \<open>dist a b\<close> is the number drawn, in
  milliseconds, and \<open>dist_ok\<close> what the standard library promises of it.
\<close>

definition getRandomizedElectionTimeout :: "(int \<Rightarrow> int \<Rightarrow> int) \<Rightarrow> int" where
  "getRandomizedElectionTimeout dist = dist minRandomizedElectionTime maxRandomizedElectionTime"

definition dist_ok :: "(int \<Rightarrow> int \<Rightarrow> int) \<Rightarrow> bool" where
  "dist_ok dist \<longleftrightarrow> (\<forall>a b. a \<le> b \<longrightarrow> a \<le> dist a b \<and> dist a b \<le> b)"

section \<open>LockQueue\<close>

record 'a LockQueue =
  m_queue :: "'a list"

definition empty_queue :: "'a LockQueue" where
  "empty_queue = \<lparr>m_queue = []\<rparr>"

definition Push :: "'a \<Rightarrow> 'a LockQueue \<Rightarrow> 'a LockQueue" where
  "Push data q = q\<lparr>m_queue := m_queue q @ [data]\<rparr>"

text \<open>
  \<open>Pop q wakes\<close>: \<open>wakes\<close> lists the queue as found at each return of \<open>wait\<close>;
  \<open>None\<close> means that the call is still blocked after these wake-ups.
\<close>

fun Pop :: "'a LockQueue \<Rightarrow> 'a LockQueue list \<Rightarrow> ('a \<times> 'a LockQueue) option" where
  "Pop q wakes =
     (case m_queue q of
        x # xs \<Rightarrow> Some (x, q\<lparr>m_queue := xs\<rparr>)
      | [] \<Rightarrow> (case wakes of [] \<Rightarrow> None | q' # wakes' \<Rightarrow> Pop q' wakes'))"

text \<open>
  A return of \<open>wait_until\<close>: notified (or spurious) with the queue found then, or the
  time-out, at which the code gives up without looking at the queue again.
\<close>

datatype 'a wait_result = Woken "'a LockQueue" | TimedOut "'a LockQueue"

fun timeOutPop ::
  "'a LockQueue \<Rightarrow> 'a wait_result list \<Rightarrow> ('a option \<times> 'a LockQueue) option" where
  "timeOutPop q waits =
     (case m_queue q of
        x # xs \<Rightarrow> Some (Some x, q\<lparr>m_queue := xs\<rparr>)
      | [] \<Rightarrow> (case waits of
          [] \<Rightarrow> None
        | TimedOut q' # _ \<Rightarrow> Some (None, q')
        | Woken q' # waits' \<Rightarrow> timeOutPop q' waits'))"

definition pop_now :: "'a LockQueue \<Rightarrow> ('a \<times> 'a LockQueue) option" where
  "pop_now q = Pop q []"

fun push_all :: "'a list \<Rightarrow> 'a LockQueue \<Rightarrow> 'a LockQueue" where
  "push_all [] q = q"
| "push_all (x # xs) q = push_all xs (Push x q)"

fun pop_many :: "nat \<Rightarrow> 'a LockQueue \<Rightarrow> ('a list \<times> 'a LockQueue) option" where
  "pop_many 0 q = Some ([], q)"
| "pop_many (Suc n) q =
     (case pop_now q of
        None \<Rightarrow> None
      | Some (x, q') \<Rightarrow>
          (case pop_many n q' of None \<Rightarrow> None | Some (xs, q'') \<Rightarrow> Some (x # xs, q'')))"

section \<open>Client operations and apply messages\<close>

record Op =
  Operation :: string
  Key :: string
  Value :: string
  ClientId :: string
  RequestId :: int

record ApplyMsg =
  CommandValid :: bool
  Command :: string
  CommandIndex :: int
  SnapshotValid :: bool
  Snapshot :: string
  SnapshotTerm :: int
  SnapshotIndex :: int

definition new_ApplyMsg :: ApplyMsg where
  "new_ApplyMsg =
     \<lparr>CommandValid = False, Command = [], CommandIndex = -1,
      SnapshotValid = False, Snapshot = [], SnapshotTerm = -1, SnapshotIndex = -1\<rparr>"

definition OK :: string where "OK = ''OK''"
definition ErrNoKey :: string where "ErrNoKey = ''ErrNoKey''"
definition ErrWrongLeader :: string where "ErrWrongLeader = ''ErrWrongLeader''"

section \<open>Port search\<close>

text \<open>
  The port is a \<open>short\<close>, kept at its 16 bits; \<open>num\<close> counts the attempts. The search takes the test of a
  port as an argument; \<open>isReleasePort\<close> tries to bind a socket to it, with the results of \<open>bind\<close> as its argument.
\<close>

function getReleasePort_loop ::
  "(16 word \<Rightarrow> bool) \<Rightarrow> 16 word \<Rightarrow> nat \<Rightarrow> 16 word \<times> nat" where
  "getReleasePort_loop isReleasePort port num =
     (if \<not> isReleasePort port \<and> num < 30
      then getReleasePort_loop isReleasePort (port + 1) (Suc num)
      else (port, num))"
  by pat_completeness auto
termination
  by (relation "measure (\<lambda>(f, port, num). 30 - num)") auto

definition getReleasePort :: "(16 word \<Rightarrow> bool) \<Rightarrow> 16 word \<Rightarrow> bool \<times> 16 word" where
  "getReleasePort isReleasePort port =
     (let (port', num) = getReleasePort_loop isReleasePort port 0
      in if num \<ge> 30 then (False, -1) else (True, port'))"

definition isReleasePort :: "(16 word \<Rightarrow> int) \<Rightarrow> 16 word \<Rightarrow> bool" where
  "isReleasePort bind usPort = (let ret = bind usPort in if ret \<noteq> 0 then False else True)"

section \<open>The queue contract\<close>

locale fifo =
  fixes emp :: "'q"
    and push :: "'a \<Rightarrow> 'q \<Rightarrow> 'q"
    and pop :: "'q \<Rightarrow> ('a \<times> 'q) option"
    and contents :: "'q \<Rightarrow> 'a list"
  assumes contents_emp: "contents emp = []"
    and contents_push: "contents (push x q) = contents q @ [x]"
    and pop_None: "pop q = None \<longleftrightarrow> contents q = []"
    and pop_Some: "pop q = Some (x, q') \<Longrightarrow> contents q = x # contents q'"
begin

fun pushes :: "'a list \<Rightarrow> 'q \<Rightarrow> 'q" where
  "pushes [] q = q"
| "pushes (x # xs) q = pushes xs (push x q)"

fun pops :: "nat \<Rightarrow> 'q \<Rightarrow> ('a list \<times> 'q) option" where
  "pops 0 q = Some ([], q)"
| "pops (Suc n) q =
     (case pop q of
        None \<Rightarrow> None
      | Some (x, q') \<Rightarrow>
          (case pops n q' of None \<Rightarrow> None | Some (xs, q'') \<Rightarrow> Some (x # xs, q'')))"

lemma contents_pushes: "contents (pushes xs q) = contents q @ xs"
  by (induction xs arbitrary: q) (auto simp: contents_push)

lemma pops_contents:
  "n \<le> length (contents q) \<Longrightarrow>
   \<exists>q'. pops n q = Some (take n (contents q), q') \<and> contents q' = drop n (contents q)"
proof (induction n arbitrary: q)
  case (Suc n)
  then have "pop q \<noteq> None" by (auto simp: pop_None)
  then obtain x q1 where pop: "pop q = Some (x, q1)" by auto
  have q: "contents q = x # contents q1" using pop by (rule pop_Some)
  then have "n \<le> length (contents q1)" using Suc.prems by simp
  from Suc.IH[OF this] show ?case using pop q by auto
qed simp

text \<open>What goes in comes out, in the same order, and nothing else is lost.\<close>

lemma pops_pushes:
  "contents q = [] \<Longrightarrow>
   \<exists>q'. pops (length xs) (pushes xs q) = Some (xs, q') \<and> contents q' = []"
  using pops_contents[of "length xs" "pushes xs q"] by (simp add: contents_pushes)

end

section \<open>Lemmas\<close>

declare Pop.simps [simp del] timeOutPop.simps [simp del] getReleasePort_loop.simps [simp del]

lemma m_queue_Push [simp]: "m_queue (Push x q) = m_queue q @ [x]"
  by (simp add: Push_def)

lemma m_queue_push_all [simp]: "m_queue (push_all xs q) = m_queue q @ xs"
  by (induction xs arbitrary: q) auto

lemma pop_now_eq:
  "pop_now q = (case m_queue q of [] \<Rightarrow> None | x # xs \<Rightarrow> Some (x, q\<lparr>m_queue := xs\<rparr>))"
  by (simp add: pop_now_def Pop.simps split: list.splits)

interpretation lq: fifo empty_queue Push pop_now m_queue
  by unfold_locales (auto simp: empty_queue_def pop_now_eq split: list.splits)

lemma lq_pushes [simp]: "lq.pushes xs q = push_all xs q"
  by (induction xs arbitrary: q) auto

lemma lq_pops [simp]: "lq.pops n q = pop_many n q"
  by (induction n arbitrary: q) (auto split: option.splits)

lemma Pop_returns_iff:
  "(\<exists>r. Pop q wakes = Some r) \<longleftrightarrow> (\<exists>q' \<in> set (q # wakes). m_queue q' \<noteq> [])"
proof (induction wakes arbitrary: q)
  case Nil
  then show ?case by (subst Pop.simps) (auto split: list.splits)
next
  case (Cons w wakes)
  then show ?case by (subst Pop.simps) (auto split: list.splits)
qed

lemma timeOutPop_head:
  "timeOutPop q waits = Some (Some x, q') \<Longrightarrow>
   \<exists>qf. (qf = q \<or> Woken qf \<in> set waits) \<and> m_queue qf = x # m_queue q'"
proof (induction waits arbitrary: q)
  case Nil
  then show ?case by (subst (asm) timeOutPop.simps) (auto split: list.splits)
next
  case (Cons w waits)
  from Cons.prems show ?case
    by (subst (asm) timeOutPop.simps)
      (auto split: list.splits wait_result.splits dest!: Cons.IH)
qed

lemma timeOutPop_timeout:
  "timeOutPop q waits = Some (None, q') \<Longrightarrow> m_queue q = [] \<and> TimedOut q' \<in> set waits"
proof (induction waits arbitrary: q)
  case Nil
  then show ?case by (subst (asm) timeOutPop.simps) (auto split: list.splits)
next
  case (Cons w waits)
  from Cons.prems show ?case
    by (subst (asm) timeOutPop.simps)
      (auto split: list.splits wait_result.splits dest!: Cons.IH)
qed

lemma getReleasePort_loop_spec:
  assumes "num \<le> 30"
  shows "getReleasePort_loop f port num = (p, n) \<Longrightarrow>
    num \<le> n \<and> n \<le> 30 \<and> p = port + of_nat (n - num) \<and>
    (\<forall>k < n - num. \<not> f (port + of_nat k)) \<and> (n < 30 \<longrightarrow> f p)"
  using assms
proof (induction f port num rule: getReleasePort_loop.induct)
  case (1 f port num)
  show ?case
  proof (cases "\<not> f port \<and> num < 30")
    case True
    with "1.prems" have rec: "getReleasePort_loop f (port + 1) (Suc num) = (p, n)"
      by (subst (asm) getReleasePort_loop.simps) simp
    with "1.IH"[OF True] True have ih: "Suc num \<le> n" "n \<le> 30"
      "p = port + 1 + of_nat (n - Suc num)"
      "\<forall>k < n - Suc num. \<not> f (port + 1 + of_nat k)" "n < 30 \<longrightarrow> f p" by auto
    have "\<not> f (port + of_nat k)" if "k < n - num" for k
    proof (cases k)
      case 0
      then show ?thesis using True by simp
    next
      case (Suc j)
      then show ?thesis using ih(4) that by (simp add: add.assoc)
    qed
    moreover have "n - num = Suc (n - Suc num)" using ih(1) by simp
    ultimately show ?thesis using ih by (simp add: add.assoc)
  next
    case False
    with "1.prems" have "p = port" "n = num"
      by (subst (asm) getReleasePort_loop.simps, simp)+
    then show ?thesis using False "1.prems" by auto
  qed
qed

section \<open>Properties\<close>

text \<open>
  \<open>getReleasePort\<close> returns the first free port among the thirty that
  start at the given one, with 16-bit wrap-around, and reports failure exactly when none of them is free.
\<close>

theorem getReleasePort_spec:
  "case getReleasePort (isReleasePort bind) port of (found, p) \<Rightarrow>
     if found then \<exists>k < 30. p = port + of_nat k \<and> bind p = 0 \<and> (\<forall>j < k. bind (port + of_nat j) \<noteq> 0)
     else \<forall>k < 30. bind (port + of_nat k) \<noteq> 0"
proof -
  let ?free = "isReleasePort bind"
  have free: "?free = (\<lambda>p. bind p = 0)" by (simp add: isReleasePort_def fun_eq_iff)
  obtain p n where r: "getReleasePort_loop ?free port 0 = (p, n)" by (cases "getReleasePort_loop ?free port 0")
  note spec = getReleasePort_loop_spec[OF _ r, simplified free, simplified]
  show ?thesis
  proof (cases "n < 30")
    case True
    then show ?thesis using spec by (auto simp: getReleasePort_def r intro!: exI[of _ n])
  next
    case False
    then show ?thesis using spec by (auto simp: getReleasePort_def r)
  qed
qed

text \<open>
  \<open>LockQueue\<close> is a queue: what several \<open>Push\<close> calls put behind the present
  contents comes out of as many \<open>Pop\<close> calls in the same order after them, none of which blocks.
\<close>

theorem LockQueue_fifo:
  "\<exists>q'. pop_many (length (m_queue q) + length xs) (push_all xs q) = Some (m_queue q @ xs, q') \<and> m_queue q' = []"
  using lq.pops_contents[of "length (m_queue q) + length xs" "push_all xs q"] unfolding lq_pops by simp

end
