(* ===== verification/Persister.thy ===== *)
theory Persister
  imports Util
begin

text \<open>
  src/src/raftCore/Persister.cpp: the two files a node keeps, one for the Raft state and
  one for the snapshot.

  A file is its bytes on disk together with the answer of the operating system to
  \<open>open\<close>; an output stream is open or closed and holds the bytes the library has not
  written through yet. How many bytes a \<open><<\<close> writes through at once is unspecified by
  the standard library: it is the parameter \<open>spill\<close>. Opening an output file stream
  truncates the file, with and without \<open>std::ios::trunc\<close>. \<open>ifs >> s\<close> skips white space and
  reads up to the next white space (\<open>read_word\<close>).

  The locale \<open>stable_storage\<close> is what a Raft node relies on when it saves.
\<close>

section \<open>Files and streams\<close>

record disk_file =
  file_ok :: bool
  bytes :: string

record out_stream =
  is_open :: bool
  pending :: string

record Persister =
  raftStateFile :: disk_file
  snapshotFile :: disk_file
  m_raftStateOutStream :: out_stream
  m_snapshotOutStream :: out_stream
  m_raftStateSize :: int

definition open_trunc :: "disk_file \<Rightarrow> out_stream \<times> disk_file" where
  "open_trunc f =
     (if file_ok f then (\<lparr>is_open = True, pending = []\<rparr>, f\<lparr>bytes := []\<rparr>)
      else (\<lparr>is_open = False, pending = []\<rparr>, f))"

definition close_out :: "out_stream \<Rightarrow> disk_file \<Rightarrow> out_stream \<times> disk_file" where
  "close_out st f =
     (if is_open st
      then (\<lparr>is_open = False, pending = []\<rparr>, f\<lparr>bytes := bytes f @ pending st\<rparr>)
      else (st, f))"

definition put_bytes ::
  "(string \<Rightarrow> nat) \<Rightarrow> string \<Rightarrow> out_stream \<Rightarrow> disk_file \<Rightarrow> out_stream \<times> disk_file" where
  "put_bytes spill s st f =
     (if is_open st
      then let p = pending st @ s; n = spill p
           in (st\<lparr>pending := drop n p\<rparr>, f\<lparr>bytes := bytes f @ take n p\<rparr>)
      else (st, f))"

definition is_space :: "char \<Rightarrow> bool" where
  "is_space c \<longleftrightarrow> c = CHR '' '' \<or> (9 \<le> (of_char c :: nat) \<and> (of_char c :: nat) \<le> 13)"

definition read_word :: "string \<Rightarrow> string" where
  "read_word s = takeWhile (\<lambda>c. \<not> is_space c) (dropWhile is_space s)"

definition no_space :: "string \<Rightarrow> bool" where
  "no_space s \<longleftrightarrow> list_all (\<lambda>c. \<not> is_space c) s"

section \<open>The operations of Persister\<close>

definition clearRaftState :: "Persister \<Rightarrow> Persister" where
  "clearRaftState p =
     (let p1 = p\<lparr>m_raftStateSize := 0\<rparr>;
          (st, f) = close_out (m_raftStateOutStream p1) (raftStateFile p1);
          (st', f') = open_trunc f
      in p1\<lparr>m_raftStateOutStream := st', raftStateFile := f'\<rparr>)"

definition clearSnapshot :: "Persister \<Rightarrow> Persister" where
  "clearSnapshot p =
     (let (st, f) = close_out (m_snapshotOutStream p) (snapshotFile p);
          (st', f') = open_trunc f
      in p\<lparr>m_snapshotOutStream := st', snapshotFile := f'\<rparr>)"

definition clearRaftStateAndSnapshot :: "Persister \<Rightarrow> Persister" where
  "clearRaftStateAndSnapshot p = clearSnapshot (clearRaftState p)"

definition write_raftState :: "(string \<Rightarrow> nat) \<Rightarrow> string \<Rightarrow> Persister \<Rightarrow> Persister" where
  "write_raftState spill data p =
     (let (st, f) = put_bytes spill data (m_raftStateOutStream p) (raftStateFile p)
      in p\<lparr>m_raftStateOutStream := st, raftStateFile := f\<rparr>)"

definition write_snapshot :: "(string \<Rightarrow> nat) \<Rightarrow> string \<Rightarrow> Persister \<Rightarrow> Persister" where
  "write_snapshot spill data p =
     (let (st, f) = put_bytes spill data (m_snapshotOutStream p) (snapshotFile p)
      in p\<lparr>m_snapshotOutStream := st, snapshotFile := f\<rparr>)"

definition Save :: "(string \<Rightarrow> nat) \<Rightarrow> string \<Rightarrow> string \<Rightarrow> Persister \<Rightarrow> Persister" where
  "Save spill raftstate snapshot p =
     write_snapshot spill snapshot
       (write_raftState spill raftstate (clearRaftStateAndSnapshot p))"

definition ReadSnapshot :: "Persister \<Rightarrow> string \<times> Persister" where
  "ReadSnapshot p =
     (let (st, f) = close_out (m_snapshotOutStream p) (snapshotFile p);
          snapshot = (if file_ok f then read_word (bytes f) else []);
          (st', f') = open_trunc f
      in (snapshot, p\<lparr>m_snapshotOutStream := st', snapshotFile := f'\<rparr>))"

definition SaveRaftState :: "(string \<Rightarrow> nat) \<Rightarrow> string \<Rightarrow> Persister \<Rightarrow> Persister" where
  "SaveRaftState spill data p =
     (let p1 = write_raftState spill data (clearRaftState p)
      in p1\<lparr>m_raftStateSize := m_raftStateSize p1 + int (length data)\<rparr>)"

definition RaftStateSize :: "Persister \<Rightarrow> int" where
  "RaftStateSize p = m_raftStateSize p"

definition ReadRaftState :: "Persister \<Rightarrow> string" where
  "ReadRaftState p =
     (if file_ok (raftStateFile p) then read_word (bytes (raftStateFile p)) else [])"

text \<open>
  The constructor runs on the files the previous process left behind: it truncates both
  and binds the streams.
\<close>

definition new_Persister :: "disk_file \<Rightarrow> disk_file \<Rightarrow> Persister" where
  "new_Persister rf sf =
     (let (st1, rf1) = open_trunc rf; (c1, rf2) = close_out st1 rf1;
          (st2, sf1) = open_trunc sf; (c2, sf2) = close_out st2 sf1;
          (rst, rf3) = open_trunc rf2; (sst, sf3) = open_trunc sf2
      in \<lparr>raftStateFile = rf3, snapshotFile = sf3, m_raftStateOutStream = rst,
          m_snapshotOutStream = sst, m_raftStateSize = 0\<rparr>)"

definition delete_Persister :: "Persister \<Rightarrow> disk_file \<times> disk_file" where
  "delete_Persister p =
     (snd (close_out (m_raftStateOutStream p) (raftStateFile p)),
      snd (close_out (m_snapshotOutStream p) (snapshotFile p)))"

section \<open>What the files hold once the streams are closed\<close>

definition stored_state :: "Persister \<Rightarrow> string" where
  "stored_state p = bytes (fst (delete_Persister p))"

definition stored_snapshot :: "Persister \<Rightarrow> string" where
  "stored_snapshot p = bytes (snd (delete_Persister p))"

definition usable :: "Persister \<Rightarrow> bool" where
  "usable p \<longleftrightarrow> file_ok (raftStateFile p) \<and> file_ok (snapshotFile p)
     \<and> is_open (m_raftStateOutStream p) \<and> is_open (m_snapshotOutStream p)"

locale stable_storage =
  fixes save_state :: "string \<Rightarrow> 'p \<Rightarrow> 'p"
    and save_both :: "string \<Rightarrow> string \<Rightarrow> 'p \<Rightarrow> 'p"
    and state_of :: "'p \<Rightarrow> string"
    and snapshot_of :: "'p \<Rightarrow> string"
    and ready :: "'p \<Rightarrow> bool"
  assumes state_save: "ready p \<Longrightarrow> state_of (save_state d p) = d"
    and snapshot_save: "ready p \<Longrightarrow> snapshot_of (save_state d p) = snapshot_of p"
    and state_both: "ready p \<Longrightarrow> state_of (save_both d s p) = d"
    and snapshot_both: "ready p \<Longrightarrow> snapshot_of (save_both d s p) = s"
    and ready_save: "ready p \<Longrightarrow> ready (save_state d p)"
    and ready_both: "ready p \<Longrightarrow> ready (save_both d s p)"
begin

text \<open>A history of saves: only the last one of each kind can be seen afterwards.\<close>

lemma ready_history: "ready p \<Longrightarrow> ready (fold save_state ds p)"
  by (induction ds arbitrary: p) (auto intro: ready_save)

lemma last_save_wins: "ready p \<Longrightarrow> ds \<noteq> [] \<Longrightarrow> state_of (fold save_state ds p) = last ds"
  by (induction ds rule: rev_induct) (auto simp: state_save ready_history)

lemma saves_keep_snapshot: "ready p \<Longrightarrow> snapshot_of (fold save_state ds p) = snapshot_of p"
  by (induction ds arbitrary: p) (auto simp: snapshot_save ready_save)

lemmas storage_simps = state_save snapshot_save state_both snapshot_both ready_save ready_both

end

section \<open>Lemmas\<close>

lemma open_trunc_ok [simp]:
  "file_ok f \<Longrightarrow> open_trunc f = (\<lparr>is_open = True, pending = []\<rparr>, f\<lparr>bytes := []\<rparr>)"
  by (simp add: open_trunc_def)

lemma close_out_open [simp]:
  "is_open st \<Longrightarrow>
   close_out st f = (\<lparr>is_open = False, pending = []\<rparr>, f\<lparr>bytes := bytes f @ pending st\<rparr>)"
  by (simp add: close_out_def)

lemma put_bytes_open [simp]:
  "is_open st \<Longrightarrow>
   put_bytes spill s st f =
     (st\<lparr>pending := drop (spill (pending st @ s)) (pending st @ s)\<rparr>,
      f\<lparr>bytes := bytes f @ take (spill (pending st @ s)) (pending st @ s)\<rparr>)"
  by (simp add: put_bytes_def Let_def)

text \<open>On a usable persister every operation is a plain update of the record.\<close>

lemma clearRaftState_usable:
  "usable p \<Longrightarrow> clearRaftState p =
     p\<lparr>m_raftStateSize := 0, m_raftStateOutStream := \<lparr>is_open = True, pending = []\<rparr>,
       raftStateFile := (raftStateFile p)\<lparr>bytes := []\<rparr>\<rparr>"
  by (simp add: clearRaftState_def usable_def)

lemma clearSnapshot_usable:
  "usable p \<Longrightarrow> clearSnapshot p =
     p\<lparr>m_snapshotOutStream := \<lparr>is_open = True, pending = []\<rparr>,
       snapshotFile := (snapshotFile p)\<lparr>bytes := []\<rparr>\<rparr>"
  by (simp add: clearSnapshot_def usable_def)

lemma SaveRaftState_usable:
  "usable p \<Longrightarrow> SaveRaftState spill d p =
     p\<lparr>m_raftStateSize := int (length d),
       m_raftStateOutStream := \<lparr>is_open = True, pending = drop (spill d) d\<rparr>,
       raftStateFile := (raftStateFile p)\<lparr>bytes := take (spill d) d\<rparr>\<rparr>"
  by (simp add: SaveRaftState_def clearRaftState_usable write_raftState_def Let_def)

lemma Save_usable:
  assumes "usable p"
  shows "Save spill d s p =
     p\<lparr>m_raftStateSize := 0,
       m_raftStateOutStream := \<lparr>is_open = True, pending = drop (spill d) d\<rparr>,
       raftStateFile := (raftStateFile p)\<lparr>bytes := take (spill d) d\<rparr>,
       m_snapshotOutStream := \<lparr>is_open = True, pending = drop (spill s) s\<rparr>,
       snapshotFile := (snapshotFile p)\<lparr>bytes := take (spill s) s\<rparr>\<rparr>"
proof -
  have "usable (clearRaftState p)"
    using assms by (simp add: clearRaftState_usable) (simp add: usable_def)
  then show ?thesis
    using assms
    by (simp add: Save_def clearRaftStateAndSnapshot_def clearSnapshot_usable
        clearRaftState_usable write_raftState_def write_snapshot_def Let_def)
qed

lemma stored_usable:
  assumes "usable p"
  shows "stored_state p = bytes (raftStateFile p) @ pending (m_raftStateOutStream p)"
    and "stored_snapshot p = bytes (snapshotFile p) @ pending (m_snapshotOutStream p)"
  using assms
  by (simp_all add: stored_state_def stored_snapshot_def delete_Persister_def usable_def)

lemma usable_SaveRaftState: "usable p \<Longrightarrow> usable (SaveRaftState spill d p)"
  by (simp add: SaveRaftState_usable) (simp add: usable_def)

lemma usable_Save: "usable p \<Longrightarrow> usable (Save spill d s p)"
  by (simp add: Save_usable) (simp add: usable_def)

lemma stored_SaveRaftState:
  assumes "usable p"
  shows "stored_state (SaveRaftState spill d p) = d"
    and "stored_snapshot (SaveRaftState spill d p) = stored_snapshot p"
  using stored_usable[OF usable_SaveRaftState[OF assms, of spill d]] stored_usable[OF assms]
  by (simp_all add: SaveRaftState_usable assms)

lemma stored_Save:
  assumes "usable p"
  shows "stored_state (Save spill d s p) = d" and "stored_snapshot (Save spill d s p) = s"
  using stored_usable[OF usable_Save[OF assms, of spill d s]]
  by (simp_all add: Save_usable assms)

interpretation ps: stable_storage
  "SaveRaftState spill" "Save spill" stored_state stored_snapshot usable
  by unfold_locales (simp_all add: stored_SaveRaftState stored_Save usable_SaveRaftState usable_Save)

lemma RaftStateSize_SaveRaftState:
  "usable p \<Longrightarrow> RaftStateSize (SaveRaftState spill d p) = int (length d)"
  by (simp add: RaftStateSize_def SaveRaftState_usable)

lemma RaftStateSize_Save: "usable p \<Longrightarrow> RaftStateSize (Save spill d s p) = 0"
  by (simp add: RaftStateSize_def Save_usable)

lemma ReadSnapshot_usable:
  "usable p \<Longrightarrow> ReadSnapshot p =
     (read_word (stored_snapshot p),
      p\<lparr>m_snapshotOutStream := \<lparr>is_open = True, pending = []\<rparr>,
        snapshotFile := (snapshotFile p)\<lparr>bytes := []\<rparr>\<rparr>)"
  by (simp add: stored_usable) (simp add: ReadSnapshot_def usable_def Let_def)

lemma usable_ReadSnapshot: "usable p \<Longrightarrow> usable (snd (ReadSnapshot p))"
  by (simp add: ReadSnapshot_usable) (simp add: usable_def)

lemma stored_ReadSnapshot:
  assumes "usable p"
  shows "stored_snapshot (snd (ReadSnapshot p)) = []"
    and "stored_state (snd (ReadSnapshot p)) = stored_state p"
  using stored_usable[OF usable_ReadSnapshot[OF assms]] stored_usable[OF assms]
  by (simp_all add: ReadSnapshot_usable assms)

lemma read_word_no_space: "no_space s \<Longrightarrow> read_word s = s"
proof -
  assume ns: "no_space s"
  then have "dropWhile is_space s = s"
    by (cases s) (auto simp: no_space_def)
  with ns show ?thesis
    by (auto simp: read_word_def no_space_def list_all_iff takeWhile_eq_all_conv)
qed

lemma read_word_idem: "no_space (read_word s)"
  unfolding no_space_def read_word_def list_all_iff by (auto dest: set_takeWhileD)

lemma new_Persister_ok:
  assumes "file_ok rf" and "file_ok sf"
  shows "new_Persister rf sf =
    \<lparr>raftStateFile = rf\<lparr>bytes := []\<rparr>, snapshotFile = sf\<lparr>bytes := []\<rparr>,
     m_raftStateOutStream = \<lparr>is_open = True, pending = []\<rparr>,
     m_snapshotOutStream = \<lparr>is_open = True, pending = []\<rparr>, m_raftStateSize = 0\<rparr>"
  using assms by (simp add: new_Persister_def Let_def)

lemma usable_new_Persister:
  "file_ok rf \<Longrightarrow> file_ok sf \<Longrightarrow> usable (new_Persister rf sf)"
  by (simp add: new_Persister_ok usable_def)

lemma stored_new_Persister:
  assumes "file_ok rf" and "file_ok sf"
  shows "stored_state (new_Persister rf sf) = []"
    and "stored_snapshot (new_Persister rf sf) = []"
  using stored_usable[OF usable_new_Persister[OF assms]]
  by (simp_all add: new_Persister_ok assms)

lemma ReadRaftState_new_Persister: "ReadRaftState (new_Persister rf sf) = []"
  by (cases "file_ok rf"; cases "file_ok sf")
    (simp_all add: new_Persister_def ReadRaftState_def read_word_def open_trunc_def
      close_out_def Let_def)

end
