(* ===== verification/Wire.thy ===== *)
theory Wire
  imports Util
begin

text \<open>
  The messages of src/src/raftRpcPro (raftRPC.proto, kvServerRPC.proto) and the
  serialisers the program calls.

  A protobuf message is a record: its selectors and updates are the accessors of the
  generated class, its default value is the value of a freshly created message (proto3:
  zero, false, empty). The encoders and decoders themselves are library code (Boost's text
  archives and the protobuf runtime): they are the fields of the record \<open>lib\<close>, an
  argument of every function that serialises. \<open>lib_ok\<close> states what the program relies
  on: decoding an encoding gives the value back.
\<close>

section \<open>Messages of the Raft service\<close>

record LogEntry =
  command :: string
  logterm :: int
  logindex :: int

record AppendEntriesArgs =
  aa_term :: int
  aa_leaderid :: int
  aa_prevlogindex :: int
  aa_prevlogterm :: int
  aa_entries :: "LogEntry list"
  aa_leadercommit :: int

record AppendEntriesReply =
  ar_term :: int
  ar_success :: bool
  ar_updatenextindex :: int
  ar_appstate :: int

record RequestVoteArgs =
  va_term :: int
  va_candidateid :: int
  va_lastlogindex :: int
  va_lastlogterm :: int

record RequestVoteReply =
  vr_term :: int
  vr_votegranted :: bool
  vr_votestate :: int

record InstallSnapshotRequest =
  sa_leaderid :: int
  sa_term :: int
  sa_lastsnapshotincludeindex :: int
  sa_lastsnapshotincludeterm :: int
  sa_data :: string

record InstallSnapshotResponse =
  sr_term :: int

definition new_AppendEntriesReply :: AppendEntriesReply where
  "new_AppendEntriesReply =
     \<lparr>ar_term = 0, ar_success = False, ar_updatenextindex = 0, ar_appstate = 0\<rparr>"

definition new_RequestVoteReply :: RequestVoteReply where
  "new_RequestVoteReply = \<lparr>vr_term = 0, vr_votegranted = False, vr_votestate = 0\<rparr>"

definition new_InstallSnapshotResponse :: InstallSnapshotResponse where
  "new_InstallSnapshotResponse = \<lparr>sr_term = 0\<rparr>"

section \<open>Messages of the key-value service\<close>

record GetArgs =
  ga_key :: string
  ga_clientid :: string
  ga_requestid :: int

record GetReply =
  gr_err :: string
  gr_value :: string

record PutAppendArgs =
  pa_key :: string
  pa_value :: string
  pa_op :: string
  pa_clientid :: string
  pa_requestid :: int

record PutAppendReply =
  pr_err :: string

definition new_GetReply :: GetReply where
  "new_GetReply = \<lparr>gr_err = [], gr_value = []\<rparr>"

definition new_PutAppendReply :: PutAppendReply where
  "new_PutAppendReply = \<lparr>pr_err = []\<rparr>"

section \<open>What is archived\<close>

record BoostPersistRaftNode =
  pn_currentTerm :: int
  pn_votedFor :: int
  pn_lastSnapshotIncludeIndex :: int
  pn_lastSnapshotIncludeTerm :: int
  pn_logs :: "string list"

record SkipListDump =
  keyDumpVt :: "string list"
  valDumpVt :: "string list"

record kv_archive =
  ka_serializedKVData :: string
  ka_lastRequestId :: "(string \<times> int) list"

record lib =
  lib_spill :: "string \<Rightarrow> nat"
  lib_op_out :: "Op \<Rightarrow> string"
  lib_op_in :: "string \<Rightarrow> Op option"
  lib_entry_out :: "LogEntry \<Rightarrow> string"
  lib_entry_in :: "string \<Rightarrow> LogEntry"
  lib_node_out :: "BoostPersistRaftNode \<Rightarrow> string"
  lib_node_in :: "string \<Rightarrow> BoostPersistRaftNode option"
  lib_dump_out :: "SkipListDump \<Rightarrow> string"
  lib_dump_in :: "string \<Rightarrow> SkipListDump option"
  lib_kv_out :: "kv_archive \<Rightarrow> string"
  lib_kv_in :: "string \<Rightarrow> kv_archive option"

definition lib_ok :: "lib \<Rightarrow> bool" where
  "lib_ok L \<longleftrightarrow>
     (\<forall>x. lib_op_in L (lib_op_out L x) = Some x) \<and>
     (\<forall>x. lib_entry_in L (lib_entry_out L x) = x) \<and>
     (\<forall>x. lib_node_in L (lib_node_out L x) = Some x) \<and>
     (\<forall>x. lib_dump_in L (lib_dump_out L x) = Some x) \<and>
     (\<forall>x. lib_kv_in L (lib_kv_out L x) = Some x) \<and>
     (\<forall>x. lib_node_out L x \<noteq> []) \<and> (\<forall>x. lib_dump_out L x \<noteq> []) \<and> (\<forall>x. lib_kv_out L x \<noteq> [])"

text \<open>\<open>Op::asString\<close> and \<open>Op::parseFromString\<close>.\<close>

definition asString :: "lib \<Rightarrow> Op \<Rightarrow> string" where
  "asString L op = lib_op_out L op"

definition op_parseFromString :: "lib \<Rightarrow> string \<Rightarrow> Op res" where
  "op_parseFromString L str = (case lib_op_in L str of None \<Rightarrow> Inl BadParse | Some op \<Rightarrow> Inr op)"

section \<open>A concrete instance of the serialisers\<close>

text \<open>
  Length-prefixed encodings with unary lengths: the simplest functions with the round-trip
  property. They show that \<open>lib_ok\<close> can hold and let the witnesses compute.
\<close>

definition enc_nat :: "nat \<Rightarrow> string" where
  "enc_nat n = replicate n (CHR ''1'') @ [CHR ''0'']"

fun dec_nat :: "string \<Rightarrow> (nat \<times> string) option" where
  "dec_nat [] = None"
| "dec_nat (c # cs) =
     (if c = CHR ''0'' then Some (0, cs)
      else (case dec_nat cs of None \<Rightarrow> None | Some (n, r) \<Rightarrow> Some (Suc n, r)))"

definition enc_int :: "int \<Rightarrow> string" where
  "enc_int i = (if i < 0 then CHR ''-'' # enc_nat (nat (- i)) else CHR ''+'' # enc_nat (nat i))"

definition dec_int :: "string \<Rightarrow> (int \<times> string) option" where
  "dec_int s = (case s of [] \<Rightarrow> None | c # cs \<Rightarrow>
     (case dec_nat cs of None \<Rightarrow> None
      | Some (n, r) \<Rightarrow> Some (if c = CHR ''-'' then - int n else int n, r)))"

definition enc_str :: "string \<Rightarrow> string" where
  "enc_str s = enc_nat (length s) @ s"

definition dec_str :: "string \<Rightarrow> (string \<times> string) option" where
  "dec_str s = (case dec_nat s of None \<Rightarrow> None | Some (n, r) \<Rightarrow> Some (take n r, drop n r))"

definition enc_pair :: "('a \<Rightarrow> string) \<Rightarrow> ('b \<Rightarrow> string) \<Rightarrow> 'a \<times> 'b \<Rightarrow> string" where
  "enc_pair f g p = f (fst p) @ g (snd p)"

definition dec_pair ::
  "(string \<Rightarrow> ('a \<times> string) option) \<Rightarrow> (string \<Rightarrow> ('b \<times> string) option) \<Rightarrow>
   string \<Rightarrow> (('a \<times> 'b) \<times> string) option" where
  "dec_pair f g s = (case f s of None \<Rightarrow> None | Some (a, r) \<Rightarrow>
     (case g r of None \<Rightarrow> None | Some (b, r') \<Rightarrow> Some ((a, b), r')))"

definition enc_list :: "('a \<Rightarrow> string) \<Rightarrow> 'a list \<Rightarrow> string" where
  "enc_list f xs = enc_nat (length xs) @ concat (map f xs)"

fun dec_n :: "(string \<Rightarrow> ('a \<times> string) option) \<Rightarrow> nat \<Rightarrow> string \<Rightarrow> ('a list \<times> string) option" where
  "dec_n f 0 s = Some ([], s)"
| "dec_n f (Suc n) s = (case f s of None \<Rightarrow> None | Some (x, r) \<Rightarrow>
     (case dec_n f n r of None \<Rightarrow> None | Some (xs, r') \<Rightarrow> Some (x # xs, r')))"

definition dec_list :: "(string \<Rightarrow> ('a \<times> string) option) \<Rightarrow> string \<Rightarrow> ('a list \<times> string) option" where
  "dec_list f s = (case dec_nat s of None \<Rightarrow> None | Some (n, r) \<Rightarrow> dec_n f n r)"

definition demo_lib :: lib where
  "demo_lib =
    \<lparr>lib_spill = (\<lambda>_. 0),
     lib_op_out = (\<lambda>x. enc_pair enc_str (enc_pair enc_str (enc_pair enc_str (enc_pair enc_str enc_int)))
        (Operation x, Key x, Value x, ClientId x, RequestId x)),
     lib_op_in = (\<lambda>s. case dec_pair dec_str (dec_pair dec_str (dec_pair dec_str
          (dec_pair dec_str dec_int))) s of
        None \<Rightarrow> None
      | Some ((a, b, c, d, e), _) \<Rightarrow>
          Some \<lparr>Operation = a, Key = b, Value = c, ClientId = d, RequestId = e\<rparr>),
     lib_entry_out = (\<lambda>x. enc_pair enc_str (enc_pair enc_int enc_int)
        (command x, logterm x, logindex x)),
     lib_entry_in = (\<lambda>s. case dec_pair dec_str (dec_pair dec_int dec_int) s of
        None \<Rightarrow> \<lparr>command = [], logterm = 0, logindex = 0\<rparr>
      | Some ((a, b, c), _) \<Rightarrow> \<lparr>command = a, logterm = b, logindex = c\<rparr>),
     lib_node_out = (\<lambda>x. enc_pair enc_int (enc_pair enc_int (enc_pair enc_int
          (enc_pair enc_int (enc_list enc_str))))
        (pn_currentTerm x, pn_votedFor x, pn_lastSnapshotIncludeIndex x,
         pn_lastSnapshotIncludeTerm x, pn_logs x)),
     lib_node_in = (\<lambda>s. case dec_pair dec_int (dec_pair dec_int (dec_pair dec_int
          (dec_pair dec_int (dec_list dec_str)))) s of
        None \<Rightarrow> None
      | Some ((a, b, c, d, e), _) \<Rightarrow>
          Some \<lparr>pn_currentTerm = a, pn_votedFor = b, pn_lastSnapshotIncludeIndex = c,
                pn_lastSnapshotIncludeTerm = d, pn_logs = e\<rparr>),
     lib_dump_out = (\<lambda>x. enc_pair (enc_list enc_str) (enc_list enc_str) (keyDumpVt x, valDumpVt x)),
     lib_dump_in = (\<lambda>s. case dec_pair (dec_list dec_str) (dec_list dec_str) s of
        None \<Rightarrow> None | Some ((a, b), _) \<Rightarrow> Some \<lparr>keyDumpVt = a, valDumpVt = b\<rparr>),
     lib_kv_out = (\<lambda>x. enc_pair enc_str (enc_list (enc_pair enc_str enc_int))
        (ka_serializedKVData x, ka_lastRequestId x)),
     lib_kv_in = (\<lambda>s. case dec_pair dec_str (dec_list (dec_pair dec_str dec_int)) s of
        None \<Rightarrow> None
      | Some ((a, b), _) \<Rightarrow> Some \<lparr>ka_serializedKVData = a, ka_lastRequestId = b\<rparr>)\<rparr>"

section \<open>Lemmas\<close>

definition codec :: "('a \<Rightarrow> string) \<Rightarrow> (string \<Rightarrow> ('a \<times> string) option) \<Rightarrow> bool" where
  "codec e d \<longleftrightarrow> (\<forall>x r. d (e x @ r) = Some (x, r))"

lemma codecD: "codec e d \<Longrightarrow> d (e x @ r) = Some (x, r)"
  by (simp add: codec_def)

lemma codecD0: "codec e d \<Longrightarrow> d (e x) = Some (x, [])"
  using codecD[of e d x "[]"] by simp

lemma dec_enc_nat: "dec_nat (enc_nat n @ r) = Some (n, r)"
  by (induction n) (auto simp: enc_nat_def)

lemma codec_str: "codec enc_str dec_str"
  by (simp add: codec_def enc_str_def dec_str_def dec_enc_nat)

lemma codec_int: "codec enc_int dec_int"
  by (auto simp: codec_def enc_int_def dec_int_def dec_enc_nat)

lemma codec_pair: "codec e d \<Longrightarrow> codec e' d' \<Longrightarrow> codec (enc_pair e e') (dec_pair d d')"
  by (simp add: codec_def enc_pair_def dec_pair_def)

lemma dec_n_concat: "codec e d \<Longrightarrow> dec_n d (length xs) (concat (map e xs) @ r) = Some (xs, r)"
  by (induction xs) (auto simp: codecD)

lemma codec_list: "codec e d \<Longrightarrow> codec (enc_list e) (dec_list d)"
  by (simp add: codec_def[of "enc_list e"] enc_list_def dec_list_def dec_enc_nat dec_n_concat)

lemma enc_nat_nonempty: "enc_nat n \<noteq> []"
  by (simp add: enc_nat_def)

lemmas codecs = codec_str codec_int codec_pair codec_list

lemma demo_lib_ok: "lib_ok demo_lib"
  unfolding lib_ok_def demo_lib_def
  by (simp add: codecD0 codecs) (simp add: enc_pair_def enc_list_def enc_str_def enc_int_def enc_nat_nonempty)

lemma op_roundtrip: "lib_ok L \<Longrightarrow> op_parseFromString L (asString L op) = Inr op"
  by (simp add: op_parseFromString_def asString_def lib_ok_def)

end
