(* ===== verification/RaftState.thy ===== *)
theory RaftState
  imports Persister Wire
begin

text \<open>
  The state of one Raft node (class \<open>Raft\<close>, src/src/raftCore/include/raft.h) and the
  functions of raft.cpp that read its log and save it.

  The fields are those of the class. \<open>m_peers\<close> holds the address of each peer, or
  \<open>None\<close> for the null pointer at the node's own place. The shared counters that the
  reply threads of one election or one heartbeat round point to
  (\<open>std::shared_ptr<int>\<close>) live in \<open>cells\<close>; a thread names its counter by position.
  C++ \<open>int\<close> values are \<open>int\<close>: signed overflow is undefined in C++, so a defined run
  stays inside the 32 bits. Time points are \<open>int\<close> nanoseconds; \<open>now()\<close> is an argument
  of every function that reads the clock.

  A log position has two names: its logical index, counted from the first entry ever
  written, and its place in \<open>m_logs\<close>, which starts after the last snapshot.
  \<open>raft_wf\<close> is the invariant that ties the two together; \<open>entry_at\<close> is the abstract
  log, a partial map from logical indices to entries.
\<close>

section \<open>State\<close>

datatype Status = Follower | Candidate | Leader

definition Disconnected :: int where "Disconnected = 0"
definition AppNormal :: int where "AppNormal = 1"
definition Voted :: int where "Voted = 1"
definition Expire :: int where "Expire = 2"
definition Normal :: int where "Normal = 3"

record Raft =
  m_peers :: "(string \<times> 16 word) option list"
  m_persister :: Persister
  m_me :: int
  m_currentTerm :: int
  m_votedFor :: int
  m_logs :: "LogEntry list"
  m_commitIndex :: int
  m_lastApplied :: int
  m_nextIndex :: "int list"
  m_matchIndex :: "int list"
  m_status :: Status
  applyChan :: "ApplyMsg LockQueue"
  m_lastResetElectionTime :: int
  m_lastResetHearBeatTime :: int
  m_lastSnapshotIncludeIndex :: int
  m_lastSnapshotIncludeTerm :: int
  cells :: "int list"

text \<open>The detached threads a handler starts, with their arguments.\<close>

datatype thread =
  SendRequestVote int RequestVoteArgs nat
| SendAppendEntries int AppendEntriesArgs nat
| LeaderSendSnapShot int
| DoHeartBeat
| PushMsgToKvServer ApplyMsg

section \<open>Reading the log\<close>

definition getLastLogIndexAndTerm :: "Raft \<Rightarrow> int \<times> int" where
  "getLastLogIndexAndTerm r =
     (if m_logs r = [] then (m_lastSnapshotIncludeIndex r, m_lastSnapshotIncludeTerm r)
      else (logindex (last (m_logs r)), logterm (last (m_logs r))))"

definition getLastLogIndex :: "Raft \<Rightarrow> int" where
  "getLastLogIndex r = fst (getLastLogIndexAndTerm r)"

definition getLastLogTerm :: "Raft \<Rightarrow> int" where
  "getLastLogTerm r = snd (getLastLogIndexAndTerm r)"

definition getNewCommandIndex :: "Raft \<Rightarrow> int" where
  "getNewCommandIndex r = getLastLogIndex r + 1"

definition getSlicesIndexFromLogIndex :: "Raft \<Rightarrow> int \<Rightarrow> int res" where
  "getSlicesIndexFromLogIndex r logIndex =
     bindr (myAssert (logIndex > m_lastSnapshotIncludeIndex r)) (\<lambda>_.
     bindr (myAssert (logIndex \<le> getLastLogIndex r)) (\<lambda>_.
     Inr (logIndex - m_lastSnapshotIncludeIndex r - 1)))"

text \<open>The expression \<open>m_logs[getSlicesIndexFromLogIndex(i)]\<close>.\<close>

definition log_at :: "Raft \<Rightarrow> int \<Rightarrow> LogEntry res" where
  "log_at r i = bindr (getSlicesIndexFromLogIndex r i) (\<lambda>k. vec_at (m_logs r) k)"

definition getLogTermFromLogIndex :: "Raft \<Rightarrow> int \<Rightarrow> int res" where
  "getLogTermFromLogIndex r logIndex =
     bindr (myAssert (logIndex \<ge> m_lastSnapshotIncludeIndex r)) (\<lambda>_.
     bindr (myAssert (logIndex \<le> getLastLogIndex r)) (\<lambda>_.
     if logIndex = m_lastSnapshotIncludeIndex r then Inr (m_lastSnapshotIncludeTerm r)
     else bindr (log_at r logIndex) (\<lambda>e. Inr (logterm e))))"

definition matchLog :: "Raft \<Rightarrow> int \<Rightarrow> int \<Rightarrow> bool res" where
  "matchLog r logIndex logTerm =
     bindr (myAssert (logIndex \<ge> m_lastSnapshotIncludeIndex r \<and> logIndex \<le> getLastLogIndex r)) (\<lambda>_.
     bindr (getLogTermFromLogIndex r logIndex) (\<lambda>t. Inr (logTerm = t)))"

definition UpToDate :: "Raft \<Rightarrow> int \<Rightarrow> int \<Rightarrow> bool" where
  "UpToDate r index term =
     (let (lastIndex, lastTerm) = getLastLogIndexAndTerm r
      in term > lastTerm \<or> (term = lastTerm \<and> index \<ge> lastIndex))"

definition getPrevLogInfo :: "Raft \<Rightarrow> int \<Rightarrow> (int \<times> int) res" where
  "getPrevLogInfo r server =
     bindr (vec_at (m_nextIndex r) server) (\<lambda>nextIndex.
     if nextIndex = m_lastSnapshotIncludeIndex r + 1
     then Inr (m_lastSnapshotIncludeIndex r, m_lastSnapshotIncludeTerm r)
     else bindr (log_at r (nextIndex - 1)) (\<lambda>e. Inr (nextIndex - 1, logterm e)))"

definition GetState :: "Raft \<Rightarrow> int \<times> bool" where
  "GetState r = (m_currentTerm r, m_status r = Leader)"

definition GetRaftStateSize :: "Raft \<Rightarrow> int" where
  "GetRaftStateSize r = RaftStateSize (m_persister r)"

section \<open>Saving and restoring\<close>

definition node_image :: "lib \<Rightarrow> Raft \<Rightarrow> BoostPersistRaftNode" where
  "node_image L r =
     \<lparr>pn_currentTerm = m_currentTerm r, pn_votedFor = m_votedFor r,
      pn_lastSnapshotIncludeIndex = m_lastSnapshotIncludeIndex r,
      pn_lastSnapshotIncludeTerm = m_lastSnapshotIncludeTerm r,
      pn_logs = map (lib_entry_out L) (m_logs r)\<rparr>"

definition persistData :: "lib \<Rightarrow> Raft \<Rightarrow> string" where
  "persistData L r = lib_node_out L (node_image L r)"

definition persist :: "lib \<Rightarrow> Raft \<Rightarrow> Raft" where
  "persist L r = r\<lparr>m_persister := SaveRaftState (lib_spill L) (persistData L r) (m_persister r)\<rparr>"

definition readPersist :: "lib \<Rightarrow> string \<Rightarrow> Raft \<Rightarrow> Raft res" where
  "readPersist L data r =
     (if data = [] then Inr r
      else case lib_node_in L data of
        None \<Rightarrow> Inl BadParse
      | Some n \<Rightarrow> Inr (r\<lparr>m_currentTerm := pn_currentTerm n, m_votedFor := pn_votedFor n,
          m_lastSnapshotIncludeIndex := pn_lastSnapshotIncludeIndex n,
          m_lastSnapshotIncludeTerm := pn_lastSnapshotIncludeTerm n,
          m_logs := map (lib_entry_in L) (pn_logs n)\<rparr>))"

section \<open>Invariant and abstraction\<close>

text \<open>The entries of a list carry consecutive logical indices, the first one after \<open>i\<close>.\<close>

fun indexed_from :: "int \<Rightarrow> LogEntry list \<Rightarrow> bool" where
  "indexed_from i [] = True"
| "indexed_from i (e # es) = (logindex e = i + 1 \<and> indexed_from (i + 1) es)"

definition entry_at :: "Raft \<Rightarrow> int \<Rightarrow> LogEntry option" where
  "entry_at r i =
     (let k = i - m_lastSnapshotIncludeIndex r - 1
      in if 0 \<le> k \<and> k < int (length (m_logs r)) then Some (m_logs r ! nat k) else None)"

definition term_at :: "Raft \<Rightarrow> int \<Rightarrow> int option" where
  "term_at r i =
     (if i = m_lastSnapshotIncludeIndex r then Some (m_lastSnapshotIncludeTerm r)
      else map_option logterm (entry_at r i))"

definition raft_wf :: "Raft \<Rightarrow> bool" where
  "raft_wf r \<longleftrightarrow>
     indexed_from (m_lastSnapshotIncludeIndex r) (m_logs r) \<and>
     0 \<le> m_lastSnapshotIncludeIndex r \<and>
     m_lastSnapshotIncludeIndex r \<le> m_lastApplied r \<and>
     m_lastApplied r \<le> m_commitIndex r \<and>
     m_commitIndex r \<le> m_lastSnapshotIncludeIndex r + int (length (m_logs r)) \<and>
     length (m_nextIndex r) = length (m_peers r) \<and>
     length (m_matchIndex r) = length (m_peers r) \<and>
     0 \<le> m_me r \<and> m_me r < int (length (m_peers r))"

text \<open>The saved image is the image of the current state.\<close>

definition persisted :: "lib \<Rightarrow> Raft \<Rightarrow> bool" where
  "persisted L r \<longleftrightarrow> stored_state (m_persister r) = persistData L r"

section \<open>Lemmas\<close>

lemmas last_log_defs = getLastLogIndex_def getLastLogTerm_def getLastLogIndexAndTerm_def

lemma indexed_from_iff:
  "indexed_from i es \<longleftrightarrow> (\<forall>k < length es. logindex (es ! k) = i + 1 + int k)"
proof (induction es arbitrary: i)
  case (Cons e es)
  show ?case
  proof
    assume "indexed_from i (e # es)"
    then show "\<forall>k < length (e # es). logindex ((e # es) ! k) = i + 1 + int k"
      using Cons[of "i + 1"] by (auto simp: nth_Cons split: nat.split)
  next
    assume r: "\<forall>k < length (e # es). logindex ((e # es) ! k) = i + 1 + int k"
    then have "logindex e = i + 1" by force
    moreover have "\<forall>k < length es. logindex (es ! k) = (i + 1) + 1 + int k"
      using r by fastforce
    ultimately show "indexed_from i (e # es)" using Cons[of "i + 1"] by simp
  qed
qed simp

lemma indexed_from_append:
  "indexed_from i (xs @ ys) \<longleftrightarrow> indexed_from i xs \<and> indexed_from (i + int (length xs)) ys"
  by (induction xs arbitrary: i) (auto simp: algebra_simps)

lemma indexed_from_update:
  "indexed_from i es \<Longrightarrow> k < length es \<Longrightarrow> logindex e = i + 1 + int k \<Longrightarrow>
   indexed_from i (es[k := e])"
  by (auto simp: indexed_from_iff nth_list_update)

lemma indexed_from_drop: "indexed_from i es \<Longrightarrow> n \<le> length es \<Longrightarrow> indexed_from (i + int n) (drop n es)"
  by (auto simp: indexed_from_iff)

lemma indexed_last:
  "indexed_from i es \<Longrightarrow> es \<noteq> [] \<Longrightarrow> logindex (last es) = i + int (length es)"
  by (cases es rule: rev_cases) (auto simp: indexed_from_append)

lemma last_index_eq:
  "indexed_from (m_lastSnapshotIncludeIndex r) (m_logs r) \<Longrightarrow>
   getLastLogIndex r = m_lastSnapshotIncludeIndex r + int (length (m_logs r))"
  by (auto simp: last_log_defs indexed_last)

lemma raft_wf_last: "raft_wf r \<Longrightarrow> getLastLogIndex r = m_lastSnapshotIncludeIndex r + int (length (m_logs r))"
  by (simp add: raft_wf_def last_index_eq)

text \<open>Inside the log no access faults, and each one reads the abstract log.\<close>

lemma slices_in_range:
  "m_lastSnapshotIncludeIndex r < i \<Longrightarrow> i \<le> getLastLogIndex r \<Longrightarrow>
   getSlicesIndexFromLogIndex r i = Inr (i - m_lastSnapshotIncludeIndex r - 1)"
  by (simp add: getSlicesIndexFromLogIndex_def)

lemma log_at_in_range:
  assumes "indexed_from (m_lastSnapshotIncludeIndex r) (m_logs r)"
    and "m_lastSnapshotIncludeIndex r < i" and "i \<le> getLastLogIndex r"
  shows "log_at r i = Inr (m_logs r ! nat (i - m_lastSnapshotIncludeIndex r - 1))"
  using assms last_index_eq[OF assms(1)] by (simp add: log_at_def slices_in_range)

lemma log_at_entry:
  assumes "indexed_from (m_lastSnapshotIncludeIndex r) (m_logs r)"
    and "m_lastSnapshotIncludeIndex r < i" and "i \<le> getLastLogIndex r"
  shows "\<exists>e. log_at r i = Inr e \<and> entry_at r i = Some e \<and> logindex e = i"
  using assms last_index_eq[OF assms(1)] log_at_in_range[OF assms]
  by (auto simp: entry_at_def Let_def indexed_from_iff)

lemma getLogTerm_term_at:
  assumes "indexed_from (m_lastSnapshotIncludeIndex r) (m_logs r)"
    and "m_lastSnapshotIncludeIndex r \<le> i" and "i \<le> getLastLogIndex r"
  shows "\<exists>t. getLogTermFromLogIndex r i = Inr t \<and> term_at r i = Some t"
  using assms log_at_entry[OF assms(1)]
  by (cases "i = m_lastSnapshotIncludeIndex r")
    (force simp: getLogTermFromLogIndex_def term_at_def)+

lemma matchLog_term_at:
  assumes "indexed_from (m_lastSnapshotIncludeIndex r) (m_logs r)"
    and "m_lastSnapshotIncludeIndex r \<le> i" and "i \<le> getLastLogIndex r"
  shows "matchLog r i t = Inr (term_at r i = Some t)"
  using getLogTerm_term_at[OF assms] assms(2,3) by (auto simp: matchLog_def)

lemma entry_at_beyond:
  "indexed_from (m_lastSnapshotIncludeIndex r) (m_logs r) \<Longrightarrow> getLastLogIndex r < i \<Longrightarrow> entry_at r i = None"
  by (simp add: entry_at_def last_index_eq)

lemma entry_at_before: "i \<le> m_lastSnapshotIncludeIndex r \<Longrightarrow> entry_at r i = None"
  by (simp add: entry_at_def)

lemma entry_at_index:
  "indexed_from (m_lastSnapshotIncludeIndex r) (m_logs r) \<Longrightarrow> entry_at r i = Some e \<Longrightarrow> logindex e = i"
  by (auto simp: entry_at_def Let_def indexed_from_iff split: if_splits)

lemma entry_at_Some_iff:
  "indexed_from (m_lastSnapshotIncludeIndex r) (m_logs r) \<Longrightarrow>
   (\<exists>e. entry_at r i = Some e) \<longleftrightarrow> m_lastSnapshotIncludeIndex r < i \<and> i \<le> getLastLogIndex r"
  by (auto simp: entry_at_def Let_def last_index_eq)

text \<open>Only the log and the snapshot position matter to the readers of the log.\<close>

lemma getLastLogIndex_frame [simp]:
  "getLastLogIndex (r\<lparr>m_persister := x0\<rparr>) = getLastLogIndex r"
  "getLastLogIndex (r\<lparr>m_me := x1\<rparr>) = getLastLogIndex r"
  "getLastLogIndex (r\<lparr>m_currentTerm := x2\<rparr>) = getLastLogIndex r"
  "getLastLogIndex (r\<lparr>m_votedFor := x3\<rparr>) = getLastLogIndex r"
  "getLastLogIndex (r\<lparr>m_commitIndex := x4\<rparr>) = getLastLogIndex r"
  "getLastLogIndex (r\<lparr>m_lastApplied := x5\<rparr>) = getLastLogIndex r"
  "getLastLogIndex (r\<lparr>m_nextIndex := x6\<rparr>) = getLastLogIndex r"
  "getLastLogIndex (r\<lparr>m_matchIndex := x7\<rparr>) = getLastLogIndex r"
  "getLastLogIndex (r\<lparr>m_status := x8\<rparr>) = getLastLogIndex r"
  "getLastLogIndex (r\<lparr>applyChan := x9\<rparr>) = getLastLogIndex r"
  "getLastLogIndex (r\<lparr>m_lastResetElectionTime := x10\<rparr>) = getLastLogIndex r"
  "getLastLogIndex (r\<lparr>m_lastResetHearBeatTime := x11\<rparr>) = getLastLogIndex r"
  "getLastLogIndex (r\<lparr>cells := x12\<rparr>) = getLastLogIndex r"
  "getLastLogIndex (r\<lparr>m_peers := x13\<rparr>) = getLastLogIndex r"
  by (simp_all add: last_log_defs cong: if_cong)

lemma entry_at_frame [simp]:
  "entry_at (r\<lparr>m_persister := x0\<rparr>) = entry_at r"
  "entry_at (r\<lparr>m_me := x1\<rparr>) = entry_at r"
  "entry_at (r\<lparr>m_currentTerm := x2\<rparr>) = entry_at r"
  "entry_at (r\<lparr>m_votedFor := x3\<rparr>) = entry_at r"
  "entry_at (r\<lparr>m_commitIndex := x4\<rparr>) = entry_at r"
  "entry_at (r\<lparr>m_lastApplied := x5\<rparr>) = entry_at r"
  "entry_at (r\<lparr>m_nextIndex := x6\<rparr>) = entry_at r"
  "entry_at (r\<lparr>m_matchIndex := x7\<rparr>) = entry_at r"
  "entry_at (r\<lparr>m_status := x8\<rparr>) = entry_at r"
  "entry_at (r\<lparr>applyChan := x9\<rparr>) = entry_at r"
  "entry_at (r\<lparr>m_lastResetElectionTime := x10\<rparr>) = entry_at r"
  "entry_at (r\<lparr>m_lastResetHearBeatTime := x11\<rparr>) = entry_at r"
  "entry_at (r\<lparr>cells := x12\<rparr>) = entry_at r"
  "entry_at (r\<lparr>m_peers := x13\<rparr>) = entry_at r"
  by (simp_all add: entry_at_def Let_def fun_eq_iff cong: if_cong)

lemma term_at_frame [simp]:
  "term_at (r\<lparr>m_persister := x0\<rparr>) = term_at r"
  "term_at (r\<lparr>m_me := x1\<rparr>) = term_at r"
  "term_at (r\<lparr>m_currentTerm := x2\<rparr>) = term_at r"
  "term_at (r\<lparr>m_votedFor := x3\<rparr>) = term_at r"
  "term_at (r\<lparr>m_commitIndex := x4\<rparr>) = term_at r"
  "term_at (r\<lparr>m_lastApplied := x5\<rparr>) = term_at r"
  "term_at (r\<lparr>m_nextIndex := x6\<rparr>) = term_at r"
  "term_at (r\<lparr>m_matchIndex := x7\<rparr>) = term_at r"
  "term_at (r\<lparr>m_status := x8\<rparr>) = term_at r"
  "term_at (r\<lparr>applyChan := x9\<rparr>) = term_at r"
  "term_at (r\<lparr>m_lastResetElectionTime := x10\<rparr>) = term_at r"
  "term_at (r\<lparr>m_lastResetHearBeatTime := x11\<rparr>) = term_at r"
  "term_at (r\<lparr>cells := x12\<rparr>) = term_at r"
  "term_at (r\<lparr>m_peers := x13\<rparr>) = term_at r"
  by (simp_all add: term_at_def fun_eq_iff cong: if_cong)

text \<open>Saving touches the persister only.\<close>

lemma persist_fields [simp]:
  "m_peers (persist L r) = m_peers r" "m_me (persist L r) = m_me r"
  "m_currentTerm (persist L r) = m_currentTerm r" "m_votedFor (persist L r) = m_votedFor r"
  "m_logs (persist L r) = m_logs r" "m_commitIndex (persist L r) = m_commitIndex r"
  "m_lastApplied (persist L r) = m_lastApplied r" "m_nextIndex (persist L r) = m_nextIndex r"
  "m_matchIndex (persist L r) = m_matchIndex r" "m_status (persist L r) = m_status r"
  "applyChan (persist L r) = applyChan r" "cells (persist L r) = cells r"
  "m_lastResetElectionTime (persist L r) = m_lastResetElectionTime r"
  "m_lastResetHearBeatTime (persist L r) = m_lastResetHearBeatTime r"
  "m_lastSnapshotIncludeIndex (persist L r) = m_lastSnapshotIncludeIndex r"
  "m_lastSnapshotIncludeTerm (persist L r) = m_lastSnapshotIncludeTerm r"
  by (simp_all add: persist_def)

lemma raft_wf_persist [simp]: "raft_wf (persist L r) = raft_wf r"
  by (simp add: raft_wf_def)

lemma entry_at_persist [simp]: "entry_at (persist L r) = entry_at r"
  by (simp add: entry_at_def Let_def fun_eq_iff)

lemma term_at_persist [simp]: "term_at (persist L r) = term_at r"
  by (simp add: term_at_def fun_eq_iff)

lemma getLastLogIndexAndTerm_persist [simp]:
  "getLastLogIndexAndTerm (persist L r) = getLastLogIndexAndTerm r"
  by (simp add: getLastLogIndexAndTerm_def)

lemma getLastLogIndex_persist [simp]: "getLastLogIndex (persist L r) = getLastLogIndex r"
  by (simp add: getLastLogIndex_def)

lemma persistData_cong:
  "m_currentTerm r = m_currentTerm r' \<Longrightarrow> m_votedFor r = m_votedFor r' \<Longrightarrow>
   m_lastSnapshotIncludeIndex r = m_lastSnapshotIncludeIndex r' \<Longrightarrow>
   m_lastSnapshotIncludeTerm r = m_lastSnapshotIncludeTerm r' \<Longrightarrow> m_logs r = m_logs r' \<Longrightarrow>
   persistData L r = persistData L r'"
  by (simp add: persistData_def node_image_def)

lemma persistData_persist [simp]: "persistData L (persist L r) = persistData L r"
  by (rule persistData_cong) simp_all

lemma persisted_persist: "usable (m_persister r) \<Longrightarrow> persisted L (persist L r)"
  unfolding persisted_def persistData_persist by (simp add: persist_def ps.state_save)

lemma usable_persist [simp]: "usable (m_persister r) \<Longrightarrow> usable (m_persister (persist L r))"
  by (simp add: persist_def ps.ready_save)

lemma readPersist_persistData:
  assumes "lib_ok L"
  shows "readPersist L (persistData L r) r0 = Inr (r0\<lparr>m_currentTerm := m_currentTerm r,
    m_votedFor := m_votedFor r, m_lastSnapshotIncludeIndex := m_lastSnapshotIncludeIndex r,
    m_lastSnapshotIncludeTerm := m_lastSnapshotIncludeTerm r, m_logs := m_logs r\<rparr>)"
proof -
  have "map (lib_entry_in L \<circ> lib_entry_out L) (m_logs r) = m_logs r"
    using assms by (simp add: lib_ok_def map_idI)
  then show ?thesis
    using assms by (simp add: readPersist_def persistData_def lib_ok_def node_image_def)
qed

section \<open>Example nodes\<close>

text \<open>A leader and a follower of a cluster of three, for the concrete instances below.\<close>

definition demo_file :: disk_file where
  "demo_file = \<lparr>file_ok = True, bytes = []\<rparr>"

definition demo_persister :: Persister where
  "demo_persister = new_Persister demo_file demo_file"

definition demo_peers :: "(string \<times> 16 word) option list" where
  "demo_peers = [Some (''h'', 1), Some (''h'', 2), Some (''h'', 3)]"

definition demo_log :: "LogEntry list" where
  "demo_log = [\<lparr>command = ''a'', logterm = 1, logindex = 1\<rparr>,
    \<lparr>command = ''b'', logterm = 1, logindex = 2\<rparr>, \<lparr>command = ''c'', logterm = 2, logindex = 3\<rparr>]"

definition demo_node :: Raft where
  "demo_node = \<lparr>m_peers = demo_peers, m_persister = demo_persister, m_me = 0, m_currentTerm = 2,
     m_votedFor = 0, m_logs = demo_log, m_commitIndex = 2, m_lastApplied = 1,
     m_nextIndex = [4, 2, 4], m_matchIndex = [0, 1, 3], m_status = Leader, applyChan = empty_queue,
     m_lastResetElectionTime = 0, m_lastResetHearBeatTime = 0, m_lastSnapshotIncludeIndex = 0,
     m_lastSnapshotIncludeTerm = 0, cells = [1, 1]\<rparr>"

definition demo_follower :: Raft where
  "demo_follower = \<lparr>m_peers = demo_peers, m_persister = demo_persister, m_me = 1, m_currentTerm = 1,
     m_votedFor = -1, m_logs = [\<lparr>command = ''a'', logterm = 1, logindex = 1\<rparr>], m_commitIndex = 1,
     m_lastApplied = 0, m_nextIndex = [0, 0, 0], m_matchIndex = [0, 0, 0], m_status = Follower,
     applyChan = empty_queue, m_lastResetElectionTime = 0, m_lastResetHearBeatTime = 0,
     m_lastSnapshotIncludeIndex = 0, m_lastSnapshotIncludeTerm = 0, cells = []\<rparr>"

lemmas demo_defs = demo_node_def demo_follower_def demo_peers_def demo_log_def

lemma demo_usable [simp]: "usable demo_persister"
  by (simp add: demo_persister_def demo_file_def usable_new_Persister)

lemma demo_wf [simp]: "raft_wf demo_node" "raft_wf demo_follower"
  by (simp_all add: demo_defs raft_wf_def)

section \<open>Properties\<close>


lemma lib_ok_spill [simp]: "lib_ok (L\<lparr>lib_spill := f\<rparr>) = lib_ok L"
  by (simp add: lib_ok_def)


end
