(* ===== verification/RaftElection.thy ===== *)
theory RaftElection
  imports RaftState
begin

text \<open>
  Leader election in raft.cpp: \<open>electionTimeOutTicker\<close>, \<open>doElection\<close>,
  \<open>RequestVote\<close> and \<open>sendRequestVote\<close>.

  \<open>sendRequestVote\<close> runs in a thread of its own: it calls the peer without holding the
  mutex and continues under the mutex when the call returns. \<open>sendRequestVote_end\<close> is
  the second part, from the test of \<open>ok\<close> on. The vote counter is a shared cell.

  \<open>vote_frame\<close> is the one-step contract of every function of a node other than these
  with respect to votes: terms never go back, a vote is forgotten only when the term
  grows, and no node becomes leader. The proof of election safety rests on it.
\<close>

section \<open>Operations\<close>

definition doElection :: "lib \<Rightarrow> int \<Rightarrow> Raft \<Rightarrow> Raft \<times> thread list" where
  "doElection L now r =
     (if m_status r \<noteq> Leader then
        let r1 = persist L (r\<lparr>m_status := Candidate, m_currentTerm := m_currentTerm r + 1,
                              m_votedFor := m_me r\<rparr>);
            votedNum = length (cells r1);
            r2 = r1\<lparr>cells := cells r1 @ [1], m_lastResetElectionTime := now\<rparr>;
            (lastLogIndex, lastLogTerm) = getLastLogIndexAndTerm r2;
            args = \<lparr>va_term = m_currentTerm r2, va_candidateid = m_me r2,
                    va_lastlogindex = lastLogIndex, va_lastlogterm = lastLogTerm\<rparr>
        in (r2, map (\<lambda>i. SendRequestVote (int i) args votedNum)
                  (filter (\<lambda>i. int i \<noteq> m_me r2) [0..<length (m_peers r2)]))
      else (r, []))"

definition RequestVote :: "lib \<Rightarrow> int \<Rightarrow> RequestVoteArgs \<Rightarrow> Raft \<Rightarrow> (RequestVoteReply \<times> Raft) res" where
  "RequestVote L now args r =
     (let reply = new_RequestVoteReply in
      if va_term args < m_currentTerm r then
        Inr (reply\<lparr>vr_term := m_currentTerm r, vr_votestate := Expire, vr_votegranted := False\<rparr>,
             persist L r)
      else
        let r1 = (if va_term args > m_currentTerm r
                  then r\<lparr>m_status := Follower, m_currentTerm := va_term args, m_votedFor := -1\<rparr>
                  else r) in
        bindr (myAssert (va_term args = m_currentTerm r1)) (\<lambda>_.
        if \<not> UpToDate r1 (va_lastlogindex args) (va_lastlogterm args) then
          Inr (reply\<lparr>vr_term := m_currentTerm r1, vr_votestate := Voted, vr_votegranted := False\<rparr>,
               persist L r1)
        else if m_votedFor r1 \<noteq> -1 \<and> m_votedFor r1 \<noteq> va_candidateid args then
          Inr (reply\<lparr>vr_term := m_currentTerm r1, vr_votestate := Voted, vr_votegranted := False\<rparr>,
               persist L r1)
        else
          let r2 = r1\<lparr>m_votedFor := va_candidateid args, m_lastResetElectionTime := now\<rparr> in
          Inr (reply\<lparr>vr_term := m_currentTerm r2, vr_votestate := Normal, vr_votegranted := True\<rparr>,
               persist L r2)))"

text \<open>
  The assignments made when the votes suffice. The loop runs over \<open>m_nextIndex\<close> and
  writes both vectors.
\<close>

definition become_leader :: "Raft \<Rightarrow> Raft res" where
  "become_leader r =
     (let lastLogIndex = getLastLogIndex r; n = length (m_nextIndex r) in
      if length (m_matchIndex r) < n then Inl OutOfRange
      else Inr (r\<lparr>m_status := Leader, m_nextIndex := replicate n (lastLogIndex + 1),
                  m_matchIndex := replicate n 0 @ drop n (m_matchIndex r)\<rparr>))"

definition sendRequestVote_end ::
  "lib \<Rightarrow> bool \<Rightarrow> RequestVoteReply \<Rightarrow> nat \<Rightarrow> Raft \<Rightarrow> (Raft \<times> thread list) res" where
  "sendRequestVote_end L ok reply votedNum r =
     (if \<not> ok then Inr (r, [])
      else if vr_term reply > m_currentTerm r then
        Inr (persist L (r\<lparr>m_status := Follower, m_currentTerm := vr_term reply, m_votedFor := -1\<rparr>), [])
      else if vr_term reply < m_currentTerm r then Inr (r, [])
      else
        bindr (myAssert (vr_term reply = m_currentTerm r)) (\<lambda>_.
        if \<not> vr_votegranted reply then Inr (r, [])
        else
          bindr (vec_at (cells r) (int votedNum)) (\<lambda>v.
          let r1 = r\<lparr>cells := (cells r)[votedNum := v + 1]\<rparr> in
          if v + 1 \<ge> int (length (m_peers r1) div 2) + 1 then
            let r2 = r1\<lparr>cells := (cells r1)[votedNum := 0]\<rparr> in
            bindr (myAssert (m_status r2 \<noteq> Leader)) (\<lambda>_.
            bindr (become_leader r2) (\<lambda>r3. Inr (persist L r3, [DoHeartBeat])))
          else Inr (r1, []))))"

text \<open>
  One round of \<open>electionTimeOutTicker\<close> of a node that is not the leader.
  \<open>timeout\<close> is the value of \<open>getRandomizedElectionTimeout\<close> in milliseconds; the node
  sleeps for \<open>election_sleep\<close> nanoseconds, whole microseconds, if that is more than a millisecond, and then,
  in the state it finds, starts an election unless the timer was reset meanwhile.
\<close>

definition election_sleep :: "int \<Rightarrow> int \<Rightarrow> Raft \<Rightarrow> int" where
  "election_sleep timeout wakeTime r =
     (let suitableSleepTime = timeout * 1000000 + m_lastResetElectionTime r - wakeTime
      in if suitableSleepTime > 1000000 then suitableSleepTime div 1000 * 1000 else 0)"

definition electionTimeOutTicker ::
  "lib \<Rightarrow> int \<Rightarrow> int \<Rightarrow> Raft \<Rightarrow> Raft \<times> thread list" where
  "electionTimeOutTicker L wakeTime now r =
     (if m_lastResetElectionTime r - wakeTime > 0 then (r, []) else doElection L now r)"

section \<open>The contract on votes\<close>

definition vote_frame :: "Raft \<Rightarrow> Raft \<Rightarrow> bool" where
  "vote_frame r r' \<longleftrightarrow>
     m_me r' = m_me r \<and> length (m_peers r') = length (m_peers r) \<and>
     length (cells r) \<le> length (cells r') \<and>
     (m_currentTerm r < m_currentTerm r' \<and> m_votedFor r' = -1 \<and> m_status r' \<noteq> Leader \<or>
      m_currentTerm r = m_currentTerm r' \<and> m_votedFor r' = m_votedFor r \<and>
      (m_status r' = Leader \<longrightarrow> m_status r = Leader))"

section \<open>Lemmas\<close>

lemma vote_frame_refl [simp]: "vote_frame r r"
  by (simp add: vote_frame_def)

lemma vote_frame_trans: "vote_frame r r' \<Longrightarrow> vote_frame r' r'' \<Longrightarrow> vote_frame r r''"
  by (auto simp: vote_frame_def)

lemma vote_frame_persist [simp]:
  "vote_frame r (persist L r') = vote_frame r r'" "vote_frame (persist L r) r' = vote_frame r r'"
  by (simp_all add: vote_frame_def)

text \<open>\<open>doElection\<close>: the term grows by one, the node votes for itself, one call per peer.\<close>

lemma doElection_leader: "m_status r = Leader \<Longrightarrow> doElection L now r = (r, [])"
  by (simp add: doElection_def)

lemma doElection_candidate:
  assumes "m_status r \<noteq> Leader" and "doElection L now r = (r', ts)"
  shows "m_currentTerm r' = m_currentTerm r + 1" "m_votedFor r' = m_me r" "m_me r' = m_me r"
    "m_status r' = Candidate" "cells r' = cells r @ [1]" "m_peers r' = m_peers r"
    "m_logs r' = m_logs r" "m_lastSnapshotIncludeIndex r' = m_lastSnapshotIncludeIndex r"
    "m_commitIndex r' = m_commitIndex r" "m_lastApplied r' = m_lastApplied r"
    "m_nextIndex r' = m_nextIndex r" "m_matchIndex r' = m_matchIndex r"
    "m_lastSnapshotIncludeTerm r' = m_lastSnapshotIncludeTerm r"
    "applyChan r' = applyChan r"
  using assms by (auto simp: doElection_def Let_def getLastLogIndexAndTerm_def split: if_splits)

lemma doElection_threads:
  assumes "m_status r \<noteq> Leader" and "doElection L now r = (r', ts)"
  shows "ts = map (\<lambda>i. SendRequestVote (int i)
      \<lparr>va_term = m_currentTerm r + 1, va_candidateid = m_me r,
       va_lastlogindex = fst (getLastLogIndexAndTerm r),
       va_lastlogterm = snd (getLastLogIndexAndTerm r)\<rparr> (length (cells r)))
    (filter (\<lambda>i. int i \<noteq> m_me r) [0..<length (m_peers r)])"
  using assms by (auto simp: doElection_def Let_def getLastLogIndexAndTerm_def split: if_splits)

lemma raft_wf_doElection:
  assumes "raft_wf r" and "doElection L now r = (r', ts)"
  shows "raft_wf r'"
proof (cases "m_status r = Leader")
  case True
  with assms show ?thesis by (simp add: doElection_leader)
next
  case False
  from assms(1) doElection_candidate[OF this assms(2)] show ?thesis by (simp add: raft_wf_def)
qed

lemma doElection_persisted:
  assumes "m_status r \<noteq> Leader" and "usable (m_persister r)" and "doElection L now r = (r', ts)"
  shows "persisted L r' \<and> usable (m_persister r')"
proof -
  let ?r1 = "r\<lparr>m_status := Candidate, m_currentTerm := m_currentTerm r + 1, m_votedFor := m_me r\<rparr>"
  have r': "r' = (persist L ?r1)\<lparr>cells := cells r @ [1], m_lastResetElectionTime := now\<rparr>"
    using assms(1,3) by (auto simp: doElection_def Let_def split: prod.splits)
  have "persistData L r' = persistData L (persist L ?r1)"
    unfolding r' by (rule persistData_cong) simp_all
  moreover have "persisted L (persist L ?r1)" by (rule persisted_persist) (simp add: assms(2))
  ultimately show ?thesis
    using assms(2) by (simp add: persisted_def r')
qed

text \<open>\<open>RequestVote\<close> never faults.\<close>

lemma RequestVote_total: "\<exists>reply r'. RequestVote L now args r = Inr (reply, r')"
  by (auto simp: RequestVote_def Let_def bindr_eq_Inr not_less)

lemma RequestVote_frame:
  assumes "RequestVote L now args r = Inr (reply, r')"
  shows "m_me r' = m_me r" "m_peers r' = m_peers r" "cells r' = cells r" "m_logs r' = m_logs r"
    "m_commitIndex r' = m_commitIndex r" "m_lastApplied r' = m_lastApplied r"
    "m_lastSnapshotIncludeIndex r' = m_lastSnapshotIncludeIndex r"
    "m_lastSnapshotIncludeTerm r' = m_lastSnapshotIncludeTerm r"
    "m_nextIndex r' = m_nextIndex r" "m_matchIndex r' = m_matchIndex r" "applyChan r' = applyChan r"
  using assms by (auto simp: RequestVote_def Let_def bindr_eq_Inr split: if_splits)

lemma raft_wf_RequestVote: "raft_wf r \<Longrightarrow> RequestVote L now args r = Inr (reply, r') \<Longrightarrow> raft_wf r'"
  using RequestVote_frame[of L now args r reply r'] by (simp add: raft_wf_def)

lemma RequestVote_granted:
  assumes "RequestVote L now args r = Inr (reply, r')" and "vr_votegranted reply"
  shows "vr_term reply = va_term args" "m_currentTerm r' = va_term args"
    "m_votedFor r' = va_candidateid args" "m_currentTerm r \<le> va_term args"
    "m_currentTerm r = va_term args \<Longrightarrow> m_votedFor r = -1 \<or> m_votedFor r = va_candidateid args"
    "UpToDate r (va_lastlogindex args) (va_lastlogterm args)"
    "m_status r' = Leader \<Longrightarrow> m_status r = Leader \<and> m_currentTerm r = va_term args"
  using assms
  by (auto simp: RequestVote_def Let_def bindr_eq_Inr UpToDate_def getLastLogIndexAndTerm_def
      split: if_splits)

lemma RequestVote_denied:
  assumes "RequestVote L now args r = Inr (reply, r')" and "\<not> vr_votegranted reply"
  shows "vote_frame r r'"
  using assms
  by (auto simp: RequestVote_def Let_def bindr_eq_Inr vote_frame_def split: if_splits)

lemma RequestVote_reply_term:
  "RequestVote L now args r = Inr (reply, r') \<Longrightarrow> vr_term reply = m_currentTerm r' \<and> va_term args \<le> vr_term reply"
  by (auto simp: RequestVote_def Let_def bindr_eq_Inr split: if_splits)

lemma RequestVote_persisted:
  assumes "usable (m_persister r)" and "RequestVote L now args r = Inr (reply, r')"
  shows "persisted L r' \<and> usable (m_persister r')"
  using assms
  by (auto simp: RequestVote_def Let_def bindr_eq_Inr persisted_persist split: if_splits)

lemma become_leader_wf:
  assumes "raft_wf r"
  shows "\<exists>r'. become_leader r = Inr r' \<and> raft_wf r' \<and> m_status r' = Leader"
  using assms by (simp add: become_leader_def raft_wf_def Let_def)

lemma become_leader_fields:
  assumes "become_leader r = Inr r'"
  shows "m_currentTerm r' = m_currentTerm r" "m_votedFor r' = m_votedFor r" "m_me r' = m_me r"
    "m_peers r' = m_peers r" "cells r' = cells r" "m_logs r' = m_logs r" "m_status r' = Leader"
    "m_nextIndex r' = replicate (length (m_nextIndex r)) (getLastLogIndex r + 1)"
    "m_lastSnapshotIncludeIndex r' = m_lastSnapshotIncludeIndex r"
    "m_commitIndex r' = m_commitIndex r" "m_lastApplied r' = m_lastApplied r"
  using assms by (auto simp: become_leader_def Let_def split: if_splits)

text \<open>What the reply of a peer can change, by cases.\<close>

lemma sendRequestVote_cases:
  assumes "sendRequestVote_end L ok reply k r = Inr (r', ts)"
  obtains (other) "vote_frame r r'" "cells r' = cells r" "ts = []"
  | (counted) "vr_votegranted reply" "vr_term reply = m_currentTerm r" "k < length (cells r)"
      "cells r ! k + 1 < int (length (m_peers r) div 2) + 1" "ts = []"
      "r' = r\<lparr>cells := (cells r)[k := cells r ! k + 1]\<rparr>"
  | (won) r3 where "vr_votegranted reply" "vr_term reply = m_currentTerm r" "k < length (cells r)"
      "cells r ! k + 1 \<ge> int (length (m_peers r) div 2) + 1" "ts = [DoHeartBeat]"
      "become_leader (r\<lparr>cells := (cells r)[k := 0]\<rparr>) = Inr r3" "r' = persist L r3"
proof -
  consider (nok) "\<not> ok" | (newer) "ok" "vr_term reply > m_currentTerm r"
    | (older) "ok" "vr_term reply < m_currentTerm r"
    | (denied) "ok" "vr_term reply = m_currentTerm r" "\<not> vr_votegranted reply"
    | (granted) "ok" "vr_term reply = m_currentTerm r" "vr_votegranted reply"
    by linarith
  then show ?thesis
  proof cases
    case granted
    with assms obtain v where v: "k < length (cells r)" "v = cells r ! k"
      and rest: "(let r1 = r\<lparr>cells := (cells r)[k := v + 1]\<rparr> in
          if v + 1 \<ge> int (length (m_peers r1) div 2) + 1 then
            let r2 = r1\<lparr>cells := (cells r1)[k := 0]\<rparr> in
            bindr (myAssert (m_status r2 \<noteq> Leader)) (\<lambda>_.
            bindr (become_leader r2) (\<lambda>r3. Inr (persist L r3, [DoHeartBeat])))
          else Inr (r1, [])) = Inr (r', ts)"
      by (auto simp: sendRequestVote_end_def bindr_eq_Inr vec_at_eq_Inr)
    show ?thesis
    proof (cases "cells r ! k + 1 \<ge> int (length (m_peers r) div 2) + 1")
      case True
      with rest v obtain r3 where "become_leader (r\<lparr>cells := (cells r)[k := 0]\<rparr>) = Inr r3"
        "r' = persist L r3" "ts = [DoHeartBeat]"
        by (auto simp: Let_def bindr_eq_Inr)
      then show ?thesis using won granted True v by blast
    next
      case False
      with rest v show ?thesis using counted granted by (simp add: Let_def)
    qed
  qed (use assms other in \<open>auto simp: sendRequestVote_end_def vote_frame_def\<close>)
qed

lemma raft_wf_cells [simp]: "raft_wf (r\<lparr>cells := cs\<rparr>) = raft_wf r"
  by (simp add: raft_wf_def)

lemma raft_wf_vote_fields [simp]:
  "raft_wf (r\<lparr>m_status := s\<rparr>) = raft_wf r" "raft_wf (r\<lparr>m_currentTerm := t\<rparr>) = raft_wf r"
  "raft_wf (r\<lparr>m_votedFor := v\<rparr>) = raft_wf r"
  "raft_wf (r\<lparr>m_lastResetElectionTime := now\<rparr>) = raft_wf r"
  "raft_wf (r\<lparr>m_lastResetHearBeatTime := now\<rparr>) = raft_wf r"
  by (simp_all add: raft_wf_def)

lemma sendRequestVote_wf:
  assumes "raft_wf r" and "k < length (cells r)"
    and "vr_term reply = m_currentTerm r \<Longrightarrow> m_status r \<noteq> Leader \<or>
      cells r ! k + 1 < int (length (m_peers r) div 2) + 1"
  shows "\<exists>r' ts. sendRequestVote_end L ok reply k r = Inr (r', ts) \<and> raft_wf r'"
proof -
  have bl: "\<exists>x. become_leader (r\<lparr>cells := cs\<rparr>) = Inr x \<and> raft_wf x" for cs
    using become_leader_wf[of "r\<lparr>cells := cs\<rparr>"] assms(1) by auto
  show ?thesis
    using assms bl[of "(cells r)[k := 0]"]
    by (auto simp: sendRequestVote_end_def Let_def bindr_eq_Inr vec_at_eq_Inr)
qed

lemma whole_micros: "x - 999 \<le> x div 1000 * 1000" "x div 1000 * 1000 \<le> (x :: int)"
  using pos_mod_bound[of 1000 x] pos_mod_sign[of 1000 x] by (simp_all flip: minus_mod_eq_div_mult)

lemma election_not_early:
  assumes "wakeTime + election_sleep timeout wakeTime r \<le> now"
    and "m_lastResetElectionTime r = t0"
  shows "timeout * 1000000 - 1000000 \<le> now - t0"
proof -
  let ?s = "timeout * 1000000 + t0 - wakeTime"
  have "?s - 999 \<le> ?s div 1000 * 1000" by (rule whole_micros)
  then show ?thesis using assms by (auto simp: election_sleep_def Let_def split: if_splits)
qed

section \<open>Properties\<close>

text \<open>
  C14: \<open>RequestVote\<close> always answers. It grants the vote exactly when the
  candidate's term is not older, its log is at least as up to date and the node has not voted for another
  candidate in that term; then the vote is recorded. The answer carries the node's term, the log is
  untouched, and the new term and vote are on the disk before the answer leaves.
\<close>

theorem RequestVote_contract:
  assumes "usable (m_persister r)"
  shows "\<exists>reply r'. RequestVote L now args r = Inr (reply, r') \<and>
    (vr_votegranted reply \<longleftrightarrow> m_currentTerm r \<le> va_term args \<and>
       UpToDate r (va_lastlogindex args) (va_lastlogterm args) \<and>
       (m_currentTerm r < va_term args \<or> m_votedFor r = -1 \<or> m_votedFor r = va_candidateid args)) \<and>
    (vr_votegranted reply \<longrightarrow> m_votedFor r' = va_candidateid args) \<and>
    m_currentTerm r' = max (m_currentTerm r) (va_term args) \<and> vr_term reply = m_currentTerm r' \<and>
    m_logs r' = m_logs r \<and> persisted L r'"
proof -
  obtain reply r' where run: "RequestVote L now args r = Inr (reply, r')" using RequestVote_total by blast
  have "vr_votegranted reply \<longleftrightarrow> m_currentTerm r \<le> va_term args \<and>
       UpToDate r (va_lastlogindex args) (va_lastlogterm args) \<and>
       (m_currentTerm r < va_term args \<or> m_votedFor r = -1 \<or> m_votedFor r = va_candidateid args)"
    using run
    by (auto simp: RequestVote_def Let_def bindr_eq_Inr UpToDate_def getLastLogIndexAndTerm_def
        new_RequestVoteReply_def split: if_splits)
  moreover have "m_currentTerm r' = max (m_currentTerm r) (va_term args)"
    using run by (auto simp: RequestVote_def Let_def bindr_eq_Inr split: if_splits)
  ultimately show ?thesis
    using run RequestVote_granted(3)[OF run] RequestVote_reply_term[OF run] RequestVote_frame(4)[OF run]
      RequestVote_persisted[OF assms run] by blast
qed

theorem RequestVote_contract_witness:
  "\<exists>reply r'. RequestVote demo_lib 7 \<lparr>va_term = 3, va_candidateid = 2, va_lastlogindex = 3, va_lastlogterm = 2\<rparr>
     demo_node = Inr (reply, r') \<and> vr_votegranted reply \<and> m_votedFor r' = 2 \<and> m_currentTerm r' = 3"
  using RequestVote_contract[of demo_node demo_lib 7
      "\<lparr>va_term = 3, va_candidateid = 2, va_lastlogindex = 3, va_lastlogterm = 2\<rparr>"]
  by (auto simp: demo_defs UpToDate_def getLastLogIndexAndTerm_def)

text \<open>
  A node starts an election no earlier than its randomised time-out (less the
  millisecond below which it does not sleep) after the last reset of its timer, and not at all if the
  timer was reset while it slept.
\<close>

theorem election_timing:
  assumes "wakeTime + election_sleep timeout wakeTime r0 \<le> now"
    and "electionTimeOutTicker L wakeTime now r = (r', ts)" and "r' \<noteq> r"
    and "m_lastResetElectionTime r = m_lastResetElectionTime r0"
  shows "timeout * 1000000 - 1000000 \<le> now - m_lastResetElectionTime r \<and>
    m_lastResetElectionTime r \<le> wakeTime \<and>
    m_currentTerm r' = m_currentTerm r + 1 \<and> m_status r' = Candidate \<and> m_votedFor r' = m_me r"
proof -
  have "timeout * 1000000 - 1000000 \<le> now - m_lastResetElectionTime r"
    using election_not_early[OF assms(1), of "m_lastResetElectionTime r0"] assms(4) by simp
  moreover have le: "m_lastResetElectionTime r \<le> wakeTime"
    using assms(2,3) by (auto simp: electionTimeOutTicker_def split: if_splits)
  moreover have el: "doElection L now r = (r', ts)" using assms(2) le by (simp add: electionTimeOutTicker_def)
  then have "m_status r \<noteq> Leader" using assms(3) doElection_leader by fastforce
  ultimately show ?thesis using doElection_candidate[OF _ el] by blast
qed

theorem election_timing_witness:
  "300 * 1000000 - 1000000 \<le> (400 * 1000000 :: int) - m_lastResetElectionTime demo_follower"
proof -
  obtain r' ts where run: "electionTimeOutTicker demo_lib 5 400000000 demo_follower = (r', ts)"
    by (cases "electionTimeOutTicker demo_lib 5 400000000 demo_follower")
  have "doElection demo_lib 400000000 demo_follower = (r', ts)" "m_status demo_follower \<noteq> Leader"
    using run by (simp_all add: electionTimeOutTicker_def demo_defs)
  from doElection_candidate(1)[OF this(2,1)] have "r' \<noteq> demo_follower" by auto
  from election_timing[OF _ run this, of 300 demo_follower] show ?thesis
    by (simp add: election_sleep_def demo_defs)
qed

text \<open>
  With the time-outs the program draws, a node starts no election within 299 milliseconds of the last
  message that reset its timer, twelve heartbeat periods less a millisecond; and it never sleeps
  for more than half a second beyond that message.
\<close>

theorem election_spacing:
  assumes "dist_ok dist" and "timeout = getRandomizedElectionTimeout dist"
    and "wakeTime + election_sleep timeout wakeTime r0 \<le> now"
    and "electionTimeOutTicker L wakeTime now r = (r', ts)" and "r' \<noteq> r"
    and "m_lastResetElectionTime r = m_lastResetElectionTime r0"
  shows "12 * HeartBeatTimeout * 1000000 - 1000000 \<le> now - m_lastResetElectionTime r"
    and "m_lastResetElectionTime r0 \<le> wakeTime \<Longrightarrow> election_sleep timeout wakeTime r0 \<le> 500 * 1000000"
proof -
  have t: "300 \<le> timeout" "timeout \<le> 500"
    using assms(1,2) by (auto simp: dist_ok_def getRandomizedElectionTimeout_def minRandomizedElectionTime_def maxRandomizedElectionTime_def)
  show "12 * HeartBeatTimeout * 1000000 - 1000000 \<le> now - m_lastResetElectionTime r"
    using election_not_early[OF assms(3), of "m_lastResetElectionTime r0"] assms(6) t(1) by (simp add: HeartBeatTimeout_def)
  assume le: "m_lastResetElectionTime r0 \<le> wakeTime"
  have "election_sleep timeout wakeTime r0 \<le> max 0 (timeout * 1000000 + m_lastResetElectionTime r0 - wakeTime)"
    by (simp add: election_sleep_def Let_def whole_micros(2) le_max_iff_disj)
  then show "election_sleep timeout wakeTime r0 \<le> 500 * 1000000" using t(2) le by simp
qed

end
