(* ===== verification/RaftReplication.thy ===== *)
theory RaftReplication
  imports RaftElection
begin

text \<open>
  Log replication in raft.cpp: \<open>AppendEntries1\<close> on a follower, \<open>doHeartBeat\<close>,
  \<open>leaderHearBeatTicker\<close> and \<open>sendAppendEntries\<close> on the leader, \<open>Start\<close>, the commit
  scan \<open>leaderUpdateCommitIndex\<close> and the hand-over of committed entries
  (\<open>getApplyLogs\<close>, \<open>applierTicker\<close>).

  \<open>args_wf\<close> is what a follower needs of a request: consecutive indices after
  \<open>prevlogindex\<close>. \<open>merge_entries\<close> is the specification of the entry loop on the
  abstract log. \<open>sendAppendEntries_end\<close> is the part after the remote call.
\<close>

section \<open>The follower\<close>

text \<open>The body of the loop over the received entries.\<close>

definition ae_entry :: "Raft \<Rightarrow> LogEntry \<Rightarrow> Raft res" where
  "ae_entry r log =
     (if logindex log > getLastLogIndex r then Inr (r\<lparr>m_logs := m_logs r @ [log]\<rparr>)
      else
        bindr (log_at r (logindex log)) (\<lambda>e.
        bindr (myAssert (\<not> (logterm e = logterm log \<and> command e \<noteq> command log))) (\<lambda>_.
        if logterm e \<noteq> logterm log then
          bindr (getSlicesIndexFromLogIndex r (logindex log)) (\<lambda>k.
          bindr (vec_set (m_logs r) k log) (\<lambda>logs. Inr (r\<lparr>m_logs := logs\<rparr>)))
        else Inr r)))"

fun ae_entries :: "Raft \<Rightarrow> LogEntry list \<Rightarrow> Raft res" where
  "ae_entries r [] = Inr r"
| "ae_entries r (e # es) = bindr (ae_entry r e) (\<lambda>r'. ae_entries r' es)"

text \<open>The loop that looks for the first index of the conflicting term.\<close>

function ae_backoff :: "Raft \<Rightarrow> int \<Rightarrow> int \<Rightarrow> int res" where
  "ae_backoff r prev index =
     (if index \<ge> m_lastSnapshotIncludeIndex r then
        bindr (getLogTermFromLogIndex r index) (\<lambda>t.
        bindr (getLogTermFromLogIndex r prev) (\<lambda>tp.
        if t \<noteq> tp then Inr (index + 1) else ae_backoff r prev (index - 1)))
      else Inr prev)"
  by pat_completeness auto
termination
  by (relation "measure (\<lambda>(r, prev, index). nat (index - m_lastSnapshotIncludeIndex r + 1))") auto

definition AppendEntries1 ::
  "lib \<Rightarrow> int \<Rightarrow> AppendEntriesArgs \<Rightarrow> Raft \<Rightarrow> (AppendEntriesReply \<times> Raft) res" where
  "AppendEntries1 L now args r =
     (let reply = new_AppendEntriesReply\<lparr>ar_appstate := AppNormal\<rparr> in
      if aa_term args < m_currentTerm r then
        Inr (reply\<lparr>ar_success := False, ar_term := m_currentTerm r, ar_updatenextindex := -100\<rparr>, r)
      else
        let r1 = (if aa_term args > m_currentTerm r
                  then r\<lparr>m_status := Follower, m_currentTerm := aa_term args, m_votedFor := -1\<rparr>
                  else r) in
        bindr (myAssert (aa_term args = m_currentTerm r1)) (\<lambda>_.
        let r2 = r1\<lparr>m_status := Follower, m_lastResetElectionTime := now\<rparr> in
        if aa_prevlogindex args > getLastLogIndex r2 then
          Inr (reply\<lparr>ar_success := False, ar_term := m_currentTerm r2,
                     ar_updatenextindex := getLastLogIndex r2 + 1\<rparr>, persist L r2)
        else
          let reply1 = (if aa_prevlogindex args < m_lastSnapshotIncludeIndex r2
                        then reply\<lparr>ar_success := False, ar_term := m_currentTerm r2,
                                   ar_updatenextindex := m_lastSnapshotIncludeIndex r2 + 1\<rparr>
                        else reply) in
          bindr (matchLog r2 (aa_prevlogindex args) (aa_prevlogterm args)) (\<lambda>m.
          if m then
            bindr (ae_entries r2 (aa_entries args)) (\<lambda>r3.
            bindr (myAssert (getLastLogIndex r3 \<ge> aa_prevlogindex args + int (length (aa_entries args)))) (\<lambda>_.
            let r4 = (if aa_leadercommit args > m_commitIndex r3
                      then r3\<lparr>m_commitIndex := min (aa_leadercommit args) (getLastLogIndex r3)\<rparr>
                      else r3) in
            bindr (myAssert (getLastLogIndex r4 \<ge> m_commitIndex r4)) (\<lambda>_.
            Inr (reply1\<lparr>ar_success := True, ar_term := m_currentTerm r4\<rparr>, persist L r4))))
          else
            bindr (ae_backoff r2 (aa_prevlogindex args) (aa_prevlogindex args)) (\<lambda>u.
            Inr (reply1\<lparr>ar_updatenextindex := u, ar_success := False, ar_term := m_currentTerm r2\<rparr>,
                 persist L r2)))))"

section \<open>The leader\<close>

definition log_suffix :: "Raft \<Rightarrow> int \<Rightarrow> LogEntry list res" where
  "log_suffix r preLogIndex =
     (if preLogIndex \<noteq> m_lastSnapshotIncludeIndex r
      then bindr (getSlicesIndexFromLogIndex r preLogIndex) (\<lambda>k. Inr (drop (nat (k + 1)) (m_logs r)))
      else Inr (m_logs r))"

text \<open>The body of the loop over the peers.\<close>

definition hb_peer :: "Raft \<Rightarrow> nat \<Rightarrow> nat \<Rightarrow> thread res" where
  "hb_peer r appendNums i =
     bindr (vec_at (m_nextIndex r) (int i)) (\<lambda>next.
     bindr (myAssert (next \<ge> 1)) (\<lambda>_.
     if next \<le> m_lastSnapshotIncludeIndex r then Inr (LeaderSendSnapShot (int i))
     else
       bindr (getPrevLogInfo r (int i)) (\<lambda>(preLogIndex, PrevLogTerm).
       bindr (log_suffix r preLogIndex) (\<lambda>entries.
       bindr (myAssert (preLogIndex + int (length entries) = getLastLogIndex r)) (\<lambda>_.
       Inr (SendAppendEntries (int i)
         \<lparr>aa_term = m_currentTerm r, aa_leaderid = m_me r, aa_prevlogindex = preLogIndex,
          aa_prevlogterm = PrevLogTerm, aa_entries = entries, aa_leadercommit = m_commitIndex r\<rparr>
         appendNums))))))"

fun hb_peers :: "Raft \<Rightarrow> nat \<Rightarrow> nat list \<Rightarrow> thread list res" where
  "hb_peers r appendNums [] = Inr []"
| "hb_peers r appendNums (i # is) =
     (if int i = m_me r then hb_peers r appendNums is
      else bindr (hb_peer r appendNums i) (\<lambda>t.
           bindr (hb_peers r appendNums is) (\<lambda>ts. Inr (t # ts))))"

definition doHeartBeat :: "int \<Rightarrow> Raft \<Rightarrow> (Raft \<times> thread list) res" where
  "doHeartBeat now r =
     (if m_status r = Leader then
        let appendNums = length (cells r); r1 = r\<lparr>cells := cells r @ [1]\<rparr> in
        bindr (hb_peers r1 appendNums [0..<length (m_peers r1)]) (\<lambda>ts.
        Inr (r1\<lparr>m_lastResetHearBeatTime := now\<rparr>, ts))
      else Inr (r, []))"

text \<open>
  One round of \<open>leaderHearBeatTicker\<close> of a leader: it sleeps up to the next heartbeat and
  then, in the state it finds, sends heartbeats unless they were just sent.
\<close>

definition heartbeat_sleep :: "int \<Rightarrow> Raft \<Rightarrow> int" where
  "heartbeat_sleep wakeTime r =
     (let suitableSleepTime = HeartBeatTimeout * 1000000 + m_lastResetHearBeatTime r - wakeTime
      in if suitableSleepTime > 1000000 then suitableSleepTime div 1000 * 1000 else 0)"

definition leaderHearBeatTicker :: "int \<Rightarrow> int \<Rightarrow> Raft \<Rightarrow> (Raft \<times> thread list) res" where
  "leaderHearBeatTicker wakeTime now r =
     (if m_lastResetHearBeatTime r - wakeTime > 0 then Inr (r, []) else doHeartBeat now r)"

text \<open>The end of \<open>sendAppendEntries\<close>: enough followers hold the entries of this round.\<close>

definition count_ack :: "AppendEntriesArgs \<Rightarrow> nat \<Rightarrow> int \<Rightarrow> Raft \<Rightarrow> Raft res" where
  "count_ack args appendNums v r =
     (if v \<ge> 1 + int (length (m_peers r) div 2) then
        let r1 = r\<lparr>cells := (cells r)[appendNums := 0]\<rparr>;
            r2 = (if aa_entries args \<noteq> [] \<and> logterm (last (aa_entries args)) = m_currentTerm r1
                  then r1\<lparr>m_commitIndex := max (m_commitIndex r1)
                            (aa_prevlogindex args + int (length (aa_entries args)))\<rparr>
                  else r1) in
        bindr (myAssert (m_commitIndex r2 \<le> getLastLogIndex r)) (\<lambda>_. Inr r2)
      else Inr r)"

definition sendAppendEntries_end ::
  "int \<Rightarrow> AppendEntriesArgs \<Rightarrow> bool \<Rightarrow> AppendEntriesReply \<Rightarrow> nat \<Rightarrow> Raft \<Rightarrow> Raft res" where
  "sendAppendEntries_end server args ok reply appendNums r =
     (if \<not> ok then Inr r
      else if ar_appstate reply = Disconnected then Inr r
      else if ar_term reply > m_currentTerm r then
        Inr (r\<lparr>m_status := Follower, m_currentTerm := ar_term reply, m_votedFor := -1\<rparr>)
      else if ar_term reply < m_currentTerm r then Inr r
      else if m_status r \<noteq> Leader then Inr r
      else
        bindr (myAssert (ar_term reply = m_currentTerm r)) (\<lambda>_.
        if \<not> ar_success reply then
          if ar_updatenextindex reply \<noteq> -100 then
            bindr (vec_set (m_nextIndex r) server (ar_updatenextindex reply)) (\<lambda>ni.
            Inr (r\<lparr>m_nextIndex := ni\<rparr>))
          else Inr r
        else
          bindr (vec_at (cells r) (int appendNums)) (\<lambda>v.
          let r1 = r\<lparr>cells := (cells r)[appendNums := v + 1]\<rparr>;
              n = aa_prevlogindex args + int (length (aa_entries args)) in
          bindr (vec_at (m_matchIndex r1) server) (\<lambda>mi.
          bindr (vec_set (m_matchIndex r1) server (max mi n)) (\<lambda>ms.
          bindr (vec_set (m_nextIndex r1) server (max mi n + 1)) (\<lambda>ni.
          let r2 = r1\<lparr>m_matchIndex := ms, m_nextIndex := ni\<rparr> in
          bindr (myAssert (max mi n + 1 \<le> getLastLogIndex r2 + 1)) (\<lambda>_.
          count_ack args appendNums (v + 1) r2)))))))"

definition Start :: "lib \<Rightarrow> Op \<Rightarrow> Raft \<Rightarrow> int \<times> int \<times> bool \<times> Raft" where
  "Start L op r =
     (if m_status r \<noteq> Leader then (-1, -1, False, r)
      else
        let newLogEntry = \<lparr>command = asString L op, logterm = m_currentTerm r,
                           logindex = getNewCommandIndex r\<rparr>;
            r1 = persist L (r\<lparr>m_logs := m_logs r @ [newLogEntry]\<rparr>)
        in (logindex newLogEntry, logterm newLogEntry, True, r1))"

text \<open>The number of peers that hold index \<open>index\<close>, the node itself included.\<close>

definition match_count :: "Raft \<Rightarrow> int \<Rightarrow> nat" where
  "match_count r index =
     length (filter (\<lambda>i. int i = m_me r \<or> m_matchIndex r ! i \<ge> index) [0..<length (m_peers r)])"

function luci_loop :: "Raft \<Rightarrow> int \<Rightarrow> Raft res" where
  "luci_loop r index =
     (if index \<ge> m_lastSnapshotIncludeIndex r + 1 then
        if list_ex (\<lambda>i. int i \<noteq> m_me r \<and> length (m_matchIndex r) \<le> i) [0..<length (m_peers r)]
        then Inl OutOfRange
        else if match_count r index \<ge> length (m_peers r) div 2 + 1 then
          bindr (getLogTermFromLogIndex r index) (\<lambda>t.
          if t = m_currentTerm r then Inr (r\<lparr>m_commitIndex := index\<rparr>)
          else luci_loop r (index - 1))
        else luci_loop r (index - 1)
      else Inr r)"
  by pat_completeness auto
termination
  by (relation "measure (\<lambda>(r, index). nat (index - m_lastSnapshotIncludeIndex r))") auto

definition leaderUpdateCommitIndex :: "Raft \<Rightarrow> Raft res" where
  "leaderUpdateCommitIndex r =
     (let r1 = r\<lparr>m_commitIndex := m_lastSnapshotIncludeIndex r\<rparr>
      in luci_loop r1 (getLastLogIndex r1))"

section \<open>Handing committed entries to the server\<close>

function getApplyLogs_loop :: "Raft \<Rightarrow> (ApplyMsg list \<times> Raft) res" where
  "getApplyLogs_loop r =
     (if m_lastApplied r < m_commitIndex r then
        let r1 = r\<lparr>m_lastApplied := m_lastApplied r + 1\<rparr> in
        bindr (log_at r1 (m_lastApplied r1)) (\<lambda>e.
        bindr (myAssert (logindex e = m_lastApplied r1)) (\<lambda>_.
        bindr (getApplyLogs_loop r1) (\<lambda>(applyMsgs, r2).
        Inr (new_ApplyMsg\<lparr>CommandValid := True, SnapshotValid := False, Command := command e,
                          CommandIndex := m_lastApplied r1\<rparr> # applyMsgs, r2))))
      else Inr ([], r))"
  by pat_completeness auto
termination
  by (relation "measure (\<lambda>r. nat (m_commitIndex r - m_lastApplied r))") auto

definition getApplyLogs :: "Raft \<Rightarrow> (ApplyMsg list \<times> Raft) res" where
  "getApplyLogs r =
     bindr (myAssert (m_commitIndex r \<le> getLastLogIndex r)) (\<lambda>_. getApplyLogs_loop r)"

text \<open>One round of \<open>applierTicker\<close>: collect under the mutex, then push every message.\<close>

definition applierTicker :: "Raft \<Rightarrow> Raft res" where
  "applierTicker r =
     bindr (getApplyLogs r) (\<lambda>(applyMsgs, r1).
     Inr (r1\<lparr>applyChan := push_all applyMsgs (applyChan r1)\<rparr>))"

section \<open>Specifications\<close>

definition args_wf :: "AppendEntriesArgs \<Rightarrow> bool" where
  "args_wf args \<longleftrightarrow> indexed_from (aa_prevlogindex args) (aa_entries args)"

text \<open>Two entries at the same index and of the same term carry the same command.\<close>

definition agrees :: "Raft \<Rightarrow> LogEntry list \<Rightarrow> bool" where
  "agrees r es \<longleftrightarrow>
     list_all (\<lambda>e. case entry_at r (logindex e) of
        None \<Rightarrow> True | Some e' \<Rightarrow> logterm e' = logterm e \<longrightarrow> command e' = command e) es"

definition merge_entries :: "(int \<Rightarrow> LogEntry option) \<Rightarrow> LogEntry list \<Rightarrow> int \<Rightarrow> LogEntry option" where
  "merge_entries f es = (\<lambda>i. case find (\<lambda>e. logindex e = i) es of Some e \<Rightarrow> Some e | None \<Rightarrow> f i)"

text \<open>Every slot of the leader's tables points into its log.\<close>

definition leader_tables :: "Raft \<Rightarrow> bool" where
  "leader_tables r \<longleftrightarrow>
     list_all (\<lambda>n. 1 \<le> n \<and> n \<le> getLastLogIndex r + 1) (m_nextIndex r) \<and>
     list_all (\<lambda>n. 0 \<le> n \<and> n \<le> getLastLogIndex r) (m_matchIndex r)"

text \<open>All positions from \<open>lo\<close> to \<open>hi\<close> have the term of position \<open>hi\<close>.\<close>

definition same_term_run :: "Raft \<Rightarrow> int \<Rightarrow> int \<Rightarrow> bool" where
  "same_term_run r lo hi \<longleftrightarrow> (\<forall>k. lo \<le> k \<and> k \<le> hi \<longrightarrow> term_at r k = term_at r hi)"

text \<open>The state in which the log is examined once the term of the request is accepted.\<close>

definition ae_enter :: "int \<Rightarrow> AppendEntriesArgs \<Rightarrow> Raft \<Rightarrow> Raft" where
  "ae_enter now args r =
     r\<lparr>m_status := Follower, m_currentTerm := aa_term args,
       m_votedFor := (if aa_term args > m_currentTerm r then -1 else m_votedFor r),
       m_lastResetElectionTime := now\<rparr>"

section \<open>Lemmas: the entry loop\<close>

declare ae_backoff.simps [simp del] luci_loop.simps [simp del] getApplyLogs_loop.simps [simp del]

definition same_log :: "Raft \<Rightarrow> Raft \<Rightarrow> bool" where
  "same_log r r' \<longleftrightarrow> m_logs r' = m_logs r \<and>
     m_lastSnapshotIncludeIndex r' = m_lastSnapshotIncludeIndex r \<and>
     m_lastSnapshotIncludeTerm r' = m_lastSnapshotIncludeTerm r"

lemma same_logD:
  assumes "same_log r r'"
  shows "getLastLogIndexAndTerm r' = getLastLogIndexAndTerm r" "getLastLogIndex r' = getLastLogIndex r"
    "entry_at r' = entry_at r" "term_at r' = term_at r" "log_at r' i = log_at r i"
    "getLogTermFromLogIndex r' i = getLogTermFromLogIndex r i"
  using assms
  by (auto simp: same_log_def last_log_defs entry_at_def term_at_def fun_eq_iff log_at_def
      getSlicesIndexFromLogIndex_def getLogTermFromLogIndex_def Let_def)

lemma m_logs_self [simp]: "r\<lparr>m_logs := m_logs r\<rparr> = r"
  by (cases r) simp

lemma entry_at_update:
  assumes "indexed_from (m_lastSnapshotIncludeIndex r) (m_logs r)"
    and "m_lastSnapshotIncludeIndex r < i" and "i \<le> getLastLogIndex r"
  shows "entry_at (r\<lparr>m_logs := (m_logs r)[nat (i - m_lastSnapshotIncludeIndex r - 1) := e]\<rparr>)
    = (entry_at r)(i := Some e)"
  using assms last_index_eq[OF assms(1)]
  by (auto simp: entry_at_def Let_def fun_eq_iff nth_list_update nat_eq_iff2)

lemma entry_at_snoc:
  assumes "indexed_from (m_lastSnapshotIncludeIndex r) (m_logs r)"
  shows "entry_at (r\<lparr>m_logs := m_logs r @ [e]\<rparr>) = (entry_at r)(getLastLogIndex r + 1 := Some e)"
  using last_index_eq[OF assms]
  by (auto simp: entry_at_def Let_def fun_eq_iff nth_append)

text \<open>One entry: whatever branch is taken, the abstract log is updated at one place.\<close>

lemma ae_entry_spec:
  assumes idx: "indexed_from (m_lastSnapshotIncludeIndex r) (m_logs r)"
    and range: "m_lastSnapshotIncludeIndex r < logindex e" "logindex e \<le> getLastLogIndex r + 1"
    and agr: "agrees r [e]"
  shows "\<exists>logs. ae_entry r e = Inr (r\<lparr>m_logs := logs\<rparr>) \<and>
    indexed_from (m_lastSnapshotIncludeIndex r) logs \<and>
    int (length logs) = max (int (length (m_logs r))) (logindex e - m_lastSnapshotIncludeIndex r) \<and>
    entry_at (r\<lparr>m_logs := logs\<rparr>) = (entry_at r)(logindex e := Some e)"
proof (cases "logindex e > getLastLogIndex r")
  case True
  then have "logindex e = getLastLogIndex r + 1" using range by simp
  then show ?thesis
    using True idx last_index_eq[OF idx] entry_at_snoc[OF idx, of e]
    by (auto simp: ae_entry_def indexed_from_append intro!: exI[of _ "m_logs r @ [e]"])
next
  case False
  then have le: "logindex e \<le> getLastLogIndex r" by simp
  define k where "k = nat (logindex e - m_lastSnapshotIncludeIndex r - 1)"
  have k: "k < length (m_logs r)" "logindex e = m_lastSnapshotIncludeIndex r + 1 + int k"
    using le range last_index_eq[OF idx] by (auto simp: k_def)
  then have kk: "logindex e - m_lastSnapshotIncludeIndex r - 1 = int k" by simp
  obtain e' where e': "log_at r (logindex e) = Inr e'" "entry_at r (logindex e) = Some e'"
    "logindex e' = logindex e"
    using log_at_entry[OF idx range(1) le] by blast
  show ?thesis
  proof (cases "logterm e' = logterm e")
    case True
    then have "e' = e" using agr e' by (simp add: agrees_def)
    then have upd: "(entry_at r)(logindex e := Some e) = entry_at r" using e' by auto
    have "ae_entry r e = Inr r" using le e' \<open>e' = e\<close> by (simp add: ae_entry_def)
    then show ?thesis
      using idx k upd by (intro exI[of _ "m_logs r"]) simp
  next
    case differs: False
    then have "ae_entry r e = Inr (r\<lparr>m_logs := (m_logs r)[k := e]\<rparr>)"
      using le e' k(1) kk range(1) by (simp add: ae_entry_def slices_in_range)
    then show ?thesis
      using entry_at_update[OF idx range(1) le, of e] indexed_from_update[OF idx k] k(1) kk
      by (intro exI[of _ "(m_logs r)[k := e]"]) simp
  qed
qed

lemma indexed_from_find:
  "indexed_from p es \<Longrightarrow> i \<le> p \<Longrightarrow> find (\<lambda>e. logindex e = i) es = None"
  by (induction es arbitrary: p) auto

lemma merge_entries_Cons:
  "indexed_from p (e # es) \<Longrightarrow>
   merge_entries (f(logindex e := Some e)) es = merge_entries f (e # es)"
  by (auto simp: merge_entries_def fun_eq_iff indexed_from_find split: option.splits)

lemma agrees_tail:
  assumes "indexed_from p (e # es)" and "agrees r (e # es)"
    and "entry_at r' = (entry_at r)(logindex e := Some e)"
  shows "agrees r' es"
proof -
  have "logindex x \<noteq> logindex e" if "x \<in> set es" for x
  proof -
    have "indexed_from (p + 1) es" "logindex e = p + 1" using assms(1) by auto
    with that show ?thesis by (auto simp: indexed_from_iff in_set_conv_nth)
  qed
  then show ?thesis using assms(2,3) by (auto simp: agrees_def list_all_iff)
qed

lemma ae_entries_spec:
  assumes "indexed_from (m_lastSnapshotIncludeIndex r) (m_logs r)"
    and "indexed_from p es" and "m_lastSnapshotIncludeIndex r \<le> p" and "p \<le> getLastLogIndex r"
    and "agrees r es"
  shows "\<exists>logs. ae_entries r es = Inr (r\<lparr>m_logs := logs\<rparr>) \<and>
    indexed_from (m_lastSnapshotIncludeIndex r) logs \<and>
    int (length logs) = max (int (length (m_logs r))) (p + int (length es) - m_lastSnapshotIncludeIndex r) \<and>
    entry_at (r\<lparr>m_logs := logs\<rparr>) = merge_entries (entry_at r) es"
  using assms
proof (induction es arbitrary: r p)
  case Nil
  then show ?case
    by (intro exI[of _ "m_logs r"]) (auto simp: merge_entries_def last_index_eq)
next
  case (Cons e es)
  have ie: "logindex e = p + 1" using Cons.prems(2) by simp
  have "agrees r [e]" using Cons.prems(5) by (simp add: agrees_def)
  with ae_entry_spec[OF Cons.prems(1), of e] ie Cons.prems(3,4) obtain logs
    where step: "ae_entry r e = Inr (r\<lparr>m_logs := logs\<rparr>)"
      and ix: "indexed_from (m_lastSnapshotIncludeIndex r) logs"
      and ln: "int (length logs) = max (int (length (m_logs r))) (p + 1 - m_lastSnapshotIncludeIndex r)"
      and en: "entry_at (r\<lparr>m_logs := logs\<rparr>) = (entry_at r)(logindex e := Some e)"
    by auto
  define r1 where "r1 = r\<lparr>m_logs := logs\<rparr>"
  have "agrees r1 es" using agrees_tail[OF Cons.prems(2,5) en] by (simp add: r1_def)
  moreover have "p + 1 \<le> getLastLogIndex r1"
    using ix ln by (subst last_index_eq) (auto simp: r1_def)
  ultimately obtain logs' where "ae_entries r1 es = Inr (r1\<lparr>m_logs := logs'\<rparr>)"
    "indexed_from (m_lastSnapshotIncludeIndex r1) logs'"
    "int (length logs') = max (int (length (m_logs r1))) (p + 1 + int (length es) - m_lastSnapshotIncludeIndex r1)"
    "entry_at (r1\<lparr>m_logs := logs'\<rparr>) = merge_entries (entry_at r1) es"
    using Cons.IH[of r1 "p + 1"] Cons.prems(2,3) ix by (auto simp: r1_def)
  then show ?case
    using step ln en merge_entries_Cons[OF Cons.prems(2), of "entry_at r"]
    by (intro exI[of _ logs']) (auto simp: r1_def)
qed

text \<open>An entry of the request is in the merged log; the rest of the log is as before.\<close>

lemma merge_entries_nth:
  assumes "indexed_from p es" and "p < i" and "i \<le> p + int (length es)"
  shows "merge_entries f es i = Some (es ! nat (i - p - 1))"
  using assms
proof (induction es arbitrary: p)
  case (Cons e es)
  show ?case
  proof (cases "i = p + 1")
    case True
    then show ?thesis using Cons.prems by (simp add: merge_entries_def)
  next
    case False
    then have "nat (i - p - 1) = Suc (nat (i - (p + 1) - 1))" using Cons.prems by simp
    then show ?thesis using False Cons.IH[of "p + 1"] Cons.prems by (simp add: merge_entries_def)
  qed
qed simp

lemma merge_entries_other:
  assumes "indexed_from p es" and "i \<le> p \<or> p + int (length es) < i"
  shows "merge_entries f es i = f i"
proof -
  have "find (\<lambda>e. logindex e = i) es = None"
    using assms by (force simp: find_None_iff indexed_from_iff in_set_conv_nth)
  then show ?thesis by (simp add: merge_entries_def)
qed

section \<open>Lemmas: AppendEntries1\<close>

lemma ae_enter_fields [simp]:
  "m_peers (ae_enter now args r) = m_peers r" "m_me (ae_enter now args r) = m_me r"
  "m_currentTerm (ae_enter now args r) = aa_term args" "m_status (ae_enter now args r) = Follower"
  "m_logs (ae_enter now args r) = m_logs r" "m_commitIndex (ae_enter now args r) = m_commitIndex r"
  "m_lastApplied (ae_enter now args r) = m_lastApplied r" "cells (ae_enter now args r) = cells r"
  "m_nextIndex (ae_enter now args r) = m_nextIndex r" "m_matchIndex (ae_enter now args r) = m_matchIndex r"
  "m_lastSnapshotIncludeIndex (ae_enter now args r) = m_lastSnapshotIncludeIndex r"
  "m_lastSnapshotIncludeTerm (ae_enter now args r) = m_lastSnapshotIncludeTerm r"
  "m_persister (ae_enter now args r) = m_persister r"
  by (simp_all add: ae_enter_def)

lemma same_log_ae_enter: "same_log r (ae_enter now args r)"
  by (simp add: same_log_def)

lemmas ae_enter_log [simp] = same_logD[OF same_log_ae_enter]

lemma raft_wf_ae_enter [simp]: "raft_wf (ae_enter now args r) = raft_wf r"
  by (simp add: raft_wf_def)

text \<open>The handler once the term is accepted, over the state \<open>ae_enter\<close>.\<close>

lemma AppendEntries1_stale:
  "aa_term args < m_currentTerm r \<Longrightarrow>
   AppendEntries1 L now args r =
     Inr (new_AppendEntriesReply\<lparr>ar_appstate := AppNormal, ar_success := False,
            ar_term := m_currentTerm r, ar_updatenextindex := -100\<rparr>, r)"
  by (simp add: AppendEntries1_def)

lemma ae_enter_eq:
  assumes "m_currentTerm r \<le> aa_term args"
  shows "(if aa_term args > m_currentTerm r
      then r\<lparr>m_status := Follower, m_currentTerm := aa_term args, m_votedFor := -1\<rparr> else r)
    \<lparr>m_status := Follower, m_lastResetElectionTime := now\<rparr> = ae_enter now args r"
  using assms by (cases r) (auto simp: ae_enter_def)

lemma AppendEntries1_accepted:
  assumes "m_currentTerm r \<le> aa_term args"
  shows "AppendEntries1 L now args r =
     (let reply = new_AppendEntriesReply\<lparr>ar_appstate := AppNormal\<rparr>; r2 = ae_enter now args r in
        if aa_prevlogindex args > getLastLogIndex r then
          Inr (reply\<lparr>ar_success := False, ar_term := aa_term args,
                     ar_updatenextindex := getLastLogIndex r + 1\<rparr>, persist L r2)
        else
          let reply1 = (if aa_prevlogindex args < m_lastSnapshotIncludeIndex r2
                        then reply\<lparr>ar_success := False, ar_term := m_currentTerm r2,
                                   ar_updatenextindex := m_lastSnapshotIncludeIndex r2 + 1\<rparr>
                        else reply) in
          bindr (matchLog r2 (aa_prevlogindex args) (aa_prevlogterm args)) (\<lambda>m.
          if m then
            bindr (ae_entries r2 (aa_entries args)) (\<lambda>r3.
            bindr (myAssert (getLastLogIndex r3 \<ge> aa_prevlogindex args + int (length (aa_entries args)))) (\<lambda>_.
            let r4 = (if aa_leadercommit args > m_commitIndex r3
                      then r3\<lparr>m_commitIndex := min (aa_leadercommit args) (getLastLogIndex r3)\<rparr>
                      else r3) in
            bindr (myAssert (getLastLogIndex r4 \<ge> m_commitIndex r4)) (\<lambda>_.
            Inr (reply1\<lparr>ar_success := True, ar_term := m_currentTerm r4\<rparr>, persist L r4))))
          else
            bindr (ae_backoff r2 (aa_prevlogindex args) (aa_prevlogindex args)) (\<lambda>u.
            Inr (reply1\<lparr>ar_updatenextindex := u, ar_success := False, ar_term := m_currentTerm r2\<rparr>,
                 persist L r2))))"
proof -
  let ?r1 = "if aa_term args > m_currentTerm r
      then r\<lparr>m_status := Follower, m_currentTerm := aa_term args, m_votedFor := -1\<rparr> else r"
  have nless: "\<not> aa_term args < m_currentTerm r" using assms by simp
  have ok: "aa_term args = m_currentTerm ?r1" using assms by auto
  show ?thesis
    unfolding AppendEntries1_def Let_def
    by (subst if_not_P[OF nless], subst bindr_myAssert[OF ok], subst ae_enter_eq[OF assms])+
      (simp only: ae_enter_eq[OF assms] ae_enter_fields ae_enter_log)
qed

text \<open>A request that starts before the snapshot of the follower stops the process.\<close>

lemma AppendEntries1_before_snapshot:
  assumes "raft_wf r" and "m_currentTerm r \<le> aa_term args"
    and "aa_prevlogindex args < m_lastSnapshotIncludeIndex r"
  shows "AppendEntries1 L now args r = Inl AssertFail"
proof -
  have "\<not> aa_prevlogindex args > getLastLogIndex r"
    using assms(1,3) by (simp add: raft_wf_last)
  then show ?thesis
    using assms(3) by (simp add: AppendEntries1_accepted[OF assms(2)] matchLog_def Let_def)
qed

lemma AppendEntries1_too_far:
  assumes "m_currentTerm r \<le> aa_term args" and "getLastLogIndex r < aa_prevlogindex args"
  shows "AppendEntries1 L now args r =
    Inr (new_AppendEntriesReply\<lparr>ar_appstate := AppNormal, ar_success := False,
           ar_term := aa_term args, ar_updatenextindex := getLastLogIndex r + 1\<rparr>,
         persist L (ae_enter now args r))"
  using assms(2) by (simp add: AppendEntries1_accepted[OF assms(1)] Let_def)

text \<open>The matching case: the entries are merged and the commit index follows the leader's.\<close>

lemma AppendEntries1_match:
  assumes wf: "raft_wf r" and acc: "m_currentTerm r \<le> aa_term args"
    and args: "args_wf args" and prev: "m_lastSnapshotIncludeIndex r \<le> aa_prevlogindex args"
    and m: "term_at r (aa_prevlogindex args) = Some (aa_prevlogterm args)"
    and agr: "agrees r (aa_entries args)"
  shows "\<exists>r'. AppendEntries1 L now args r =
      Inr (new_AppendEntriesReply\<lparr>ar_appstate := AppNormal, ar_success := True,
             ar_term := aa_term args\<rparr>, persist L r') \<and>
    raft_wf r' \<and> entry_at r' = merge_entries (entry_at r) (aa_entries args) \<and>
    getLastLogIndex r' = max (getLastLogIndex r) (aa_prevlogindex args + int (length (aa_entries args))) \<and>
    m_commitIndex r' = max (m_commitIndex r) (min (aa_leadercommit args) (getLastLogIndex r')) \<and>
    r' = (ae_enter now args r)\<lparr>m_logs := m_logs r', m_commitIndex := m_commitIndex r'\<rparr>"
proof -
  let ?r2 = "ae_enter now args r"
  have idx: "indexed_from (m_lastSnapshotIncludeIndex r) (m_logs r)"
    using wf by (simp add: raft_wf_def)
  have le: "aa_prevlogindex args \<le> getLastLogIndex r"
  proof (rule ccontr)
    assume "\<not> ?thesis"
    then have "entry_at r (aa_prevlogindex args) = None" "aa_prevlogindex args \<noteq> m_lastSnapshotIncludeIndex r"
      using entry_at_beyond[OF idx] last_index_eq[OF idx] by auto
    then show False using m by (simp add: term_at_def)
  qed
  have ml: "matchLog ?r2 (aa_prevlogindex args) (aa_prevlogterm args) = Inr True"
    using matchLog_term_at[of ?r2 "aa_prevlogindex args"] idx prev le m by simp
  obtain logs where loop: "ae_entries ?r2 (aa_entries args) = Inr (?r2\<lparr>m_logs := logs\<rparr>)"
    and ix: "indexed_from (m_lastSnapshotIncludeIndex r) logs"
    and ln: "int (length logs) = max (int (length (m_logs r)))
        (aa_prevlogindex args + int (length (aa_entries args)) - m_lastSnapshotIncludeIndex r)"
    and en: "entry_at (?r2\<lparr>m_logs := logs\<rparr>) = merge_entries (entry_at r) (aa_entries args)"
    using ae_entries_spec[of ?r2 "aa_prevlogindex args" "aa_entries args"] idx args prev le agr
    by (auto simp: args_wf_def agrees_def)
  let ?r3 = "?r2\<lparr>m_logs := logs\<rparr>"
  have last3: "getLastLogIndex ?r3 = m_lastSnapshotIncludeIndex r + int (length logs)"
    using last_index_eq[of ?r3] ix by simp
  have last3': "getLastLogIndex ?r3 =
      max (getLastLogIndex r) (aa_prevlogindex args + int (length (aa_entries args)))"
    using last3 ln last_index_eq[OF idx] by simp
  define c where "c = (if aa_leadercommit args > m_commitIndex r
    then min (aa_leadercommit args) (getLastLogIndex ?r3) else m_commitIndex r)"
  let ?r4 = "?r3\<lparr>m_commitIndex := c\<rparr>"
  have commit_le: "m_commitIndex r \<le> getLastLogIndex ?r3"
    using wf ln last3 by (auto simp: raft_wf_def max_def)
  have c: "c = max (m_commitIndex r) (min (aa_leadercommit args) (getLastLogIndex ?r3))"
    using commit_le by (auto simp: c_def)
  have r4: "(if aa_leadercommit args > m_commitIndex ?r3
       then ?r3\<lparr>m_commitIndex := min (aa_leadercommit args) (getLastLogIndex ?r3)\<rparr> else ?r3) = ?r4"
    by (cases r) (simp add: c_def ae_enter_def)
  have last4: "getLastLogIndex ?r4 = getLastLogIndex ?r3"
    by (rule same_logD) (simp add: same_log_def)
  have wf4: "raft_wf ?r4"
    using wf ix c commit_le last3 by (auto simp: raft_wf_def max_def)
  have en4: "entry_at ?r4 = merge_entries (entry_at r) (aa_entries args)"
    using same_logD(3)[of ?r3 ?r4] en by (simp add: same_log_def)
  have np: "\<not> aa_prevlogindex args > getLastLogIndex r"
    and nb: "\<not> aa_prevlogindex args < m_lastSnapshotIncludeIndex ?r2"
    using le prev by simp_all
  have a1: "getLastLogIndex ?r3 \<ge> aa_prevlogindex args + int (length (aa_entries args))"
    and a2: "getLastLogIndex ?r4 \<ge> m_commitIndex ?r4"
    using last3' last4 c commit_le by auto
  have "AppendEntries1 L now args r =
      Inr (new_AppendEntriesReply\<lparr>ar_appstate := AppNormal, ar_success := True,
             ar_term := aa_term args\<rparr>, persist L ?r4)"
    unfolding AppendEntries1_accepted[OF acc] Let_def if_not_P[OF np] if_not_P[OF nb] ml bindr_Inr
      if_True loop bindr_myAssert[OF a1] r4 bindr_myAssert[OF a2]
    by simp
  then show ?thesis
    using wf4 en4 last3' last4 c by (intro exI[of _ ?r4]) simp
qed

text \<open>The back-off: the first index of the conflicting term, or the index before the request.\<close>

lemma same_term_run_extend:
  "same_term_run r (k + 1) hi \<Longrightarrow> term_at r k = term_at r hi \<Longrightarrow> same_term_run r k hi"
  unfolding same_term_run_def by (metis order_le_less zle_add1_eq_le zless_imp_add1_zle)

lemma ae_backoff_spec:
  assumes idx: "indexed_from (m_lastSnapshotIncludeIndex r) (m_logs r)"
    and prev: "m_lastSnapshotIncludeIndex r \<le> prev" "prev \<le> getLastLogIndex r"
  shows "index \<le> prev \<Longrightarrow> same_term_run r (index + 1) prev \<Longrightarrow>
    m_lastSnapshotIncludeIndex r - 1 \<le> index \<Longrightarrow>
    \<exists>u. ae_backoff r prev index = Inr u \<and> m_lastSnapshotIncludeIndex r \<le> u \<and> u \<le> prev \<and>
        same_term_run r u prev \<and> (u = prev \<or> term_at r (u - 1) \<noteq> term_at r prev)"
proof (induction "nat (index - m_lastSnapshotIncludeIndex r + 1)" arbitrary: index)
  case 0
  then have lt: "index < m_lastSnapshotIncludeIndex r" by simp
  then have "ae_backoff r prev index = Inr prev" by (simp add: ae_backoff.simps[of r prev index])
  moreover have "same_term_run r prev prev" unfolding same_term_run_def by (metis order_antisym)
  ultimately show ?case using prev(1) by simp
next
  case (Suc n)
  then have ge: "m_lastSnapshotIncludeIndex r \<le> index" by simp
  obtain t where t: "getLogTermFromLogIndex r index = Inr t" "term_at r index = Some t"
    using getLogTerm_term_at[OF idx ge] Suc.prems(1) prev(2) by auto
  obtain tp where tp: "getLogTermFromLogIndex r prev = Inr tp" "term_at r prev = Some tp"
    using getLogTerm_term_at[OF idx prev] by auto
  show ?case
  proof (cases "t = tp")
    case True
    have step: "ae_backoff r prev index = ae_backoff r prev (index - 1)"
      using ge t tp True by (simp add: ae_backoff.simps[of r prev index])
    have "same_term_run r index prev"
      using same_term_run_extend[OF Suc.prems(2)] t tp True by simp
    then show ?thesis
      using Suc.hyps(1)[of "index - 1"] Suc.hyps(2) Suc.prems(1) ge step by simp
  next
    case False
    then have "ae_backoff r prev index = Inr (index + 1)"
      using ge t tp by (simp add: ae_backoff.simps[of r prev index])
    moreover have "index \<noteq> prev" using False t tp by auto
    ultimately show ?thesis using Suc.prems ge False t tp by simp
  qed
qed

lemma ae_backoff_cong:
  "same_log r r' \<Longrightarrow> ae_backoff r' prev index = ae_backoff r prev index"
proof (induction r prev index rule: ae_backoff.induct)
  case (1 r prev index)
  have snap: "m_lastSnapshotIncludeIndex r' = m_lastSnapshotIncludeIndex r"
    using "1.prems" by (simp add: same_log_def)
  show ?case
  proof (cases "m_lastSnapshotIncludeIndex r \<le> index")
    case True
    have "ae_backoff r' prev (index - 1) = ae_backoff r prev (index - 1)"
      using "1.IH"[OF True, of 0 0] "1.prems" by simp
    then show ?thesis
      by (simp only: ae_backoff.simps[of r prev index] ae_backoff.simps[of r' prev index]
          snap same_logD[OF "1.prems"])
  next
    case False
    then show ?thesis
      using snap by (simp add: ae_backoff.simps[of r prev index] ae_backoff.simps[of r' prev index])
  qed
qed

lemma AppendEntries1_mismatch:
  assumes wf: "raft_wf r" and acc: "m_currentTerm r \<le> aa_term args"
    and prev: "m_lastSnapshotIncludeIndex r \<le> aa_prevlogindex args"
      "aa_prevlogindex args \<le> getLastLogIndex r"
    and m: "term_at r (aa_prevlogindex args) \<noteq> Some (aa_prevlogterm args)"
  shows "\<exists>u. AppendEntries1 L now args r =
      Inr (new_AppendEntriesReply\<lparr>ar_appstate := AppNormal, ar_updatenextindex := u,
             ar_success := False, ar_term := aa_term args\<rparr>, persist L (ae_enter now args r)) \<and>
    m_lastSnapshotIncludeIndex r \<le> u \<and> u \<le> aa_prevlogindex args \<and>
    same_term_run r u (aa_prevlogindex args) \<and>
    (u = aa_prevlogindex args \<or> term_at r (u - 1) \<noteq> term_at r (aa_prevlogindex args))"
proof -
  let ?r2 = "ae_enter now args r"
  have idx: "indexed_from (m_lastSnapshotIncludeIndex r) (m_logs r)"
    using wf by (simp add: raft_wf_def)
  have ml: "matchLog ?r2 (aa_prevlogindex args) (aa_prevlogterm args) = Inr False"
    using matchLog_term_at[of ?r2 "aa_prevlogindex args"] idx prev m by simp
  have bo: "ae_backoff ?r2 (aa_prevlogindex args) (aa_prevlogindex args)
      = ae_backoff r (aa_prevlogindex args) (aa_prevlogindex args)"
    by (rule ae_backoff_cong[OF same_log_ae_enter])
  obtain u where u: "ae_backoff r (aa_prevlogindex args) (aa_prevlogindex args) = Inr u"
    and spec: "m_lastSnapshotIncludeIndex r \<le> u" "u \<le> aa_prevlogindex args"
      "same_term_run r u (aa_prevlogindex args)"
      "u = aa_prevlogindex args \<or> term_at r (u - 1) \<noteq> term_at r (aa_prevlogindex args)"
    using ae_backoff_spec[OF idx prev order_refl] prev(1) by (force simp: same_term_run_def[of r "aa_prevlogindex args + 1"])
  have "AppendEntries1 L now args r =
      Inr (new_AppendEntriesReply\<lparr>ar_appstate := AppNormal, ar_updatenextindex := u,
             ar_success := False, ar_term := aa_term args\<rparr>, persist L ?r2)"
    using prev by (simp add: AppendEntries1_accepted[OF acc] Let_def ml bo u)
  then show ?thesis using spec by blast
qed

end
