(* ===== verification/RaftLeader.thy ===== *)
theory RaftLeader
  imports RaftReplication
begin

text \<open>
  Lemmas on the leader's side of replication and on the hand-over of committed entries:
  the requests \<open>doHeartBeat\<close> builds are well formed and carry the rest of the log, the
  reply handler keeps the tables inside the log, \<open>getApplyLogs\<close> hands over exactly the
  entries between the last applied and the commit index.
\<close>

section \<open>Heartbeats\<close>

lemma log_suffix_spec:
  assumes idx: "indexed_from (m_lastSnapshotIncludeIndex r) (m_logs r)"
    and "m_lastSnapshotIncludeIndex r \<le> p" and "p \<le> getLastLogIndex r"
  shows "log_suffix r p = Inr (drop (nat (p - m_lastSnapshotIncludeIndex r)) (m_logs r))"
  using assms by (simp add: log_suffix_def slices_in_range)

lemma getPrevLogInfo_spec:
  assumes wf: "raft_wf r" and i: "i < length (m_peers r)"
    and rng: "m_lastSnapshotIncludeIndex r < m_nextIndex r ! i" "m_nextIndex r ! i \<le> getLastLogIndex r + 1"
  shows "\<exists>t. getPrevLogInfo r (int i) = Inr (m_nextIndex r ! i - 1, t) \<and>
    term_at r (m_nextIndex r ! i - 1) = Some t"
proof -
  have idx: "indexed_from (m_lastSnapshotIncludeIndex r) (m_logs r)"
    and len: "i < length (m_nextIndex r)" using wf i by (simp_all add: raft_wf_def)
  show ?thesis
  proof (cases "m_nextIndex r ! i = m_lastSnapshotIncludeIndex r + 1")
    case True
    then show ?thesis using len by (simp add: getPrevLogInfo_def term_at_def)
  next
    case False
    then obtain e where "log_at r (m_nextIndex r ! i - 1) = Inr e" "entry_at r (m_nextIndex r ! i - 1) = Some e"
      using log_at_entry[OF idx, of "m_nextIndex r ! i - 1"] rng by auto
    then show ?thesis using False len by (simp add: getPrevLogInfo_def term_at_def)
  qed
qed

text \<open>The request for peer \<open>i\<close>.\<close>

definition hb_args :: "Raft \<Rightarrow> nat \<Rightarrow> AppendEntriesArgs" where
  "hb_args r i =
     (let p = m_nextIndex r ! i - 1 in
      \<lparr>aa_term = m_currentTerm r, aa_leaderid = m_me r, aa_prevlogindex = p,
       aa_prevlogterm = the (term_at r p),
       aa_entries = drop (nat (p - m_lastSnapshotIncludeIndex r)) (m_logs r),
       aa_leadercommit = m_commitIndex r\<rparr>)"

definition hb_thread :: "Raft \<Rightarrow> nat \<Rightarrow> nat \<Rightarrow> thread" where
  "hb_thread r c i =
     (if m_nextIndex r ! i \<le> m_lastSnapshotIncludeIndex r then LeaderSendSnapShot (int i)
      else SendAppendEntries (int i) (hb_args r i) c)"

lemma leader_tables_next:
  "leader_tables r \<Longrightarrow> i < length (m_nextIndex r) \<Longrightarrow> 1 \<le> m_nextIndex r ! i \<and> m_nextIndex r ! i \<le> getLastLogIndex r + 1"
  by (simp add: leader_tables_def list_all_length)

lemma leader_tables_match:
  "leader_tables r \<Longrightarrow> i < length (m_matchIndex r) \<Longrightarrow> 0 \<le> m_matchIndex r ! i \<and> m_matchIndex r ! i \<le> getLastLogIndex r"
  by (simp add: leader_tables_def list_all_length)

lemma hb_peer_spec:
  assumes wf: "raft_wf r" and tab: "leader_tables r" and i: "i < length (m_peers r)"
  shows "hb_peer r c i = Inr (hb_thread r c i)"
proof -
  have idx: "indexed_from (m_lastSnapshotIncludeIndex r) (m_logs r)"
    and len: "i < length (m_nextIndex r)" using wf i by (simp_all add: raft_wf_def)
  have nx: "1 \<le> m_nextIndex r ! i" "m_nextIndex r ! i \<le> getLastLogIndex r + 1"
    using leader_tables_next[OF tab len] by simp_all
  show ?thesis
  proof (cases "m_nextIndex r ! i \<le> m_lastSnapshotIncludeIndex r")
    case True
    then show ?thesis using len nx by (simp add: hb_peer_def hb_thread_def)
  next
    case False
    let ?p = "m_nextIndex r ! i - 1"
    obtain t where t: "getPrevLogInfo r (int i) = Inr (?p, t)" "term_at r ?p = Some t"
      using getPrevLogInfo_spec[OF wf i] False nx(2) by auto
    have sfx: "log_suffix r ?p = Inr (drop (nat (?p - m_lastSnapshotIncludeIndex r)) (m_logs r))"
      using log_suffix_spec[OF idx, of ?p] False nx(2) by simp
    have "?p + int (length (drop (nat (?p - m_lastSnapshotIncludeIndex r)) (m_logs r))) = getLastLogIndex r"
      using last_index_eq[OF idx] False nx(2) by simp
    then show ?thesis
      using False len nx t sfx by (simp add: hb_peer_def hb_thread_def hb_args_def Let_def)
  qed
qed

lemma hb_peers_spec:
  assumes "raft_wf r" and "leader_tables r"
  shows "\<forall>i \<in> set is. i < length (m_peers r) \<Longrightarrow>
    hb_peers r c is = Inr (map (hb_thread r c) (filter (\<lambda>i. int i \<noteq> m_me r) is))"
  by (induction "is") (auto simp: hb_peer_spec[OF assms])

lemma hb_args_wf:
  assumes wf: "raft_wf r" and tab: "leader_tables r" and i: "i < length (m_peers r)"
    and ns: "m_lastSnapshotIncludeIndex r < m_nextIndex r ! i"
  shows "args_wf (hb_args r i)"
    and "aa_prevlogindex (hb_args r i) + int (length (aa_entries (hb_args r i))) = getLastLogIndex r"
    and "term_at r (aa_prevlogindex (hb_args r i)) = Some (aa_prevlogterm (hb_args r i))"
    and "\<And>j. aa_prevlogindex (hb_args r i) < j \<Longrightarrow> j \<le> getLastLogIndex r \<Longrightarrow>
      entry_at r j = Some (aa_entries (hb_args r i) ! nat (j - aa_prevlogindex (hb_args r i) - 1))"
proof -
  have idx: "indexed_from (m_lastSnapshotIncludeIndex r) (m_logs r)"
    and len: "i < length (m_nextIndex r)" using wf i by (simp_all add: raft_wf_def)
  have nx: "m_nextIndex r ! i \<le> getLastLogIndex r + 1"
    using leader_tables_next[OF tab len] by simp
  define n where "n = nat (m_nextIndex r ! i - 1 - m_lastSnapshotIncludeIndex r)"
  have n: "m_nextIndex r ! i - 1 = m_lastSnapshotIncludeIndex r + int n" "n \<le> length (m_logs r)"
    using ns nx last_index_eq[OF idx] by (auto simp: n_def)
  have ents: "aa_entries (hb_args r i) = drop n (m_logs r)"
    by (simp add: hb_args_def Let_def n_def)
  have prev: "aa_prevlogindex (hb_args r i) = m_lastSnapshotIncludeIndex r + int n"
    using n(1) by (simp add: hb_args_def Let_def)
  show "args_wf (hb_args r i)"
    using indexed_from_drop[OF idx n(2)] by (simp add: args_wf_def ents prev)
  show "aa_prevlogindex (hb_args r i) + int (length (aa_entries (hb_args r i))) = getLastLogIndex r"
    using n(2) by (simp add: ents prev last_index_eq[OF idx])
  obtain t where "term_at r (m_nextIndex r ! i - 1) = Some t"
    using getPrevLogInfo_spec[OF wf i ns nx] by auto
  then show "term_at r (aa_prevlogindex (hb_args r i)) = Some (aa_prevlogterm (hb_args r i))"
    by (simp add: hb_args_def Let_def)
  fix j assume "aa_prevlogindex (hb_args r i) < j" "j \<le> getLastLogIndex r"
  then show "entry_at r j = Some (aa_entries (hb_args r i) ! nat (j - aa_prevlogindex (hb_args r i) - 1))"
    using n(2) last_index_eq[OF idx]
    by (auto simp: entry_at_def Let_def ents prev nat_add_distrib[symmetric] nth_drop intro!: arg_cong[of _ _ "nth (m_logs r)"])
qed

lemma tables_cells [simp]:
  "leader_tables (r\<lparr>cells := cs\<rparr>) = leader_tables r"
  "hb_thread (r\<lparr>cells := cs\<rparr>) = hb_thread r"
  by (simp_all add: leader_tables_def last_log_defs hb_thread_def hb_args_def term_at_def entry_at_def
      Let_def fun_eq_iff)

lemma doHeartBeat_spec:
  assumes "raft_wf r" and "leader_tables r" and "m_status r = Leader"
  shows "doHeartBeat now r =
    Inr (r\<lparr>cells := cells r @ [1], m_lastResetHearBeatTime := now\<rparr>,
         map (hb_thread r (length (cells r)))
           (filter (\<lambda>i. int i \<noteq> m_me r) [0..<length (m_peers r)]))"
  using hb_peers_spec[of "r\<lparr>cells := cells r @ [1]\<rparr>" "[0..<length (m_peers r)]" "length (cells r)"] assms
  by (simp add: doHeartBeat_def Let_def)

lemma doHeartBeat_fields:
  assumes "doHeartBeat now r = Inr (r', ts)"
  shows "r' = r \<and> ts = [] \<or> r' = r\<lparr>cells := cells r @ [1], m_lastResetHearBeatTime := now\<rparr>"
  using assms by (auto simp: doHeartBeat_def Let_def bindr_eq_Inr split: if_splits)

text \<open>
  A follower that accepts the request of a leader holds the leader's entries from the
  request's position to the end of the leader's log.
\<close>

lemma replicate_suffix:
  assumes wf: "raft_wf f" "raft_wf l" and tab: "leader_tables l" and i: "i < length (m_peers l)"
    and ns: "m_lastSnapshotIncludeIndex l < m_nextIndex l ! i"
    and acc: "m_currentTerm f \<le> m_currentTerm l"
    and prev: "m_lastSnapshotIncludeIndex f \<le> m_nextIndex l ! i - 1"
    and m: "term_at f (m_nextIndex l ! i - 1) = term_at l (m_nextIndex l ! i - 1)"
    and agr: "agrees f (aa_entries (hb_args l i))"
  shows "\<exists>reply f'. AppendEntries1 L now (hb_args l i) f = Inr (reply, f') \<and> ar_success reply \<and>
    raft_wf f' \<and> (\<forall>j. m_nextIndex l ! i \<le> j \<and> j \<le> getLastLogIndex l \<longrightarrow> entry_at f' j = entry_at l j) \<and>
    (\<forall>j. j < m_nextIndex l ! i \<or> getLastLogIndex l < j \<longrightarrow> entry_at f' j = entry_at f j)"
proof -
  let ?a = "hb_args l i"
  note wfa = hb_args_wf[OF wf(2) tab i ns]
  have p: "aa_prevlogindex ?a = m_nextIndex l ! i - 1" "aa_term ?a = m_currentTerm l"
    by (simp_all add: hb_args_def Let_def)
  obtain f' where f': "AppendEntries1 L now ?a f =
      Inr (new_AppendEntriesReply\<lparr>ar_appstate := AppNormal, ar_success := True,
             ar_term := aa_term ?a\<rparr>, persist L f')"
    "raft_wf f'" "entry_at f' = merge_entries (entry_at f) (aa_entries ?a)"
    using AppendEntries1_match[OF wf(1) _ wfa(1) _ _ agr, of L now] acc prev m wfa(3) p by auto
  have ix: "indexed_from (aa_prevlogindex ?a) (aa_entries ?a)"
    using wfa(1) by (simp add: args_wf_def)
  have "entry_at f' j = entry_at l j" if "m_nextIndex l ! i \<le> j" "j \<le> getLastLogIndex l" for j
    using merge_entries_nth[OF ix, of j] wfa(2) wfa(4)[of j] that p f'(3) by simp
  moreover have "entry_at f' j = entry_at f j" if "j < m_nextIndex l ! i \<or> getLastLogIndex l < j" for j
    using merge_entries_other[OF ix, of j] wfa(2) that p f'(3) by auto
  ultimately show ?thesis using f' by auto
qed

section \<open>Replies to heartbeats\<close>

lemma count_ack_cases:
  assumes "count_ack args k v r = Inr r'"
  obtains (committed) "v \<ge> 1 + int (length (m_peers r) div 2)" "aa_entries args \<noteq> []"
      "logterm (last (aa_entries args)) = m_currentTerm r"
      "max (m_commitIndex r) (aa_prevlogindex args + int (length (aa_entries args))) \<le> getLastLogIndex r"
      "r' = r\<lparr>cells := (cells r)[k := 0], m_commitIndex := max (m_commitIndex r)
              (aa_prevlogindex args + int (length (aa_entries args)))\<rparr>"
  | (uncommitted) v' where "r' = r\<lparr>cells := (cells r)[k := v']\<rparr>"
proof (cases "v \<ge> 1 + int (length (m_peers r) div 2)")
  case True
  then show ?thesis
    using assms committed uncommitted[of 0]
    by (cases "aa_entries args \<noteq> [] \<and> logterm (last (aa_entries args)) = m_currentTerm r")
      (auto simp: count_ack_def Let_def bindr_eq_Inr)
next
  case False
  then have "r' = r\<lparr>cells := (cells r)[k := cells r ! k]\<rparr>"
    using assms by (cases r) (simp add: count_ack_def)
  then show ?thesis by (rule uncommitted)
qed

text \<open>What a reply can change, by cases.\<close>

lemma sendAppendEntries_cases:
  assumes "sendAppendEntries_end server args ok reply k r = Inr r'"
  obtains (same) "r' = r"
  | (newer) "ar_term reply > m_currentTerm r"
      "r' = r\<lparr>m_status := Follower, m_currentTerm := ar_term reply, m_votedFor := -1\<rparr>"
  | (rejected) ni where "m_status r = Leader" "ar_term reply = m_currentTerm r" "\<not> ar_success reply"
      "vec_set (m_nextIndex r) server (ar_updatenextindex reply) = Inr ni"
      "r' = r\<lparr>m_nextIndex := ni\<rparr>"
  | (accepted) mi ms ni v c where "m_status r = Leader" "ar_term reply = m_currentTerm r" "ar_success reply"
      "k < length (cells r)" "vec_at (m_matchIndex r) server = Inr mi"
      "vec_set (m_matchIndex r) server (max mi (aa_prevlogindex args + int (length (aa_entries args)))) = Inr ms"
      "vec_set (m_nextIndex r) server (max mi (aa_prevlogindex args + int (length (aa_entries args))) + 1) = Inr ni"
      "max mi (aa_prevlogindex args + int (length (aa_entries args))) \<le> getLastLogIndex r"
      "c = m_commitIndex r \<or>
       cells r ! k + 1 \<ge> 1 + int (length (m_peers r) div 2) \<and> aa_entries args \<noteq> [] \<and>
       logterm (last (aa_entries args)) = m_currentTerm r \<and>
       c = max (m_commitIndex r) (aa_prevlogindex args + int (length (aa_entries args))) \<and>
       c \<le> getLastLogIndex r"
      "r' = r\<lparr>cells := (cells r)[k := v], m_matchIndex := ms, m_nextIndex := ni, m_commitIndex := c\<rparr>"
proof -
  consider (keep) "\<not> ok \<or> ar_appstate reply = Disconnected \<or> ar_term reply < m_currentTerm r \<or>
      ar_term reply = m_currentTerm r \<and> m_status r \<noteq> Leader"
    | (new) "ok" "ar_appstate reply \<noteq> Disconnected" "ar_term reply > m_currentTerm r"
    | (rej) "ok" "ar_appstate reply \<noteq> Disconnected" "ar_term reply = m_currentTerm r"
        "m_status r = Leader" "\<not> ar_success reply"
    | (acc) "ok" "ar_appstate reply \<noteq> Disconnected" "ar_term reply = m_currentTerm r"
        "m_status r = Leader" "ar_success reply"
    by linarith
  then show ?thesis
  proof cases
    case keep
    then show ?thesis using assms same by (auto simp: sendAppendEntries_end_def split: if_splits)
  next
    case new
    then show ?thesis using assms newer by (simp add: sendAppendEntries_end_def)
  next
    case rej
    show ?thesis
    proof (cases "ar_updatenextindex reply = -100")
      case True
      then show ?thesis using assms rej same by (simp add: sendAppendEntries_end_def)
    next
      case False
      then obtain ni where "vec_set (m_nextIndex r) server (ar_updatenextindex reply) = Inr ni"
        "r' = r\<lparr>m_nextIndex := ni\<rparr>"
        using assms rej by (auto simp: sendAppendEntries_end_def bindr_eq_Inr)
      then show ?thesis using rej rejected by blast
    qed
  next
    case acc
    define n where "n = aa_prevlogindex args + int (length (aa_entries args))"
    from assms acc obtain mi ms ni where k: "k < length (cells r)"
      and mi: "vec_at (m_matchIndex r) server = Inr mi"
      and ms: "vec_set (m_matchIndex r) server (max mi n) = Inr ms"
      and ni: "vec_set (m_nextIndex r) server (max mi n + 1) = Inr ni"
      and le: "max mi n \<le> getLastLogIndex r"
      and rest: "count_ack args k (cells r ! k + 1)
        (r\<lparr>cells := (cells r)[k := cells r ! k + 1], m_matchIndex := ms, m_nextIndex := ni\<rparr>) = Inr r'"
      by (auto simp: sendAppendEntries_end_def Let_def n_def bindr_eq_Inr vec_at_eq_Inr[of "cells r"])
    from rest show ?thesis
    proof (cases rule: count_ack_cases)
      case committed
      then show ?thesis
        using accepted[OF acc(4,3,5) k mi, of ms ni "max (m_commitIndex r) n" 0] ms ni le
        by (simp add: n_def)
    next
      case (uncommitted v)
      then show ?thesis
        using accepted[OF acc(4,3,5) k mi, of ms ni "m_commitIndex r" v] ms ni le
        by (cases r) (simp add: n_def)
    qed
  qed
qed

lemma sendAppendEntries_vote_frame:
  assumes "sendAppendEntries_end server args ok reply k r = Inr r'"
  shows "vote_frame r r' \<and> (\<forall>j. j \<noteq> k \<longrightarrow> j < length (cells r) \<longrightarrow> cells r' ! j = cells r ! j) \<and>
    length (cells r') = length (cells r)"
  using assms by (cases rule: sendAppendEntries_cases) (auto simp: vote_frame_def)

lemma sendAppendEntries_wf:
  assumes "sendAppendEntries_end server args ok reply k r = Inr r'" and wf: "raft_wf r"
  shows "raft_wf r'"
  using assms(1)
proof (cases rule: sendAppendEntries_cases)
  case (accepted mi ms ni v c)
  have "m_commitIndex r \<le> c" "c \<le> getLastLogIndex r"
    using accepted(9) wf raft_wf_last[OF wf] by (auto simp: raft_wf_def)
  then show ?thesis
    using wf accepted(6,7) raft_wf_last[OF wf]
    by (simp add: raft_wf_def accepted(10) vec_set_length)
qed (use wf in \<open>auto simp: raft_wf_def vec_set_length\<close>)

lemma sendAppendEntries_tables:
  assumes "sendAppendEntries_end server args ok reply k r = Inr r'"
    and tab: "leader_tables r" and lead: "m_status r' = Leader"
    and upd: "\<not> ar_success reply \<Longrightarrow> ar_updatenextindex reply \<noteq> -100 \<Longrightarrow>
      1 \<le> ar_updatenextindex reply \<and> ar_updatenextindex reply \<le> getLastLogIndex r + 1"
    and ok100: "ar_updatenextindex reply \<noteq> -100 \<or> ar_success reply"
  shows "leader_tables r'"
  using assms(1)
proof (cases rule: sendAppendEntries_cases)
  case (rejected ni)
  then show ?thesis
    using tab upd ok100
    by (auto simp: leader_tables_def vec_set_eq_Inr list_all_iff dest!: set_update_subset_insert[THEN subsetD])
next
  case (accepted mi ms ni v c)
  then have "0 \<le> mi" using leader_tables_match[OF tab, of "nat server"] by (auto simp: vec_at_eq_Inr)
  then show ?thesis
    using accepted(6,7,8) tab
    by (auto simp: leader_tables_def accepted(10) vec_set_eq_Inr list_all_iff
        dest!: set_update_subset_insert[THEN subsetD])
qed (use tab lead in auto)

text \<open>The commit index never goes back; it moves only to an index acknowledged in the
  leader's own term by a majority of the round.\<close>

lemma sendAppendEntries_commit:
  assumes "sendAppendEntries_end server args ok reply k r = Inr r'"
  shows "m_commitIndex r' = m_commitIndex r \<or>
    m_status r = Leader \<and> ar_success reply \<and> ar_term reply = m_currentTerm r \<and>
    m_commitIndex r < m_commitIndex r' \<and>
    m_commitIndex r' = aa_prevlogindex args + int (length (aa_entries args)) \<and>
    logterm (last (aa_entries args)) = m_currentTerm r \<and>
    cells r ! k + 1 \<ge> 1 + int (length (m_peers r) div 2)"
  using assms by (cases rule: sendAppendEntries_cases) auto

section \<open>New commands\<close>

lemma Start_follower: "m_status r \<noteq> Leader \<Longrightarrow> Start L op r = (-1, -1, False, r)"
  by (simp add: Start_def)

lemma Start_leader:
  assumes "m_status r = Leader"
  shows "Start L op r = (getLastLogIndex r + 1, m_currentTerm r, True,
    persist L (r\<lparr>m_logs := m_logs r @ [\<lparr>command = asString L op, logterm = m_currentTerm r,
      logindex = getLastLogIndex r + 1\<rparr>]\<rparr>))"
  using assms by (simp add: Start_def Let_def getNewCommandIndex_def)

lemma Start_wf:
  assumes wf: "raft_wf r" and "Start L op r = (i, t, b, r')"
  shows "raft_wf r'"
proof (cases "m_status r = Leader")
  case True
  then show ?thesis
    using assms raft_wf_last[OF wf] by (auto simp: Start_leader raft_wf_def indexed_from_append)
next
  case False
  then show ?thesis using assms by (simp add: Start_follower)
qed

lemma Start_vote_frame: "Start L op r = (i, t, b, r') \<Longrightarrow> vote_frame r r' \<and> cells r' = cells r"
  by (auto simp: Start_def vote_frame_def Let_def split: if_splits)

section \<open>Handing over committed entries\<close>

definition apply_msg :: "Raft \<Rightarrow> int \<Rightarrow> ApplyMsg" where
  "apply_msg r i = new_ApplyMsg\<lparr>CommandValid := True, SnapshotValid := False,
     Command := command (the (entry_at r i)), CommandIndex := i\<rparr>"

lemma apply_msg_frame [simp]: "apply_msg (r\<lparr>m_lastApplied := x\<rparr>) = apply_msg r"
  by (simp add: apply_msg_def fun_eq_iff)

lemma log_at_lastApplied [simp]: "log_at (r\<lparr>m_lastApplied := x\<rparr>) i = log_at r i"
  by (simp add: log_at_def getSlicesIndexFromLogIndex_def)

lemma getApplyLogs_loop_spec:
  assumes "indexed_from (m_lastSnapshotIncludeIndex r) (m_logs r)"
    and "m_lastSnapshotIncludeIndex r \<le> m_lastApplied r"
    and "m_lastApplied r \<le> m_commitIndex r" and "m_commitIndex r \<le> getLastLogIndex r"
  shows "getApplyLogs_loop r =
    Inr (map (apply_msg r) [m_lastApplied r + 1..m_commitIndex r],
         r\<lparr>m_lastApplied := m_commitIndex r\<rparr>)"
  using assms
proof (induction "nat (m_commitIndex r - m_lastApplied r)" arbitrary: r)
  case 0
  then have "m_lastApplied r = m_commitIndex r" by simp
  then show ?case by (cases r) (simp add: getApplyLogs_loop.simps)
next
  case (Suc n)
  let ?i = "m_lastApplied r + 1" and ?r1 = "r\<lparr>m_lastApplied := m_lastApplied r + 1\<rparr>"
  have lt: "m_lastApplied r < m_commitIndex r" using Suc.hyps(2) by simp
  obtain e where e: "log_at r ?i = Inr e" "entry_at r ?i = Some e" "logindex e = ?i"
    using log_at_entry[OF Suc.prems(1), of ?i] Suc.prems lt by auto
  have rec: "getApplyLogs_loop ?r1 =
      Inr (map (apply_msg r) [?i + 1..m_commitIndex r], r\<lparr>m_lastApplied := m_commitIndex r\<rparr>)"
    using Suc.hyps(1)[of ?r1] Suc.hyps(2) Suc.prems lt by simp
  have cons: "[?i..m_commitIndex r] = ?i # [?i + 1..m_commitIndex r]"
    using lt by (simp add: upto_rec1)
  have "apply_msg r ?i = new_ApplyMsg\<lparr>CommandValid := True, SnapshotValid := False,
      Command := command e, CommandIndex := ?i\<rparr>"
    using e(2) by (simp add: apply_msg_def)
  then show ?case
    unfolding cons by (subst getApplyLogs_loop.simps) (simp add: Let_def lt e rec)
qed

lemma getApplyLogs_fields:
  assumes "getApplyLogs r = Inr (ms, r')"
  shows "\<exists>la. r' = r\<lparr>m_lastApplied := la\<rparr>"
proof -
  have "getApplyLogs_loop r = Inr (ms, r1) \<Longrightarrow> \<exists>la. r1 = r\<lparr>m_lastApplied := la\<rparr>" for ms r1
  proof (induction r arbitrary: ms r1 rule: getApplyLogs_loop.induct)
    case (1 r)
    show ?case
    proof (cases "m_lastApplied r < m_commitIndex r")
      case True
      then obtain ms' where "getApplyLogs_loop (r\<lparr>m_lastApplied := m_lastApplied r + 1\<rparr>) = Inr (ms', r1)"
        using "1.prems" by (subst (asm) getApplyLogs_loop.simps) (auto simp: bindr_eq_Inr Let_def)
      from "1.IH"[OF True refl this] show ?thesis by auto
    next
      case False
      then have "r1 = r\<lparr>m_lastApplied := m_lastApplied r\<rparr>"
        using "1.prems" by (cases r) (simp add: getApplyLogs_loop.simps)
      then show ?thesis ..
    qed
  qed
  then show ?thesis using assms by (auto simp: getApplyLogs_def bindr_eq_Inr)
qed

lemma getApplyLogs_spec:
  assumes wf: "raft_wf r"
  shows "getApplyLogs r = Inr (map (apply_msg r) [m_lastApplied r + 1..m_commitIndex r], r\<lparr>m_lastApplied := m_commitIndex r\<rparr>)"
  using getApplyLogs_loop_spec[of r] wf raft_wf_last[OF wf] by (simp add: getApplyLogs_def raft_wf_def)

lemma applierTicker_spec:
  assumes wf: "raft_wf r"
  shows "applierTicker r = Inr (r\<lparr>m_lastApplied := m_commitIndex r,
    applyChan := push_all (map (apply_msg r) [m_lastApplied r + 1..m_commitIndex r]) (applyChan r)\<rparr>)"
  by (simp add: applierTicker_def getApplyLogs_spec[OF wf])

section \<open>The contract on votes, for replication\<close>

lemma ae_entries_fields: "ae_entries r es = Inr r' \<Longrightarrow> \<exists>logs. r' = r\<lparr>m_logs := logs\<rparr>"
proof (induction es arbitrary: r)
  case Nil
  then show ?case by (metis ae_entries.simps(1) m_logs_self sum.inject(2))
next
  case (Cons e es)
  then obtain r1 where r1: "ae_entry r e = Inr r1" "ae_entries r1 es = Inr r'"
    by (auto simp: bindr_eq_Inr)
  have "\<exists>logs. r1 = r\<lparr>m_logs := logs\<rparr>"
  proof (cases "logindex e > getLastLogIndex r")
    case True
    then show ?thesis using r1(1) by (auto simp: ae_entry_def)
  next
    case False
    then have "r1 = r \<or> (\<exists>logs. r1 = r\<lparr>m_logs := logs\<rparr>)"
      using r1(1) by (auto simp: ae_entry_def bindr_eq_Inr split: if_splits)
    then show ?thesis by (metis m_logs_self)
  qed
  then show ?case using Cons.IH[OF r1(2)] by auto
qed

lemma AppendEntries1_fields:
  assumes "AppendEntries1 L now args r = Inr (reply, r')"
  shows "r' = r \<and> aa_term args < m_currentTerm r \<or>
    m_currentTerm r \<le> aa_term args \<and>
    (\<exists>logs c. r' = persist L ((ae_enter now args r)\<lparr>m_logs := logs, m_commitIndex := c\<rparr>))"
proof (cases "aa_term args < m_currentTerm r")
  case True
  then show ?thesis using assms by (simp add: AppendEntries1_stale)
next
  case False
  then have acc: "m_currentTerm r \<le> aa_term args" by simp
  let ?r2 = "ae_enter now args r"
  have self: "?r2 = ?r2\<lparr>m_logs := m_logs ?r2, m_commitIndex := m_commitIndex ?r2\<rparr>"
    by (cases r) (simp add: ae_enter_def)
  have "r' = persist L ?r2 \<or> (\<exists>r3 c. ae_entries ?r2 (aa_entries args) = Inr r3 \<and>
      (r' = persist L r3 \<or> r' = persist L (r3\<lparr>m_commitIndex := c\<rparr>)))"
    using assms by (auto simp: AppendEntries1_accepted[OF acc] Let_def bindr_eq_Inr split: if_splits)
  then have "\<exists>logs c. r' = persist L (?r2\<lparr>m_logs := logs, m_commitIndex := c\<rparr>)"
  proof (elim disjE exE conjE)
    assume "r' = persist L ?r2"
    then show ?thesis using self by metis
  next
    fix r3 assume r3: "ae_entries ?r2 (aa_entries args) = Inr r3" "r' = persist L r3"
    from ae_entries_fields[OF r3(1)] obtain logs where "r3 = ?r2\<lparr>m_logs := logs\<rparr>" ..
    then have "r3 = ?r2\<lparr>m_logs := logs, m_commitIndex := m_commitIndex ?r2\<rparr>"
      by (cases r) (simp add: ae_enter_def)
    then show ?thesis using r3(2) by blast
  next
    fix r3 c assume r3: "ae_entries ?r2 (aa_entries args) = Inr r3" "r' = persist L (r3\<lparr>m_commitIndex := c\<rparr>)"
    from ae_entries_fields[OF r3(1)] show ?thesis using r3(2) by auto
  qed
  then show ?thesis using acc by blast
qed

lemma AppendEntries1_vote_frame:
  assumes "AppendEntries1 L now args r = Inr (reply, r')"
  shows "vote_frame r r' \<and> cells r' = cells r"
  using AppendEntries1_fields[OF assms] by (auto simp: vote_frame_def ae_enter_def)

section \<open>The commit scan\<close>

text \<open>Index \<open>i\<close> is held by a majority and of the current term.\<close>

definition committable :: "Raft \<Rightarrow> int \<Rightarrow> bool" where
  "committable r i \<longleftrightarrow> length (m_peers r) div 2 + 1 \<le> match_count r i \<and> term_at r i = Some (m_currentTerm r)"

lemma match_count_commit [simp]: "match_count (r\<lparr>m_commitIndex := c\<rparr>) = match_count r"
  by (simp add: match_count_def fun_eq_iff)

lemma luci_loop_spec:
  assumes idx: "indexed_from (m_lastSnapshotIncludeIndex r) (m_logs r)"
    and len: "length (m_matchIndex r) = length (m_peers r)"
  shows "index \<le> getLastLogIndex r \<Longrightarrow>
    \<exists>c. luci_loop r index = Inr (if c = m_lastSnapshotIncludeIndex r then r else r\<lparr>m_commitIndex := c\<rparr>) \<and>
      m_lastSnapshotIncludeIndex r \<le> c \<and> c \<le> max index (m_lastSnapshotIncludeIndex r) \<and>
      (c \<noteq> m_lastSnapshotIncludeIndex r \<longrightarrow> committable r c) \<and>
      (\<forall>j. c < j \<and> j \<le> index \<longrightarrow> \<not> committable r j)"
proof (induction "nat (index - m_lastSnapshotIncludeIndex r)" arbitrary: index)
  case 0
  then have "luci_loop r index = Inr r" by (simp add: luci_loop.simps[of r index])
  then show ?case using 0 by (intro exI[of _ "m_lastSnapshotIncludeIndex r"]) auto
next
  case (Suc n)
  then have ge: "m_lastSnapshotIncludeIndex r < index" by simp
  have inb: "\<not> list_ex (\<lambda>i. int i \<noteq> m_me r \<and> length (m_matchIndex r) \<le> i) [0..<length (m_peers r)]"
    using len by (auto simp: list_ex_iff)
  obtain t where t: "getLogTermFromLogIndex r index = Inr t" "term_at r index = Some t"
    using getLogTerm_term_at[OF idx, of index] ge Suc.prems by auto
  show ?case
  proof (cases "committable r index")
    case True
    then have "luci_loop r index = Inr (r\<lparr>m_commitIndex := index\<rparr>)"
      using ge inb t by (simp add: luci_loop.simps[of r index] committable_def)
    then show ?thesis using True ge by (intro exI[of _ index]) auto
  next
    case False
    then have step: "luci_loop r index = luci_loop r (index - 1)"
      using ge inb t by (auto simp: luci_loop.simps[of r index] committable_def)
    obtain c where c: "luci_loop r (index - 1) = Inr (if c = m_lastSnapshotIncludeIndex r then r else r\<lparr>m_commitIndex := c\<rparr>)"
      "m_lastSnapshotIncludeIndex r \<le> c" "c \<le> max (index - 1) (m_lastSnapshotIncludeIndex r)"
      "c \<noteq> m_lastSnapshotIncludeIndex r \<longrightarrow> committable r c"
      "\<forall>j. c < j \<and> j \<le> index - 1 \<longrightarrow> \<not> committable r j"
      using Suc.hyps(1)[of "index - 1"] Suc.hyps(2) Suc.prems by force
    have "\<forall>j. c < j \<and> j \<le> index \<longrightarrow> \<not> committable r j"
      using c(5) False by (metis int_one_le_iff_zero_less le_diff_eq order_le_less zle_diff1_eq)
    then show ?thesis using c step by (intro exI[of _ c]) auto
  qed
qed

lemma committable_commit [simp]: "committable (r\<lparr>m_commitIndex := c\<rparr>) = committable r"
  by (simp add: committable_def fun_eq_iff)

section \<open>Properties\<close>

text \<open>The request the example leader sends to the example follower.\<close>

definition demo_args :: AppendEntriesArgs where
  "demo_args = \<lparr>aa_term = 2, aa_leaderid = 0, aa_prevlogindex = 1, aa_prevlogterm = 1,
     aa_entries = [\<lparr>command = ''b'', logterm = 1, logindex = 2\<rparr>, \<lparr>command = ''c'', logterm = 2, logindex = 3\<rparr>],
     aa_leadercommit = 2\<rparr>"

lemma demo_args_ok:
  "m_currentTerm demo_follower \<le> aa_term demo_args" "args_wf demo_args"
  "m_lastSnapshotIncludeIndex demo_follower \<le> aa_prevlogindex demo_args"
  "term_at demo_follower (aa_prevlogindex demo_args) = Some (aa_prevlogterm demo_args)"
  "agrees demo_follower (aa_entries demo_args)"
  by (simp_all add: demo_args_def demo_defs args_wf_def term_at_def entry_at_def agrees_def Let_def)

text \<open>
  C4: When the follower's log matches the request at \<open>prevlogindex\<close>,
  \<open>AppendEntries1\<close> succeeds without a fault: afterwards the log holds the received entries
  at their indices and is unchanged everywhere else, the commit index follows the leader's up to the end of the
  log and never goes back, the node is a follower of the sender's term, and the new state is on the disk.
\<close>

theorem AppendEntries1_merges:
  assumes "raft_wf r" and "m_currentTerm r \<le> aa_term args" and "args_wf args"
    and "m_lastSnapshotIncludeIndex r \<le> aa_prevlogindex args"
    and "term_at r (aa_prevlogindex args) = Some (aa_prevlogterm args)"
    and "agrees r (aa_entries args)"
  shows "\<exists>reply r'. AppendEntries1 L now args r = Inr (reply, r') \<and> ar_success reply \<and>
    ar_term reply = aa_term args \<and> raft_wf r' \<and>
    (\<forall>k < length (aa_entries args). entry_at r' (aa_prevlogindex args + 1 + int k) = Some (aa_entries args ! k)) \<and>
    (\<forall>i. i \<le> aa_prevlogindex args \<or> aa_prevlogindex args + int (length (aa_entries args)) < i \<longrightarrow>
       entry_at r' i = entry_at r i) \<and>
    m_commitIndex r' = max (m_commitIndex r) (min (aa_leadercommit args) (getLastLogIndex r')) \<and>
    m_currentTerm r' = aa_term args \<and> m_status r' = Follower \<and>
    (usable (m_persister r) \<longrightarrow> persisted L r')"
proof -
  obtain r' where r': "AppendEntries1 L now args r =
      Inr (new_AppendEntriesReply\<lparr>ar_appstate := AppNormal, ar_success := True,
             ar_term := aa_term args\<rparr>, persist L r')" "raft_wf r'"
      "entry_at r' = merge_entries (entry_at r) (aa_entries args)"
      "m_commitIndex r' = max (m_commitIndex r) (min (aa_leadercommit args) (getLastLogIndex r'))"
      and eq: "r' = (ae_enter now args r)\<lparr>m_logs := m_logs r', m_commitIndex := m_commitIndex r'\<rparr>"
    using AppendEntries1_match[OF assms, of L now] by blast
  have f: "m_currentTerm r' = aa_term args" "m_status r' = Follower" "m_persister r' = m_persister r"
    by (subst eq, simp add: ae_enter_def)+
  have ix: "indexed_from (aa_prevlogindex args) (aa_entries args)" using assms(3) by (simp add: args_wf_def)
  have "entry_at r' (aa_prevlogindex args + 1 + int k) = Some (aa_entries args ! k)"
    if "k < length (aa_entries args)" for k
    using merge_entries_nth[OF ix, of "aa_prevlogindex args + 1 + int k"] that r'(3) by simp
  moreover have "entry_at r' i = entry_at r i"
    if "i \<le> aa_prevlogindex args \<or> aa_prevlogindex args + int (length (aa_entries args)) < i" for i
    using merge_entries_other[OF ix, of i] that r'(3) by auto
  ultimately show ?thesis
    using r' f persisted_persist[of r' L] by (intro exI conjI[OF r'(1)]) auto
qed

theorem AppendEntries1_merges_witness:
  "\<exists>reply r'. AppendEntries1 demo_lib 5 demo_args demo_follower = Inr (reply, r') \<and>
     ar_success reply \<and> entry_at r' 2 = Some \<lparr>command = ''b'', logterm = 1, logindex = 2\<rparr> \<and> m_commitIndex r' = 2"
proof -
  obtain reply r' where r: "AppendEntries1 demo_lib 5 demo_args demo_follower = Inr (reply, r')"
    "ar_success reply" "raft_wf r'"
    "\<forall>k < length (aa_entries demo_args). entry_at r' (aa_prevlogindex demo_args + 1 + int k) = Some (aa_entries demo_args ! k)"
    "m_commitIndex r' = max (m_commitIndex demo_follower) (min (aa_leadercommit demo_args) (getLastLogIndex r'))"
    using AppendEntries1_merges[OF demo_wf(2) demo_args_ok, of demo_lib 5] by blast
  have e: "entry_at r' 2 = Some \<lparr>command = ''b'', logterm = 1, logindex = 2\<rparr>"
    using r(4)[rule_format, of 0] by (simp add: demo_args_def)
  then have "2 \<le> getLastLogIndex r'"
    using entry_at_Some_iff[of r' 2] r(3) by (auto simp: raft_wf_def)
  then have "m_commitIndex r' = 2" using r(5) by (simp add: demo_args_def demo_follower_def)
  then show ?thesis using r(1,2) e by blast
qed

text \<open>
  \<open>leaderUpdateCommitIndex\<close> sets the commit index to the largest index
  of the log that a majority holds and that is of the leader's current term, or to the snapshot position if
  there is none; it faults on no well-formed node.
\<close>

theorem leaderUpdateCommitIndex_spec:
  assumes "raft_wf r"
  shows "\<exists>c. leaderUpdateCommitIndex r = Inr (r\<lparr>m_commitIndex := c\<rparr>) \<and>
    m_lastSnapshotIncludeIndex r \<le> c \<and> c \<le> getLastLogIndex r \<and>
    (c = m_lastSnapshotIncludeIndex r \<or> committable r c) \<and>
    (\<forall>j. c < j \<and> j \<le> getLastLogIndex r \<longrightarrow> \<not> committable r j)"
proof -
  let ?r = "r\<lparr>m_commitIndex := m_lastSnapshotIncludeIndex r\<rparr>"
  have "m_lastSnapshotIncludeIndex r \<le> getLastLogIndex r" using raft_wf_last[OF assms] by simp
  then show ?thesis
    using luci_loop_spec[of ?r "getLastLogIndex ?r"] assms
    by (fastforce simp: leaderUpdateCommitIndex_def raft_wf_def Let_def)
qed

theorem leaderUpdateCommitIndex_spec_witness:
  "\<exists>c. leaderUpdateCommitIndex demo_node = Inr (demo_node\<lparr>m_commitIndex := c\<rparr>) \<and> c = 3"
proof -
  have "committable demo_node 3"
    by (simp add: committable_def match_count_def demo_defs term_at_def entry_at_def Let_def upt_rec)
  moreover have "getLastLogIndex demo_node = 3" by (simp add: last_log_defs demo_defs)
  moreover obtain c where "leaderUpdateCommitIndex demo_node = Inr (demo_node\<lparr>m_commitIndex := c\<rparr>)"
    "c \<le> getLastLogIndex demo_node" "\<forall>j. c < j \<and> j \<le> getLastLogIndex demo_node \<longrightarrow> \<not> committable demo_node j"
    using leaderUpdateCommitIndex_spec[OF demo_wf(1)] by blast
  ultimately show ?thesis by (metis order_le_less order_refl)
qed

text \<open>The request peer \<open>i\<close> should get: the rest of the log after its next index.\<close>

definition request_for :: "Raft \<Rightarrow> nat \<Rightarrow> AppendEntriesArgs \<Rightarrow> bool" where
  "request_for r i args \<longleftrightarrow> args_wf args \<and> aa_term args = m_currentTerm r \<and>
     aa_leadercommit args = m_commitIndex r \<and> aa_prevlogindex args = m_nextIndex r ! i - 1 \<and>
     term_at r (aa_prevlogindex args) = Some (aa_prevlogterm args) \<and>
     aa_prevlogindex args + int (length (aa_entries args)) = getLastLogIndex r \<and>
     (\<forall>j. aa_prevlogindex args < j \<and> j \<le> getLastLogIndex r \<longrightarrow>
        entry_at r j = Some (aa_entries args ! nat (j - aa_prevlogindex args - 1)))"

text \<open>
  C16: A leader whose tables point into its log builds a heartbeat round without
  a fault: every other peer gets one thread, a snapshot transfer if its next index is inside the
  snapshot and otherwise a request that starts right before its next index, names the term there, and carries exactly
  the rest of the leader's log.
\<close>

theorem doHeartBeat_contract:
  assumes "raft_wf r" and "leader_tables r" and "m_status r = Leader"
  shows "\<exists>r' ts. doHeartBeat now r = Inr (r', ts) \<and>
    (\<forall>i < length (m_peers r). int i \<noteq> m_me r \<longrightarrow>
      (if m_nextIndex r ! i \<le> m_lastSnapshotIncludeIndex r then LeaderSendSnapShot (int i) \<in> set ts
       else \<exists>args. SendAppendEntries (int i) args (length (cells r)) \<in> set ts \<and> request_for r i args)) \<and>
    length ts = length (m_peers r) - 1 \<and> cells r' = cells r @ [1]"
proof -
  define js where "js = filter (\<lambda>i. int i \<noteq> m_me r) [0..<length (m_peers r)]"
  define ts where "ts = map (hb_thread r (length (cells r))) js"
  have run: "doHeartBeat now r = Inr (r\<lparr>cells := cells r @ [1], m_lastResetHearBeatTime := now\<rparr>, ts)"
    using doHeartBeat_spec[OF assms] by (simp add: ts_def js_def)
  have mem: "hb_thread r (length (cells r)) i \<in> set ts" if "i < length (m_peers r)" "int i \<noteq> m_me r" for i
    using that by (auto simp: ts_def js_def)
  have "set js = {..<length (m_peers r)} - {nat (m_me r)}" "distinct js"
    using assms(1) by (auto simp: js_def raft_wf_def)
  then have "length js = length (m_peers r) - 1"
    using assms(1) distinct_card[of js] by (simp add: raft_wf_def nat_less_iff)
  then have len: "length ts = length (m_peers r) - 1" by (simp add: ts_def)
  have req: "\<exists>args. SendAppendEntries (int i) args (length (cells r)) \<in> set ts \<and> request_for r i args"
    if "i < length (m_peers r)" "int i \<noteq> m_me r" "\<not> m_nextIndex r ! i \<le> m_lastSnapshotIncludeIndex r" for i
    using hb_args_wf[OF assms(1,2) that(1)] mem[OF that(1,2)] that(3)
    by (intro exI[of _ "hb_args r i"]) (simp add: hb_thread_def request_for_def, simp add: hb_args_def Let_def)
  have snap: "LeaderSendSnapShot (int i) \<in> set ts"
    if "i < length (m_peers r)" "int i \<noteq> m_me r" "m_nextIndex r ! i \<le> m_lastSnapshotIncludeIndex r" for i
    using mem[OF that(1,2)] that(3) by (simp add: hb_thread_def)
  show ?thesis
    using len req snap
    by (intro exI[of _ "r\<lparr>cells := cells r @ [1], m_lastResetHearBeatTime := now\<rparr>"] exI[of _ ts])
      (simp add: run)
qed

theorem doHeartBeat_contract_witness:
  "\<exists>r' ts. doHeartBeat 9 demo_node = Inr (r', ts) \<and> length ts = 2"
proof -
  have "leader_tables demo_node" "m_status demo_node = Leader"
    by (simp_all add: leader_tables_def last_log_defs demo_defs)
  from doHeartBeat_contract[OF demo_wf(1) this, of 9] show ?thesis
    by (auto simp: demo_defs)
qed

text \<open>
  C7: One heartbeat brings a matching follower up to the leader: if the
  follower's term at the request's start is the leader's and entries of equal index and term agree, then after
  handling the request the follower holds the leader's entries from the request's start to the end of the leader's
  log. What it held beyond that end stays in its log, also when it conflicts.
\<close>

theorem heartbeat_replicates:
  assumes "raft_wf f" and "raft_wf l" and "leader_tables l"
    and "i < length (m_peers l)" and "m_lastSnapshotIncludeIndex l < m_nextIndex l ! i"
    and "hb_peer l c i = Inr (SendAppendEntries (int i) args c)"
    and "m_currentTerm f \<le> m_currentTerm l" and "m_lastSnapshotIncludeIndex f \<le> m_nextIndex l ! i - 1"
    and "term_at f (m_nextIndex l ! i - 1) = term_at l (m_nextIndex l ! i - 1)"
    and "agrees f (aa_entries args)"
  shows "\<exists>reply f'. AppendEntries1 L now args f = Inr (reply, f') \<and> ar_success reply \<and> raft_wf f' \<and>
    (\<forall>j. m_nextIndex l ! i \<le> j \<and> j \<le> getLastLogIndex l \<longrightarrow> entry_at f' j = entry_at l j) \<and>
    (\<forall>j. j < m_nextIndex l ! i \<or> getLastLogIndex l < j \<longrightarrow> entry_at f' j = entry_at f j)"
proof -
  have "args = hb_args l i"
    using assms(5,6) hb_peer_spec[OF assms(2-4), of c] by (simp add: hb_thread_def)
  then show ?thesis using replicate_suffix[OF assms(1-5,7-9)] assms(10) by blast
qed

theorem heartbeat_replicates_witness:
  "\<exists>reply f'. AppendEntries1 demo_lib 5 demo_args demo_follower = Inr (reply, f') \<and>
     entry_at f' 3 = entry_at demo_node 3"
proof -
  have t: "leader_tables demo_node" by (simp add: leader_tables_def last_log_defs demo_defs)
  have h: "hb_args demo_node 1 = demo_args"
    by (simp add: hb_args_def demo_args_def demo_defs term_at_def entry_at_def Let_def)
  have n: "m_nextIndex demo_node ! 1 = 2" "1 < length (m_peers demo_node)"
    "m_lastSnapshotIncludeIndex demo_node < m_nextIndex demo_node ! 1" "getLastLogIndex demo_node = 3"
    by (simp_all add: demo_defs last_log_defs)
  have "hb_thread demo_node 0 1 = SendAppendEntries (int 1) demo_args 0" using n(3) h by (simp add: hb_thread_def)
  then have p: "hb_peer demo_node 0 1 = Inr (SendAppendEntries (int 1) demo_args 0)"
    using hb_peer_spec[OF demo_wf(1) t n(2), of 0] by simp
  have c: "m_currentTerm demo_follower \<le> m_currentTerm demo_node"
    "m_lastSnapshotIncludeIndex demo_follower \<le> m_nextIndex demo_node ! 1 - 1"
    "term_at demo_follower (m_nextIndex demo_node ! 1 - 1) = term_at demo_node (m_nextIndex demo_node ! 1 - 1)"
    by (simp_all add: demo_defs term_at_def entry_at_def Let_def)
  from heartbeat_replicates[OF demo_wf(2,1) t n(2,3) p c demo_args_ok(5), of demo_lib 5] n(1,4)
  show ?thesis by auto
qed

text \<open>
  When the logs differ at \<open>prevlogindex\<close>, the follower refuses, keeps its
  log, and names a next index that is not beyond the request's start, so that the leader's next attempt starts strictly
  earlier; every position from there to the request's start has the conflicting term.
\<close>

theorem AppendEntries1_backs_off:
  assumes "raft_wf r" and "m_currentTerm r \<le> aa_term args"
    and "m_lastSnapshotIncludeIndex r \<le> aa_prevlogindex args" and "aa_prevlogindex args \<le> getLastLogIndex r"
    and "term_at r (aa_prevlogindex args) \<noteq> Some (aa_prevlogterm args)"
  shows "\<exists>reply r'. AppendEntries1 L now args r = Inr (reply, r') \<and> \<not> ar_success reply \<and>
    m_logs r' = m_logs r \<and> m_commitIndex r' = m_commitIndex r \<and> ar_term reply = aa_term args \<and>
    m_lastSnapshotIncludeIndex r \<le> ar_updatenextindex reply \<and>
    ar_updatenextindex reply - 1 < aa_prevlogindex args \<and>
    same_term_run r (ar_updatenextindex reply) (aa_prevlogindex args)"
proof -
  obtain u where u: "AppendEntries1 L now args r =
      Inr (new_AppendEntriesReply\<lparr>ar_appstate := AppNormal, ar_updatenextindex := u,
             ar_success := False, ar_term := aa_term args\<rparr>, persist L (ae_enter now args r))"
    "m_lastSnapshotIncludeIndex r \<le> u" "u \<le> aa_prevlogindex args" "same_term_run r u (aa_prevlogindex args)"
    using AppendEntries1_mismatch[OF assms, of L now] by blast
  show ?thesis
    using u(2-4) by (simp add: u(1))
qed

theorem AppendEntries1_backs_off_witness:
  "\<exists>reply r'. AppendEntries1 demo_lib 5 (demo_args\<lparr>aa_term := 3, aa_prevlogindex := 2, aa_prevlogterm := 9\<rparr>)
     demo_node = Inr (reply, r') \<and> \<not> ar_success reply \<and> ar_updatenextindex reply \<le> 2"
proof -
  let ?a = "demo_args\<lparr>aa_term := 3, aa_prevlogindex := 2, aa_prevlogterm := 9\<rparr>"
  have "m_currentTerm demo_node \<le> aa_term ?a" "m_lastSnapshotIncludeIndex demo_node \<le> aa_prevlogindex ?a"
    "aa_prevlogindex ?a \<le> getLastLogIndex demo_node" "term_at demo_node (aa_prevlogindex ?a) \<noteq> Some (aa_prevlogterm ?a)"
    by (simp_all add: demo_args_def demo_defs last_log_defs term_at_def entry_at_def Let_def)
  from AppendEntries1_backs_off[OF demo_wf(1) this, of demo_lib 5] show ?thesis
    by (auto simp: demo_args_def)
qed

text \<open>
  A request of an accepted term that starts before the follower's snapshot
  stops the follower's process: the branch that prepares the refusal does not return, and \<open>matchLog\<close> asserts.
\<close>

theorem AppendEntries1_stops_before_snapshot:
  assumes "raft_wf r" and "m_currentTerm r \<le> aa_term args" and "aa_prevlogindex args < m_lastSnapshotIncludeIndex r"
  shows "AppendEntries1 L now args r = Inl AssertFail"
  by (rule AppendEntries1_before_snapshot[OF assms])

definition demo_compacted :: Raft where
  "demo_compacted = demo_follower\<lparr>m_logs := [], m_lastSnapshotIncludeIndex := 5, m_lastApplied := 5, m_commitIndex := 5\<rparr>"

theorem AppendEntries1_stops_before_snapshot_witness:
  "AppendEntries1 demo_lib 5 demo_args demo_compacted = Inl AssertFail"
proof (rule AppendEntries1_stops_before_snapshot)
  show "raft_wf demo_compacted" by (simp add: demo_compacted_def demo_defs raft_wf_def)
qed (simp_all add: demo_compacted_def demo_args_def demo_defs)


text \<open>
  C17: A reply moves the leader's commit index only forward, never beyond its
  log, and only when the reply is a success of the current term, the round's counter reaches a majority with it and
  the last entry of the request is of the leader's own term; the commit index then is the index of that entry.
\<close>

theorem commit_by_majority:
  assumes "raft_wf r" and "sendAppendEntries_end server args ok reply k r = Inr r'"
  shows "m_commitIndex r \<le> m_commitIndex r' \<and> m_commitIndex r' \<le> getLastLogIndex r' \<and>
    (m_commitIndex r' \<noteq> m_commitIndex r \<longrightarrow>
       m_status r = Leader \<and> ok \<and> ar_success reply \<and> ar_term reply = m_currentTerm r \<and>
       cells r ! k + 1 \<ge> int (length (m_peers r) div 2) + 1 \<and>
       m_commitIndex r' = aa_prevlogindex args + int (length (aa_entries args)) \<and>
       logterm (last (aa_entries args)) = m_currentTerm r)"
proof -
  have "m_commitIndex r' \<le> getLastLogIndex r'"
    using sendAppendEntries_wf[OF assms(2,1)] raft_wf_last[of r'] by (simp add: raft_wf_def)
  moreover have "ok" if "r' \<noteq> r" using assms(2) that by (cases ok) (simp_all add: sendAppendEntries_end_def)
  ultimately show ?thesis using sendAppendEntries_commit[OF assms(2)] by auto
qed

theorem commit_by_majority_witness:
  "\<exists>r'. sendAppendEntries_end 1 demo_args True
      (new_AppendEntriesReply\<lparr>ar_term := 2, ar_success := True, ar_appstate := AppNormal\<rparr>) 1 demo_node = Inr r' \<and>
     m_commitIndex r' = 3 \<and> m_commitIndex r' \<le> getLastLogIndex r'"
proof -
  let ?reply = "new_AppendEntriesReply\<lparr>ar_term := 2, ar_success := True, ar_appstate := AppNormal\<rparr>"
  obtain r' where r': "sendAppendEntries_end 1 demo_args True ?reply 1 demo_node = Inr r'" "m_commitIndex r' = 3"
    by (simp add: sendAppendEntries_end_def count_ack_def demo_args_def demo_defs last_log_defs Let_def
        AppNormal_def Disconnected_def vec_at_def vec_set_def)
  from commit_by_majority[OF demo_wf(1) r'(1)] r' show ?thesis by blast
qed



text \<open>
  A reply with a newer term makes the leader a follower of that term in
  memory only: the bytes on its disk still hold the old term, so the node is out of step with what it would restore.
\<close>

theorem newer_term_not_saved:
  assumes "lib_ok L" and "persisted L r" and "m_currentTerm r < ar_term reply" and "ar_appstate reply \<noteq> Disconnected"
  shows "\<exists>r'. sendAppendEntries_end server args True reply k r = Inr r' \<and> m_currentTerm r' = ar_term reply \<and>
    m_persister r' = m_persister r \<and> \<not> persisted L r'"
proof -
  let ?r = "r\<lparr>m_status := Follower, m_currentTerm := ar_term reply, m_votedFor := -1\<rparr>"
  have "node_image L ?r \<noteq> node_image L r" using assms(3) by (simp add: node_image_def)
  then have "persistData L ?r \<noteq> persistData L r"
    using assms(1) unfolding persistData_def lib_ok_def by (metis option.inject)
  then show ?thesis
    using assms(2-4) by (simp add: sendAppendEntries_end_def persisted_def)
qed

theorem newer_term_not_saved_witness:
  "\<exists>r'. sendAppendEntries_end 1 demo_args True
      (new_AppendEntriesReply\<lparr>ar_term := 7, ar_appstate := AppNormal\<rparr>) 1 (persist demo_lib demo_node) = Inr r' \<and>
     m_currentTerm r' = 7 \<and> \<not> persisted demo_lib r'"
proof -
  have "persisted demo_lib (persist demo_lib demo_node)" by (rule persisted_persist) (simp add: demo_node_def)
  from newer_term_not_saved[OF demo_lib_ok this, of "new_AppendEntriesReply\<lparr>ar_term := 7, ar_appstate := AppNormal\<rparr>" 1 demo_args 1]
  show ?thesis by (auto simp: demo_node_def AppNormal_def Disconnected_def)
qed

end
