(* ===== verification/RaftSnapshot.thy ===== *)
theory RaftSnapshot
  imports RaftLeader
begin

text \<open>
  Snapshots and start-up in raft.cpp: \<open>Snapshot\<close> (compaction, called by the key-value
  server), \<open>InstallSnapshot\<close> on a follower, \<open>leaderSendSnapShot\<close> on the leader,
  \<open>CondInstallSnapshot\<close>, \<open>pushMsgToKvServer\<close> and \<open>init\<close>.

  \<open>leaderSendSnapShot_begin\<close> and \<open>leaderSendSnapShot_end\<close> are the parts of the function
  before and after its remote call. Compaction is specified on the abstract log: the
  entries after the snapshot position are untouched, those up to it are gone, and the
  term at the position is remembered.
\<close>

section \<open>Operations\<close>

text \<open>The loop that copies the entries to keep.\<close>

fun collect_logs :: "Raft \<Rightarrow> int list \<Rightarrow> LogEntry list res" where
  "collect_logs r [] = Inr []"
| "collect_logs r (i # is) = bindr (log_at r i) (\<lambda>e. bindr (collect_logs r is) (\<lambda>es. Inr (e # es)))"

definition Raft_Snapshot :: "lib \<Rightarrow> int \<Rightarrow> string \<Rightarrow> Raft \<Rightarrow> Raft res" where
  "Raft_Snapshot L index snapshot r =
     (if m_lastSnapshotIncludeIndex r \<ge> index \<or> index > m_commitIndex r then Inr r
      else
        let lastLogIndex = getLastLogIndex r in
        bindr (log_at r index) (\<lambda>e.
        bindr (collect_logs r [index + 1..getLastLogIndex r]) (\<lambda>trunckedLogs.
        let r1 = r\<lparr>m_lastSnapshotIncludeIndex := index, m_lastSnapshotIncludeTerm := logterm e,
                   m_logs := trunckedLogs, m_commitIndex := max (m_commitIndex r) index,
                   m_lastApplied := max (m_lastApplied r) index\<rparr>;
            r2 = r1\<lparr>m_persister := Save (lib_spill L) (persistData L r1) snapshot (m_persister r1)\<rparr> in
        bindr (myAssert (int (length (m_logs r2)) + m_lastSnapshotIncludeIndex r2 = lastLogIndex)) (\<lambda>_.
        Inr r2))))"

definition InstallSnapshot ::
  "lib \<Rightarrow> int \<Rightarrow> InstallSnapshotRequest \<Rightarrow> Raft \<Rightarrow> (InstallSnapshotResponse \<times> Raft \<times> thread list) res" where
  "InstallSnapshot L now args r =
     (let reply = new_InstallSnapshotResponse in
      if sa_term args < m_currentTerm r then Inr (reply\<lparr>sr_term := m_currentTerm r\<rparr>, r, [])
      else
        let r1 = (if sa_term args > m_currentTerm r
                  then persist L (r\<lparr>m_currentTerm := sa_term args, m_votedFor := -1, m_status := Follower\<rparr>)
                  else r);
            r2 = r1\<lparr>m_status := Follower, m_lastResetElectionTime := now\<rparr>;
            idx = sa_lastsnapshotincludeindex args in
        if idx \<le> m_lastSnapshotIncludeIndex r2 then Inr (reply, r2, [])
        else
          bindr (if getLastLogIndex r2 > idx
                 then bindr (getSlicesIndexFromLogIndex r2 idx) (\<lambda>k. Inr (drop (nat (k + 1)) (m_logs r2)))
                 else Inr []) (\<lambda>logs.
          let r3 = r2\<lparr>m_logs := logs, m_commitIndex := max (m_commitIndex r2) idx,
                      m_lastApplied := max (m_lastApplied r2) idx,
                      m_lastSnapshotIncludeIndex := idx,
                      m_lastSnapshotIncludeTerm := sa_lastsnapshotincludeterm args\<rparr>;
              msg = new_ApplyMsg\<lparr>SnapshotValid := True, Snapshot := sa_data args,
                      SnapshotTerm := sa_lastsnapshotincludeterm args, SnapshotIndex := idx\<rparr>;
              r4 = r3\<lparr>m_persister := Save (lib_spill L) (persistData L r3) (sa_data args) (m_persister r3)\<rparr> in
          Inr (reply\<lparr>sr_term := m_currentTerm r3\<rparr>, r4, [PushMsgToKvServer msg])))"

definition leaderSendSnapShot_begin :: "Raft \<Rightarrow> InstallSnapshotRequest \<times> Raft" where
  "leaderSendSnapShot_begin r =
     (let (snap, p) = ReadSnapshot (m_persister r) in
      (\<lparr>sa_leaderid = m_me r, sa_term = m_currentTerm r,
        sa_lastsnapshotincludeindex = m_lastSnapshotIncludeIndex r,
        sa_lastsnapshotincludeterm = m_lastSnapshotIncludeTerm r, sa_data = snap\<rparr>,
       r\<lparr>m_persister := p\<rparr>))"

definition leaderSendSnapShot_end ::
  "lib \<Rightarrow> int \<Rightarrow> int \<Rightarrow> InstallSnapshotRequest \<Rightarrow> bool \<Rightarrow> InstallSnapshotResponse \<Rightarrow> Raft \<Rightarrow> Raft res" where
  "leaderSendSnapShot_end L now server args ok reply r =
     (if \<not> ok then Inr r
      else if m_status r \<noteq> Leader \<or> m_currentTerm r \<noteq> sa_term args then Inr r
      else if sr_term reply > m_currentTerm r then
        Inr ((persist L (r\<lparr>m_currentTerm := sr_term reply, m_votedFor := -1, m_status := Follower\<rparr>))
               \<lparr>m_lastResetElectionTime := now\<rparr>)
      else
        bindr (vec_set (m_matchIndex r) server (sa_lastsnapshotincludeindex args)) (\<lambda>ms.
        bindr (vec_set (m_nextIndex r) server (sa_lastsnapshotincludeindex args + 1)) (\<lambda>ni.
        Inr (r\<lparr>m_matchIndex := ms, m_nextIndex := ni\<rparr>))))"

definition pushMsgToKvServer :: "ApplyMsg \<Rightarrow> Raft \<Rightarrow> Raft" where
  "pushMsgToKvServer msg r = r\<lparr>applyChan := Push msg (applyChan r)\<rparr>"

definition CondInstallSnapshot :: "int \<Rightarrow> int \<Rightarrow> string \<Rightarrow> bool" where
  "CondInstallSnapshot lastIncludedTerm lastIncludedIndex snapshot = True"

definition raft_init ::
  "lib \<Rightarrow> int \<Rightarrow> (string \<times> 16 word) option list \<Rightarrow> int \<Rightarrow> Persister \<Rightarrow> ApplyMsg LockQueue \<Rightarrow> Raft res" where
  "raft_init L now peers me persister applyCh =
     (let r0 = \<lparr>m_peers = peers, m_persister = persister, m_me = me, m_currentTerm = 0,
                m_votedFor = -1, m_logs = [], m_commitIndex = 0, m_lastApplied = 0,
                m_nextIndex = replicate (length peers) 0, m_matchIndex = replicate (length peers) 0,
                m_status = Follower, applyChan = applyCh, m_lastResetElectionTime = now,
                m_lastResetHearBeatTime = now, m_lastSnapshotIncludeIndex = 0,
                m_lastSnapshotIncludeTerm = 0, cells = []\<rparr> in
      bindr (readPersist L (ReadRaftState persister) r0) (\<lambda>r1.
      Inr (if m_lastSnapshotIncludeIndex r1 > 0
           then r1\<lparr>m_lastApplied := m_lastSnapshotIncludeIndex r1\<rparr> else r1)))"

section \<open>Lemmas: compaction\<close>

lemma collect_logs_spec:
  assumes idx: "indexed_from (m_lastSnapshotIncludeIndex r) (m_logs r)"
  shows "m_lastSnapshotIncludeIndex r < i \<Longrightarrow> i \<le> getLastLogIndex r + 1 \<Longrightarrow>
    collect_logs r [i..getLastLogIndex r]
      = Inr (drop (nat (i - m_lastSnapshotIncludeIndex r - 1)) (m_logs r))"
proof (induction "nat (getLastLogIndex r + 1 - i)" arbitrary: i)
  case 0
  then show ?case using last_index_eq[OF idx] by simp
next
  case (Suc n)
  define k where "k = nat (i - m_lastSnapshotIncludeIndex r - 1)"
  have le: "i \<le> getLastLogIndex r" using Suc.hyps(2) by simp
  have k: "k < length (m_logs r)" "nat (i + 1 - m_lastSnapshotIncludeIndex r - 1) = Suc k"
    using Suc.prems(1) le last_index_eq[OF idx] by (auto simp: k_def)
  have "log_at r i = Inr (m_logs r ! k)"
    using log_at_in_range[OF idx Suc.prems(1) le] by (simp add: k_def)
  moreover have "collect_logs r [i + 1..getLastLogIndex r] = Inr (drop (Suc k) (m_logs r))"
    using Suc.hyps(1)[of "i + 1"] Suc.hyps(2) Suc.prems le k(2) by simp
  moreover have "[i..getLastLogIndex r] = i # [i + 1..getLastLogIndex r]"
    using le by (simp add: upto_rec1)
  ultimately show ?case using k(1) by (simp add: Cons_nth_drop_Suc k_def[symmetric])
qed

lemma Raft_Snapshot_ignored:
  "index \<le> m_lastSnapshotIncludeIndex r \<or> m_commitIndex r < index \<Longrightarrow> Raft_Snapshot L index s r = Inr r"
  by (auto simp: Raft_Snapshot_def)

lemma Raft_Snapshot_spec:
  assumes wf: "raft_wf r"
    and rng: "m_lastSnapshotIncludeIndex r < index" "index \<le> m_commitIndex r"
  shows "\<exists>r'. Raft_Snapshot L index s r = Inr r' \<and> raft_wf r' \<and>
    m_lastSnapshotIncludeIndex r' = index \<and> getLastLogIndex r' = getLastLogIndex r \<and>
    (\<forall>i. entry_at r' i = (if index < i then entry_at r i else None)) \<and>
    term_at r' index = term_at r index \<and> m_commitIndex r' = m_commitIndex r \<and>
    m_lastApplied r' = max (m_lastApplied r) index \<and>
    (usable (m_persister r) \<longrightarrow> persisted L r' \<and> stored_snapshot (m_persister r') = s \<and>
       usable (m_persister r'))"
proof -
  have idx: "indexed_from (m_lastSnapshotIncludeIndex r) (m_logs r)" using wf by (simp add: raft_wf_def)
  have le: "index \<le> getLastLogIndex r" using rng(2) wf raft_wf_last[OF wf] by (simp add: raft_wf_def)
  define n where "n = nat (index - m_lastSnapshotIncludeIndex r)"
  have n: "index = m_lastSnapshotIncludeIndex r + int n" "0 < n" "n \<le> length (m_logs r)"
    using rng le last_index_eq[OF idx] by (auto simp: n_def)
  obtain e where e: "log_at r index = Inr e" "entry_at r index = Some e"
    using log_at_entry[OF idx rng(1) le] by auto
  have col: "collect_logs r [index + 1..getLastLogIndex r] = Inr (drop n (m_logs r))"
    using collect_logs_spec[OF idx, of "index + 1"] rng(1) le by (simp add: n_def)
  define r1 where "r1 = r\<lparr>m_lastSnapshotIncludeIndex := index, m_lastSnapshotIncludeTerm := logterm e,
                   m_logs := drop n (m_logs r), m_commitIndex := max (m_commitIndex r) index,
                   m_lastApplied := max (m_lastApplied r) index\<rparr>"
  define r2 where "r2 = r1\<lparr>m_persister := Save (lib_spill L) (persistData L r1) s (m_persister r1)\<rparr>"
  have wf2: "raft_wf r2"
    using wf rng indexed_from_drop[OF idx n(3)] n
    by (auto simp: raft_wf_def r2_def r1_def max_def)
  have last2: "getLastLogIndex r2 = getLastLogIndex r"
    using raft_wf_last[OF wf2] raft_wf_last[OF wf] n by (simp add: r2_def r1_def)
  have run: "Raft_Snapshot L index s r = Inr r2"
    using rng e col n last_index_eq[OF idx] by (simp add: Raft_Snapshot_def Let_def r2_def r1_def)
  have ent: "entry_at r2 i = (if index < i then entry_at r i else None)" for i
    using n by (auto simp: entry_at_def Let_def r2_def r1_def nth_drop nat_diff_distrib
        intro!: arg_cong[of _ _ "nth (m_logs r)"])
  have pd: "persistData L r2 = persistData L r1" by (rule persistData_cong) (simp_all add: r2_def)
  have stored: "persisted L r2 \<and> stored_snapshot (m_persister r2) = s \<and> usable (m_persister r2)"
    if "usable (m_persister r)"
  proof -
    have "usable (m_persister r1)" using that by (simp add: r1_def)
    then show ?thesis unfolding persisted_def pd by (simp add: r2_def ps.storage_simps)
  qed
  have "term_at r2 index = term_at r index"
    using e(2) rng(1) by (simp add: term_at_def r2_def r1_def)
  then show ?thesis
    using run wf2 last2 ent stored rng(2)
    by (intro exI[of _ r2]) (simp add: r2_def r1_def max_absorb1)
qed

section \<open>Lemmas: installing a snapshot\<close>

lemma InstallSnapshot_stale:
  "sa_term args < m_currentTerm r \<Longrightarrow>
   InstallSnapshot L now args r = Inr (new_InstallSnapshotResponse\<lparr>sr_term := m_currentTerm r\<rparr>, r, [])"
  by (simp add: InstallSnapshot_def Let_def)

lemma InstallSnapshot_vote_frame:
  assumes "InstallSnapshot L now args r = Inr (reply, r', ts)"
  shows "vote_frame r r' \<and> cells r' = cells r"
  using assms
  by (auto simp: InstallSnapshot_def Let_def bindr_eq_Inr vote_frame_def split: if_splits)

lemma leaderSendSnapShot_end_vote_frame:
  assumes "leaderSendSnapShot_end L now server args ok reply r = Inr r'"
  shows "vote_frame r r' \<and> cells r' = cells r"
  using assms
  by (auto simp: leaderSendSnapShot_end_def bindr_eq_Inr vote_frame_def split: if_splits)

lemma leaderSendSnapShot_begin_fields:
  "snd (leaderSendSnapShot_begin r) = r\<lparr>m_persister := snd (ReadSnapshot (m_persister r))\<rparr>"
  by (simp add: leaderSendSnapShot_begin_def split: prod.splits)

lemma Raft_Snapshot_vote_frame:
  assumes "Raft_Snapshot L index s r = Inr r'"
  shows "vote_frame r r' \<and> cells r' = cells r"
  using assms by (auto simp: Raft_Snapshot_def Let_def bindr_eq_Inr vote_frame_def split: if_splits)

section \<open>Lemmas: start-up\<close>

lemma raft_init_fresh:
  assumes "ReadRaftState persister = []"
  shows "raft_init L now peers me persister applyCh =
    Inr \<lparr>m_peers = peers, m_persister = persister, m_me = me, m_currentTerm = 0,
         m_votedFor = -1, m_logs = [], m_commitIndex = 0, m_lastApplied = 0,
         m_nextIndex = replicate (length peers) 0, m_matchIndex = replicate (length peers) 0,
         m_status = Follower, applyChan = applyCh, m_lastResetElectionTime = now,
         m_lastResetHearBeatTime = now, m_lastSnapshotIncludeIndex = 0,
         m_lastSnapshotIncludeTerm = 0, cells = []\<rparr>"
  using assms by (simp add: raft_init_def readPersist_def Let_def)

section \<open>Properties\<close>

text \<open>
  C19: \<open>Snapshot\<close> up to a committed index compacts the log: entries after
  the index and the term at it are what they were, entries up to it are gone, the end of the log and the commit index do not move,
  and the disk holds the new state together with the snapshot. Any other index is ignored.
\<close>

theorem Raft_Snapshot_compacts:
  assumes "raft_wf r" and "usable (m_persister r)"
  shows "\<exists>r'. Raft_Snapshot L index s r = Inr r' \<and> raft_wf r' \<and>
    getLastLogIndex r' = getLastLogIndex r \<and> m_commitIndex r' = m_commitIndex r \<and>
    (if m_lastSnapshotIncludeIndex r < index \<and> index \<le> m_commitIndex r
     then m_lastSnapshotIncludeIndex r' = index \<and> term_at r' index = term_at r index \<and>
       (\<forall>i. entry_at r' i = (if index < i then entry_at r i else None)) \<and>
       m_lastApplied r' = max (m_lastApplied r) index \<and>
       persisted L r' \<and> stored_snapshot (m_persister r') = s
     else r' = r)"
proof (cases "m_lastSnapshotIncludeIndex r < index \<and> index \<le> m_commitIndex r")
  case True
  then show ?thesis using Raft_Snapshot_spec[OF assms(1), of index L s] assms(2) by auto
next
  case False
  then have "Raft_Snapshot L index s r = Inr r" by (intro Raft_Snapshot_ignored) auto
  then show ?thesis using assms(1) False by auto
qed

theorem Raft_Snapshot_compacts_witness:
  "\<exists>r'. Raft_Snapshot demo_lib 2 ''snap'' demo_node = Inr r' \<and> m_lastSnapshotIncludeIndex r' = 2 \<and>
     entry_at r' 3 = Some \<lparr>command = ''c'', logterm = 2, logindex = 3\<rparr> \<and> entry_at r' 2 = None"
proof -
  have u: "usable (m_persister demo_node)" by (simp add: demo_node_def)
  have r: "m_lastSnapshotIncludeIndex demo_node < 2 \<and> 2 \<le> m_commitIndex demo_node"
    "entry_at demo_node 3 = Some \<lparr>command = ''c'', logterm = 2, logindex = 3\<rparr>"
    by (simp_all add: demo_defs entry_at_def Let_def)
  from Raft_Snapshot_compacts[OF demo_wf(1) u, of demo_lib 2 "''snap''"] show ?thesis using r by auto
qed

text \<open>
  C20: A follower that accepts a snapshot newer than its own ends up at that snapshot:
  positions up to its index are gone, its own entries after the index stay, commit and applied index are at
  least the snapshot's, state and snapshot are on its disk, and its server is told of the snapshot by one message.
\<close>

theorem InstallSnapshot_installs:
  assumes wf: "raft_wf r" and u: "usable (m_persister r)" and acc: "m_currentTerm r \<le> sa_term args"
    and new: "m_lastSnapshotIncludeIndex r < sa_lastsnapshotincludeindex args"
  shows "\<exists>reply r' msg. InstallSnapshot L now args r = Inr (reply, r', [PushMsgToKvServer msg]) \<and>
    sr_term reply = sa_term args \<and> m_currentTerm r' = sa_term args \<and> m_status r' = Follower \<and>
    m_lastSnapshotIncludeIndex r' = sa_lastsnapshotincludeindex args \<and>
    term_at r' (sa_lastsnapshotincludeindex args) = Some (sa_lastsnapshotincludeterm args) \<and>
    (\<forall>i. entry_at r' i = (if sa_lastsnapshotincludeindex args < i then entry_at r i else None)) \<and>
    sa_lastsnapshotincludeindex args \<le> m_lastApplied r' \<and> m_commitIndex r \<le> m_commitIndex r' \<and>
    SnapshotValid msg \<and> Snapshot msg = sa_data args \<and> SnapshotIndex msg = sa_lastsnapshotincludeindex args \<and>
    persisted L r' \<and> stored_snapshot (m_persister r') = sa_data args"
proof -
  let ?idx = "sa_lastsnapshotincludeindex args"
  have idx: "indexed_from (m_lastSnapshotIncludeIndex r) (m_logs r)" using wf by (simp add: raft_wf_def)
  define r1 where "r1 = (if sa_term args > m_currentTerm r
    then persist L (r\<lparr>m_currentTerm := sa_term args, m_votedFor := -1, m_status := Follower\<rparr>) else r)"
  define r2 where "r2 = r1\<lparr>m_status := Follower, m_lastResetElectionTime := now\<rparr>"
  have f2: "m_currentTerm r2 = sa_term args" "m_logs r2 = m_logs r" "m_commitIndex r2 = m_commitIndex r"
    "m_lastApplied r2 = m_lastApplied r" "m_lastSnapshotIncludeIndex r2 = m_lastSnapshotIncludeIndex r"
    "m_status r2 = Follower" "usable (m_persister r2)"
    using acc u by (auto simp: r2_def r1_def)
  have last2: "getLastLogIndex r2 = m_lastSnapshotIncludeIndex r + int (length (m_logs r))"
    using last_index_eq[of r2] idx f2 by simp
  define logs where "logs = drop (nat (?idx - m_lastSnapshotIncludeIndex r)) (m_logs r)"
  have sel: "(if getLastLogIndex r2 > ?idx
      then bindr (getSlicesIndexFromLogIndex r2 ?idx) (\<lambda>k. Inr (drop (nat (k + 1)) (m_logs r2))) else Inr []) = Inr logs"
    using new last2 f2 by (auto simp: logs_def slices_in_range)
  define r3 where "r3 = r2\<lparr>m_logs := logs, m_commitIndex := max (m_commitIndex r2) ?idx,
    m_lastApplied := max (m_lastApplied r2) ?idx, m_lastSnapshotIncludeIndex := ?idx,
    m_lastSnapshotIncludeTerm := sa_lastsnapshotincludeterm args\<rparr>"
  define r4 where "r4 = r3\<lparr>m_persister := Save (lib_spill L) (persistData L r3) (sa_data args) (m_persister r3)\<rparr>"
  define msg where "msg = new_ApplyMsg\<lparr>SnapshotValid := True, Snapshot := sa_data args,
    SnapshotTerm := sa_lastsnapshotincludeterm args, SnapshotIndex := ?idx\<rparr>"
  have nold: "\<not> ?idx \<le> m_lastSnapshotIncludeIndex r2" and nst: "\<not> sa_term args < m_currentTerm r"
    using new f2 acc by auto
  have run: "InstallSnapshot L now args r =
      Inr (new_InstallSnapshotResponse\<lparr>sr_term := m_currentTerm r3\<rparr>, r4, [PushMsgToKvServer msg])"
    unfolding InstallSnapshot_def Let_def if_not_P[OF nst] r1_def[symmetric] r2_def[symmetric]
      if_not_P[OF nold] sel bindr_Inr r3_def[symmetric] r4_def[symmetric] msg_def[symmetric] ..
  have "persistData L r4 = persistData L r3" by (rule persistData_cong) (simp_all add: r4_def)
  moreover have "usable (m_persister r3)" using f2 by (simp add: r3_def)
  ultimately have st: "persisted L r4 \<and> stored_snapshot (m_persister r4) = sa_data args"
    unfolding persisted_def by (simp add: r4_def ps.storage_simps)
  have ent: "entry_at r4 i = (if ?idx < i then entry_at r i else None)" for i
    using new by (auto simp: entry_at_def Let_def r4_def r3_def logs_def nth_drop nat_diff_distrib
        intro!: arg_cong[of _ _ "nth (m_logs r)"])
  show ?thesis
    using run st ent f2
    by (intro exI[of _ "new_InstallSnapshotResponse\<lparr>sr_term := m_currentTerm r3\<rparr>"] exI[of _ r4] exI[of _ msg])
      (simp add: r4_def r3_def msg_def term_at_def)
qed

theorem InstallSnapshot_installs_witness:
  "\<exists>reply r' msg. InstallSnapshot demo_lib 9 \<lparr>sa_leaderid = 0, sa_term = 2, sa_lastsnapshotincludeindex = 2,
     sa_lastsnapshotincludeterm = 1, sa_data = ''snap''\<rparr> demo_follower = Inr (reply, r', [PushMsgToKvServer msg]) \<and>
     m_lastSnapshotIncludeIndex r' = 2 \<and> stored_snapshot (m_persister r') = ''snap''"
proof -
  let ?a = "\<lparr>sa_leaderid = 0, sa_term = 2, sa_lastsnapshotincludeindex = 2,
     sa_lastsnapshotincludeterm = 1, sa_data = ''snap''\<rparr>"
  have "usable (m_persister demo_follower)" "m_currentTerm demo_follower \<le> sa_term ?a"
    "m_lastSnapshotIncludeIndex demo_follower < sa_lastsnapshotincludeindex ?a"
    by (simp_all add: demo_follower_def)
  from InstallSnapshot_installs[OF demo_wf(2) this, of demo_lib 9] show ?thesis by auto
qed

text \<open>
  C22: A restart forgets everything: whatever the previous process saved, the
  constructor of \<open>Persister\<close> empties both files before \<open>init\<close> reads them, so the node comes back in term 0, without
  a vote and with an empty log.
\<close>

theorem restart_forgets:
  assumes "delete_Persister p = (rf, sf)"
  shows "\<exists>r. raft_init L now peers me (new_Persister rf sf) q = Inr r \<and> m_currentTerm r = 0 \<and>
    m_votedFor r = -1 \<and> m_logs r = [] \<and> m_lastSnapshotIncludeIndex r = 0"
  by (simp add: raft_init_fresh ReadRaftState_new_Persister)

theorem restart_forgets_witness:
  "\<exists>r. raft_init demo_lib 0 demo_peers 0
      (case delete_Persister (m_persister (persist demo_lib demo_node)) of (rf, sf) \<Rightarrow> new_Persister rf sf)
      empty_queue = Inr r \<and> m_currentTerm r = 0 \<and> m_votedFor r = -1"
  using restart_forgets[OF surjective_pairing, of demo_lib 0 demo_peers 0 "m_persister (persist demo_lib demo_node)" empty_queue]
  by (auto simp: split_beta)

text \<open>
  C23: Sending a snapshot destroys it: \<open>ReadSnapshot\<close> reopens the output
  stream, which empties the file, so a second transfer of the same snapshot (to another follower, or a retry) carries no data.
\<close>

theorem snapshot_sent_once:
  assumes "usable (m_persister r)" and "leaderSendSnapShot_begin r = (args, r')"
  shows "sa_data args = read_word (stored_snapshot (m_persister r)) \<and>
    (\<exists>args'. fst (leaderSendSnapShot_begin r') = args' \<and> sa_data args' = [] \<and>
       sa_lastsnapshotincludeindex args' = sa_lastsnapshotincludeindex args)"
proof -
  have r': "r' = r\<lparr>m_persister := snd (ReadSnapshot (m_persister r))\<rparr>"
    and a: "sa_data args = fst (ReadSnapshot (m_persister r))"
      "sa_lastsnapshotincludeindex args = m_lastSnapshotIncludeIndex r"
    using assms(2) by (auto simp: leaderSendSnapShot_begin_def split: prod.splits)
  have "usable (m_persister r')" using usable_ReadSnapshot[OF assms(1)] by (simp add: r')
  moreover have "stored_snapshot (m_persister r') = []" using stored_ReadSnapshot(1)[OF assms(1)] by (simp add: r')
  ultimately have "fst (ReadSnapshot (m_persister r')) = []" by (simp add: ReadSnapshot_usable read_word_def)
  then have "sa_data (fst (leaderSendSnapShot_begin r')) = []"
    by (simp add: leaderSendSnapShot_begin_def split_beta)
  then show ?thesis
    using a ReadSnapshot_usable[OF assms(1)]
    by (simp add: leaderSendSnapShot_begin_def split_beta r')
qed

theorem snapshot_sent_once_witness:
  "\<exists>args r'. leaderSendSnapShot_begin demo_node = (args, r') \<and> sa_data (fst (leaderSendSnapShot_begin r')) = []"
proof -
  obtain args r' where b: "leaderSendSnapShot_begin demo_node = (args, r')" by (cases "leaderSendSnapShot_begin demo_node")
  have "usable (m_persister demo_node)" by (simp add: demo_node_def)
  from snapshot_sent_once[OF this b] b show ?thesis by auto
qed

end
