(* ===== verification/Cluster.thy ===== *)
theory Cluster
  imports RaftSnapshot "HOL-Library.Multiset"
begin

text \<open>
  Several Raft nodes, the threads they have started and the messages in flight, as a
  transition system.

  A step is one critical section of raft.cpp: a timer round, the handler of a remote
  call, the part of a sender thread before or after its call. Everything that has been
  started and has not finished is an element of the multiset \<open>wires\<close>, so steps of
  different nodes and threads interleave in every order, a message may be overtaken, and it may
  be lost (\<open>lose\<close>: the call returns false and the sender does nothing; a started thread
  that never gets to run is covered too). A round of \<open>applierTicker\<close> is several steps,
  one to collect the messages under the mutex and one per \<open>Push\<close> after it. A node may stop
  at any time (\<open>halt\<close>); that includes the failed assertions, which end the process. A
  restart is not a step: see \<open>RaftSnapshot\<close> for what a restart forgets.

  A call is handed the reply to its own request. \<open>ballots\<close> is a history variable: every
  vote a node has ever held, with its term. No function of the code reads it.
\<close>

section \<open>State\<close>

datatype wire =
  Task nat thread
| VoteReply nat int RequestVoteArgs nat RequestVoteReply
| AppendReply nat int AppendEntriesArgs nat AppendEntriesReply
| SnapCall nat int InstallSnapshotRequest
| SnapReply nat int InstallSnapshotRequest InstallSnapshotResponse
| Applying nat "ApplyMsg list"

record cluster =
  procs :: "Raft list"
  wires :: "wire multiset"
  halted :: "nat set"
  ballots :: "(int \<times> nat \<times> int) set"

definition running :: "nat \<Rightarrow> cluster \<Rightarrow> bool" where
  "running i s \<longleftrightarrow> i < length (procs s) \<and> i \<notin> halted s"

definition put :: "nat \<Rightarrow> Raft \<Rightarrow> cluster \<Rightarrow> cluster" where
  "put i r s = s\<lparr>procs := (procs s)[i := r],
     ballots := (if m_votedFor r = -1 then ballots s
                 else insert (m_currentTerm r, i, m_votedFor r) (ballots s))\<rparr>"

definition spawn :: "wire list \<Rightarrow> cluster \<Rightarrow> cluster" where
  "spawn ws s = s\<lparr>wires := wires s + mset ws\<rparr>"

definition take_wire :: "wire \<Rightarrow> cluster \<Rightarrow> cluster" where
  "take_wire w s = s\<lparr>wires := wires s - {#w#}\<rparr>"

definition cluster_start :: "lib \<Rightarrow> cluster \<Rightarrow> bool" where
  "cluster_start L s \<longleftrightarrow> wires s = {#} \<and> ballots s = {} \<and>
     (\<forall>i < length (procs s). \<exists>now peers rf sf q.
        length peers = length (procs s) \<and>
        raft_init L now peers (int i) (new_Persister rf sf) q = Inr (procs s ! i))"

section \<open>Steps\<close>

inductive step :: "lib \<Rightarrow> cluster \<Rightarrow> cluster \<Rightarrow> bool" for L where
  election: "running i s \<Longrightarrow> electionTimeOutTicker L wakeTime now (procs s ! i) = (r, ts) \<Longrightarrow>
    step L s (spawn (map (Task i) ts) (put i r s))"
| vote: "Task i (SendRequestVote j args k) \<in># wires s \<Longrightarrow> 0 \<le> j \<Longrightarrow> running (nat j) s \<Longrightarrow>
    RequestVote L now args (procs s ! nat j) = Inr (reply, r) \<Longrightarrow>
    step L s (spawn [VoteReply i j args k reply]
      (put (nat j) r (take_wire (Task i (SendRequestVote j args k)) s)))"
| vote_end: "VoteReply i j args k reply \<in># wires s \<Longrightarrow> running i s \<Longrightarrow>
    sendRequestVote_end L True reply k (procs s ! i) = Inr (r, ts) \<Longrightarrow>
    step L s (spawn (map (Task i) ts) (put i r (take_wire (VoteReply i j args k reply) s)))"
| heartbeat: "running i s \<Longrightarrow> leaderHearBeatTicker wakeTime now (procs s ! i) = Inr (r, ts) \<Longrightarrow>
    step L s (spawn (map (Task i) ts) (put i r s))"
| first_heartbeat: "Task i DoHeartBeat \<in># wires s \<Longrightarrow> running i s \<Longrightarrow>
    doHeartBeat now (procs s ! i) = Inr (r, ts) \<Longrightarrow>
    step L s (spawn (map (Task i) ts) (put i r (take_wire (Task i DoHeartBeat) s)))"
| append: "Task i (SendAppendEntries j args k) \<in># wires s \<Longrightarrow> 0 \<le> j \<Longrightarrow> running (nat j) s \<Longrightarrow>
    AppendEntries1 L now args (procs s ! nat j) = Inr (reply, r) \<Longrightarrow>
    step L s (spawn [AppendReply i j args k reply]
      (put (nat j) r (take_wire (Task i (SendAppendEntries j args k)) s)))"
| append_end: "AppendReply i j args k reply \<in># wires s \<Longrightarrow> running i s \<Longrightarrow>
    sendAppendEntries_end j args True reply k (procs s ! i) = Inr r \<Longrightarrow>
    step L s (put i r (take_wire (AppendReply i j args k reply) s))"
| snap_begin: "Task i (LeaderSendSnapShot j) \<in># wires s \<Longrightarrow> running i s \<Longrightarrow>
    leaderSendSnapShot_begin (procs s ! i) = (args, r) \<Longrightarrow>
    step L s (spawn [SnapCall i j args] (put i r (take_wire (Task i (LeaderSendSnapShot j)) s)))"
| snap: "SnapCall i j args \<in># wires s \<Longrightarrow> 0 \<le> j \<Longrightarrow> running (nat j) s \<Longrightarrow>
    InstallSnapshot L now args (procs s ! nat j) = Inr (reply, r, ts) \<Longrightarrow>
    step L s (spawn (SnapReply i j args reply # map (Task (nat j)) ts)
      (put (nat j) r (take_wire (SnapCall i j args) s)))"
| snap_end: "SnapReply i j args reply \<in># wires s \<Longrightarrow> running i s \<Longrightarrow>
    leaderSendSnapShot_end L now j args True reply (procs s ! i) = Inr r \<Longrightarrow>
    step L s (put i r (take_wire (SnapReply i j args reply) s))"
| push_msg: "Task i (PushMsgToKvServer msg) \<in># wires s \<Longrightarrow> running i s \<Longrightarrow>
    step L s (put i (pushMsgToKvServer msg (procs s ! i))
      (take_wire (Task i (PushMsgToKvServer msg)) s))"
| start_op: "running i s \<Longrightarrow> Start L op (procs s ! i) = (index, tm, isLeader, r) \<Longrightarrow>
    step L s (put i r s)"
| apply_logs: "running i s \<Longrightarrow> (\<forall>ms. Applying i ms \<notin># wires s) \<Longrightarrow>
    getApplyLogs (procs s ! i) = Inr (msgs, r) \<Longrightarrow> step L s (spawn [Applying i msgs] (put i r s))"
| apply_push: "Applying i (msg # msgs) \<in># wires s \<Longrightarrow> running i s \<Longrightarrow>
    step L s (spawn [Applying i msgs] (put i (pushMsgToKvServer msg (procs s ! i))
      (take_wire (Applying i (msg # msgs)) s)))"
| apply_sleep: "Applying i [] \<in># wires s \<Longrightarrow> running i s \<Longrightarrow>
    step L s (take_wire (Applying i []) s)"
| apply_pop: "running i s \<Longrightarrow> pop_now (applyChan (procs s ! i)) = Some (msg, q) \<Longrightarrow>
    step L s (put i ((procs s ! i)\<lparr>applyChan := q\<rparr>) s)"
| compact: "running i s \<Longrightarrow> Raft_Snapshot L index snapshot (procs s ! i) = Inr r \<Longrightarrow>
    step L s (put i r s)"
| lose: "w \<in># wires s \<Longrightarrow> step L s (take_wire w s)"
| halt: "step L s (s\<lparr>halted := insert i (halted s)\<rparr>)"

end
