(* ===== verification/ElectionSafety.thy ===== *)
theory ElectionSafety
  imports Cluster
begin

text \<open>
  At most one leader per term.

  The argument is the one of the Raft paper, on the model of raft.cpp: a node holds at
  most one vote per term, the counter of an election never exceeds the number of nodes
  that voted for the candidate and whose reply has been counted, and two majorities
  meet. \<open>election_inv\<close> states this of a cluster state with its messages in flight;
  \<open>quorum_system\<close> is the abstract argument, interpreted on the majorities of the cluster
  and its recorded votes.
\<close>

section \<open>Majorities\<close>

definition majority :: "nat \<Rightarrow> nat set \<Rightarrow> bool" where
  "majority n V \<longleftrightarrow> V \<subseteq> {..<n} \<and> n div 2 + 1 \<le> card V"

locale quorum_system =
  fixes quorum :: "'v set \<Rightarrow> bool"
    and held :: "'t \<Rightarrow> 'v \<Rightarrow> 'c \<Rightarrow> bool"
  assumes quorums_meet: "quorum V \<Longrightarrow> quorum W \<Longrightarrow> V \<inter> W \<noteq> {}"
    and one_vote: "held t v c \<Longrightarrow> held t v d \<Longrightarrow> c = d"
begin

definition elected :: "'t \<Rightarrow> 'c \<Rightarrow> bool" where
  "elected t c \<longleftrightarrow> (\<exists>V. quorum V \<and> (\<forall>v \<in> V. held t v c))"

lemma elected_unique: "elected t c \<Longrightarrow> elected t d \<Longrightarrow> c = d"
  unfolding elected_def using quorums_meet one_vote by blast

end

lemma majorities_meet:
  assumes "majority n V" and "majority n W"
  shows "V \<inter> W \<noteq> {}"
proof
  assume "V \<inter> W = {}"
  moreover have fin: "finite V" "finite W"
    using assms finite_subset[OF _ finite_lessThan] by (auto simp: majority_def)
  ultimately have "card V + card W = card (V \<union> W)" by (simp add: card_Un_disjoint)
  also have "\<dots> \<le> n" using assms card_mono[of "{..<n}" "V \<union> W"] by (auto simp: majority_def)
  finally show False using assms by (auto simp: majority_def)
qed

section \<open>The election invariant\<close>

text \<open>
  The cell and the round of a wire: a vote request or its reply counts in an election cell
  of term \<open>t\<close> (\<open>Some t\<close>), an append request or its reply in a heartbeat cell (\<open>None\<close>).
\<close>

fun cell_of :: "wire \<Rightarrow> (nat \<times> nat) option" where
  "cell_of (Task i (SendRequestVote j args k)) = Some (i, k)"
| "cell_of (Task i (SendAppendEntries j args k)) = Some (i, k)"
| "cell_of (VoteReply i j args k reply) = Some (i, k)"
| "cell_of (AppendReply i j args k reply) = Some (i, k)"
| "cell_of _ = None"

fun round_of :: "wire \<Rightarrow> int option" where
  "round_of (Task i (SendRequestVote j args k)) = Some (va_term args)"
| "round_of (VoteReply i j args k reply) = Some (va_term args)"
| "round_of _ = None"

fun asks :: "nat \<Rightarrow> nat \<Rightarrow> nat \<Rightarrow> wire \<Rightarrow> bool" where
  "asks i k v (Task i' (SendRequestVote j args k')) \<longleftrightarrow> i' = i \<and> k' = k \<and> j = int v"
| "asks i k v (VoteReply i' j args k' reply) \<longleftrightarrow> i' = i \<and> k' = k \<and> j = int v"
| "asks i k v _ \<longleftrightarrow> False"

definition voters :: "cluster \<Rightarrow> int \<Rightarrow> nat \<Rightarrow> nat set" where
  "voters s t i = {v. (t, v, int i) \<in> ballots s}"

definition awaited :: "cluster \<Rightarrow> nat \<Rightarrow> nat \<Rightarrow> nat set" where
  "awaited s i k = {v. \<exists>w. w \<in># wires s \<and> asks i k v w}"

definition wire_ok :: "cluster \<Rightarrow> wire \<Rightarrow> bool" where
  "wire_ok s w \<longleftrightarrow>
     (\<forall>i k. cell_of w = Some (i, k) \<longrightarrow> i < length (procs s) \<and> k < length (cells (procs s ! i))) \<and>
     (case w of
        Task i (SendRequestVote j args k) \<Rightarrow> 0 \<le> j \<and> va_candidateid args = int i
      | VoteReply i j args k reply \<Rightarrow> 0 \<le> j \<and> va_candidateid args = int i \<and>
          (vr_votegranted reply \<longrightarrow> vr_term reply = va_term args \<and> nat j \<in> voters s (va_term args) i)
      | _ \<Rightarrow> True)"

definition votes_ok :: "cluster \<Rightarrow> bool" where
  "votes_ok s \<longleftrightarrow>
     (\<forall>i < length (procs s). m_me (procs s ! i) = int i \<and>
        length (m_peers (procs s ! i)) = length (procs s)) \<and>
     (\<forall>t v c. (t, v, c) \<in> ballots s \<longrightarrow> v < length (procs s) \<and> c \<noteq> -1 \<and>
        t \<le> m_currentTerm (procs s ! v) \<and>
        (t = m_currentTerm (procs s ! v) \<longrightarrow> m_votedFor (procs s ! v) = c)) \<and>
     (\<forall>t v c d. (t, v, c) \<in> ballots s \<longrightarrow> (t, v, d) \<in> ballots s \<longrightarrow> c = d)"

definition wires_ok :: "cluster \<Rightarrow> bool" where
  "wires_ok s \<longleftrightarrow>
     (\<forall>w. w \<in># wires s \<longrightarrow> wire_ok s w) \<and>
     (\<forall>w w'. w \<in># wires s \<longrightarrow> w' \<in># wires s \<longrightarrow> cell_of w = cell_of w' \<longrightarrow> cell_of w \<noteq> None \<longrightarrow>
        round_of w = round_of w') \<and>
     (\<forall>i k v. size (filter_mset (asks i k v) (wires s)) \<le> 1)"

definition tallies_ok :: "cluster \<Rightarrow> bool" where
  "tallies_ok s \<longleftrightarrow>
     (\<forall>w i k t. w \<in># wires s \<longrightarrow> cell_of w = Some (i, k) \<longrightarrow> round_of w = Some t \<longrightarrow>
        cells (procs s ! i) ! k \<le> int (card (voters s t i - awaited s i k)))"

definition leaders_ok :: "cluster \<Rightarrow> bool" where
  "leaders_ok s \<longleftrightarrow>
     (\<forall>i < length (procs s). m_status (procs s ! i) = Leader \<longrightarrow>
        majority (length (procs s)) (voters s (m_currentTerm (procs s ! i)) i))"

definition election_inv :: "cluster \<Rightarrow> bool" where
  "election_inv s \<longleftrightarrow> votes_ok s \<and> wires_ok s \<and> tallies_ok s \<and> leaders_ok s"

text \<open>What a change of one node must respect.\<close>

definition vote_step :: "Raft \<Rightarrow> Raft \<Rightarrow> bool" where
  "vote_step r r' \<longleftrightarrow>
     m_me r' = m_me r \<and> length (m_peers r') = length (m_peers r) \<and>
     length (cells r) \<le> length (cells r') \<and>
     (m_currentTerm r < m_currentTerm r' \<or>
      m_currentTerm r = m_currentTerm r' \<and> (m_votedFor r = -1 \<or> m_votedFor r' = m_votedFor r))"

definition no_new_leader :: "Raft \<Rightarrow> Raft \<Rightarrow> bool" where
  "no_new_leader r r' \<longleftrightarrow> (m_status r' = Leader \<longrightarrow> m_status r = Leader \<and> m_currentTerm r' = m_currentTerm r)"

lemma wires_ok_wire: "wires_ok s \<Longrightarrow> w \<in># wires s \<Longrightarrow> wire_ok s w"
  unfolding wires_ok_def by blast

lemma wires_ok_round:
  assumes "wires_ok s" and "w \<in># wires s" and "w' \<in># wires s" and "cell_of w = Some p" and "cell_of w' = Some p"
  shows "round_of w = round_of w'"
  using assms(1)[unfolded wires_ok_def, THEN conjunct2, THEN conjunct1, rule_format, OF assms(2,3)] assms(4,5)
  by simp

lemma wire_ok_cell: "wire_ok s w \<Longrightarrow> cell_of w = Some (i, k) \<Longrightarrow> i < length (procs s) \<and> k < length (cells (procs s ! i))"
  unfolding wire_ok_def by blast

lemma tallies_okD:
  "tallies_ok s \<Longrightarrow> w \<in># wires s \<Longrightarrow> cell_of w = Some (i, k) \<Longrightarrow> round_of w = Some t \<Longrightarrow>
   cells (procs s ! i) ! k \<le> int (card (voters s t i - awaited s i k))"
  unfolding tallies_ok_def by blast

lemma vote_frame_step: "vote_frame r r' \<Longrightarrow> vote_step r r' \<and> no_new_leader r r'"
  by (auto simp: vote_frame_def vote_step_def no_new_leader_def)

section \<open>The parts of the invariant under the updates of the state\<close>

lemma cluster_fields [simp]:
  "procs (put i r s) = (procs s)[i := r]" "wires (put i r s) = wires s"
  "procs (spawn ws s) = procs s" "wires (spawn ws s) = wires s + mset ws"
  "ballots (spawn ws s) = ballots s"
  "procs (take_wire w s) = procs s" "wires (take_wire w s) = wires s - {#w#}"
  "ballots (take_wire w s) = ballots s"
  "halted (put i r s) = halted s" "halted (spawn ws s) = halted s" "halted (take_wire w s) = halted s"
  by (simp_all add: put_def spawn_def take_wire_def)

lemma spawn_Nil [simp]: "spawn [] s = s"
  by (cases s) (simp add: spawn_def)

lemma put_take_wire: "put i r (take_wire w s) = take_wire w (put i r s)"
  by (simp add: put_def take_wire_def)

lemma voters_frame [simp]:
  "voters (spawn ws s) = voters s" "voters (take_wire w s) = voters s"
  by (simp_all add: voters_def fun_eq_iff)

lemma awaited_put [simp]: "awaited (put i r s) = awaited s"
  by (simp add: awaited_def fun_eq_iff)

lemma ballots_put_mono: "ballots s \<subseteq> ballots (put i r s)"
  by (auto simp: put_def)

lemma voters_put_mono: "voters s t j \<subseteq> voters (put i r s) t j"
  using ballots_put_mono by (auto simp: voters_def)

lemma voters_finite: "votes_ok s \<Longrightarrow> finite (voters s t i)"
  by (rule finite_subset[of _ "{..<length (procs s)}"]) (auto simp: votes_ok_def voters_def)

lemma votes_ok_put:
  assumes ok: "votes_ok s" and i: "i < length (procs s)" and st: "vote_step (procs s ! i) r"
  shows "votes_ok (put i r s)"
proof -
  have new: "t = m_currentTerm r \<and> v = i \<and> c = m_votedFor r \<and> c \<noteq> -1"
    if "(t, v, c) \<in> ballots (put i r s)" "(t, v, c) \<notin> ballots s" for t v c
    using that by (auto simp: put_def split: if_splits)
  have old: "v < length (procs s)" "c \<noteq> -1" "t \<le> m_currentTerm (procs s ! v)"
    "t = m_currentTerm (procs s ! v) \<Longrightarrow> m_votedFor (procs s ! v) = c"
    if "(t, v, c) \<in> ballots s" for t v c
    using ok that by (simp_all add: votes_ok_def)
  have same: "c = m_votedFor r" if "(m_currentTerm r, i, c) \<in> ballots s" for c
    using old[OF that] st by (auto simp: vote_step_def)
  have cur: "t \<le> m_currentTerm r \<and> (t = m_currentTerm r \<longrightarrow> m_votedFor r = c)"
    if "(t, i, c) \<in> ballots s" for t c
    using old[OF that] same[of c] that st by (auto simp: vote_step_def)
  have "v < length (procs s) \<and> c \<noteq> -1 \<and> t \<le> m_currentTerm ((procs s)[i := r] ! v) \<and>
     (t = m_currentTerm ((procs s)[i := r] ! v) \<longrightarrow> m_votedFor ((procs s)[i := r] ! v) = c)"
    if "(t, v, c) \<in> ballots (put i r s)" for t v c
  proof (cases "(t, v, c) \<in> ballots s")
    case True
    then show ?thesis using old[OF True] cur[of t c] i by (cases "v = i") simp_all
  next
    case False
    then show ?thesis using new[OF that] i by simp
  qed
  moreover have "c = d" if "(t, v, c) \<in> ballots (put i r s)" "(t, v, d) \<in> ballots (put i r s)" for t v c d
  proof (cases "(t, v, c) \<in> ballots s"; cases "(t, v, d) \<in> ballots s")
    assume "(t, v, c) \<in> ballots s" "(t, v, d) \<in> ballots s"
    then show ?thesis using ok unfolding votes_ok_def by blast
  qed (use new[OF that(1)] new[OF that(2)] same in blast)+
  moreover have "\<forall>j < length (procs s). m_me ((procs s)[i := r] ! j) = int j \<and>
      length (m_peers ((procs s)[i := r] ! j)) = length (procs s)"
    using ok st i by (simp add: votes_ok_def vote_step_def nth_list_update)
  ultimately show ?thesis unfolding votes_ok_def by simp
qed

lemma votes_ok_frame [simp]:
  "votes_ok (spawn ws s) = votes_ok s" "votes_ok (take_wire w s) = votes_ok s"
  by (simp_all add: votes_ok_def)

lemma leaders_ok_frame [simp]:
  "leaders_ok (spawn ws s) = leaders_ok s" "leaders_ok (take_wire w s) = leaders_ok s"
  by (simp_all add: leaders_ok_def)

lemma majority_mono: "majority n V \<Longrightarrow> V \<subseteq> W \<Longrightarrow> W \<subseteq> {..<n} \<Longrightarrow> majority n W"
  unfolding majority_def using card_mono[of W V] finite_subset[of W "{..<n}"] by auto

lemma voters_bound: "votes_ok s \<Longrightarrow> voters s t i \<subseteq> {..<length (procs s)}"
  by (auto simp: votes_ok_def voters_def)

lemma leaders_ok_put:
  assumes "leaders_ok s" and ok: "votes_ok (put i r s)" and i: "i < length (procs s)"
    and new: "m_status r = Leader \<Longrightarrow>
      majority (length (procs s)) (voters (put i r s) (m_currentTerm r) i)"
  shows "leaders_ok (put i r s)"
  unfolding leaders_ok_def
proof (intro allI impI)
  fix j assume j: "j < length (procs (put i r s))" and lead: "m_status (procs (put i r s) ! j) = Leader"
  show "majority (length (procs (put i r s)))
      (voters (put i r s) (m_currentTerm (procs (put i r s) ! j)) j)"
  proof (cases "j = i")
    case True
    then show ?thesis using new lead i by simp
  next
    case False
    then have "majority (length (procs s)) (voters s (m_currentTerm (procs s ! j)) j)"
      using assms(1) j lead by (simp add: leaders_ok_def)
    then show ?thesis
      using False voters_put_mono majority_mono voters_bound[OF ok] by fastforce
  qed
qed

lemma leaders_ok_kept:
  assumes "leaders_ok s" and "votes_ok (put i r s)" and "i < length (procs s)"
    and "no_new_leader (procs s ! i) r"
  shows "leaders_ok (put i r s)"
proof (rule leaders_ok_put[OF assms(1-3)])
  assume "m_status r = Leader"
  then have "majority (length (procs s)) (voters s (m_currentTerm r) i)"
    using assms(1,3,4) by (auto simp: leaders_ok_def no_new_leader_def)
  then show "majority (length (procs s)) (voters (put i r s) (m_currentTerm r) i)"
    using voters_bound[OF assms(2), of "m_currentTerm r" i] by (intro majority_mono[OF _ voters_put_mono]) simp_all
qed

lemma wire_ok_frame [simp]:
  "wire_ok (spawn ws s) = wire_ok s" "wire_ok (take_wire w s) = wire_ok s"
  by (simp_all add: wire_ok_def fun_eq_iff cong: wire.case_cong thread.case_cong)

lemma wires_ok_sub:
  assumes ok: "wires_ok s" and sub: "wires s' \<subseteq># wires s" and frame: "\<And>w. wire_ok s w \<Longrightarrow> wire_ok s' w"
  shows "wires_ok s'"
  unfolding wires_ok_def
proof (intro conjI allI)
  have mem: "w \<in># wires s" if "w \<in># wires s'" for w using that sub by (rule mset_subset_eqD[rotated])
  fix w w' show "w \<in># wires s' \<longrightarrow> wire_ok s' w"
    and "w \<in># wires s' \<longrightarrow> w' \<in># wires s' \<longrightarrow> cell_of w = cell_of w' \<longrightarrow> cell_of w \<noteq> None \<longrightarrow>
      round_of w = round_of w'"
    using ok mem frame by (simp_all add: wires_ok_def)
next
  fix i k v
  have "size (filter_mset (asks i k v) (wires s')) \<le> size (filter_mset (asks i k v) (wires s))"
    by (rule size_mset_mono[OF multiset_filter_mono[OF sub]])
  also have "\<dots> \<le> 1" using ok by (simp add: wires_ok_def)
  finally show "size (filter_mset (asks i k v) (wires s')) \<le> 1" .
qed

lemma wires_ok_take: "wires_ok s \<Longrightarrow> wires_ok (take_wire w s)"
  by (erule wires_ok_sub) simp_all

lemma tallies_ok_take:
  assumes "votes_ok s" and ok: "tallies_ok s"
  shows "tallies_ok (take_wire w s)"
  unfolding tallies_ok_def
proof (intro allI impI)
  fix w' i k t
  assume "w' \<in># wires (take_wire w s)" "cell_of w' = Some (i, k)" "round_of w' = Some t"
  then have "cells (procs s ! i) ! k \<le> int (card (voters s t i - awaited s i k))"
    using ok by (auto simp: tallies_ok_def dest: in_diffD)
  also have "card (voters s t i - awaited s i k) \<le> card (voters s t i - awaited (take_wire w s) i k)"
    by (rule card_mono) (auto simp: voters_finite assms(1) awaited_def dest: in_diffD)
  finally show "cells (procs (take_wire w s) ! i) ! k \<le>
      int (card (voters (take_wire w s) t i - awaited (take_wire w s) i k))" by simp
qed

lemma election_inv_take: "election_inv s \<Longrightarrow> election_inv (take_wire w s)"
  by (simp add: election_inv_def wires_ok_take tallies_ok_take)

lemma wires_ok_put:
  assumes "wires_ok s" and "length (cells (procs s ! i)) \<le> length (cells r)"
  shows "wires_ok (put i r s)"
proof -
  have len: "k < length (cells ((procs s)[i := r] ! j))" if "k < length (cells (procs s ! j))" for j k
    using that assms(2) by (cases "i = j"; cases "i < length (procs s)") (simp_all add: list_update_beyond)
  have "wire_ok (put i r s) w" if "wire_ok s w" for w
    using that voters_put_mono[of s _ _ i r]
    by (auto simp: wire_ok_def len split: wire.splits thread.splits)
  then show ?thesis by (intro wires_ok_sub[OF assms(1)]) simp_all
qed

text \<open>A change of one node: the counters of running elections do not grow.\<close>

definition calm :: "cluster \<Rightarrow> nat \<Rightarrow> Raft \<Rightarrow> bool" where
  "calm s i r \<longleftrightarrow> (\<forall>w k. w \<in># wires s \<longrightarrow> cell_of w = Some (i, k) \<longrightarrow> round_of w \<noteq> None \<longrightarrow>
     cells r ! k \<le> max 0 (cells (procs s ! i) ! k))"

lemma tallies_ok_put:
  assumes ok: "tallies_ok s" and v: "votes_ok (put i r s)" and i: "i < length (procs s)" and c: "calm s i r"
  shows "tallies_ok (put i r s)"
  unfolding tallies_ok_def
proof (intro allI impI)
  fix w j k t
  assume w: "w \<in># wires (put i r s)" "cell_of w = Some (j, k)" "round_of w = Some t"
  have "cells ((procs s)[i := r] ! j) ! k \<le> max 0 (cells (procs s ! j) ! k)"
    using c w i by (cases "j = i") (auto simp: calm_def)
  also have "\<dots> \<le> int (card (voters s t j - awaited s j k))"
    using ok w by (simp add: tallies_ok_def)
  also have "card (voters s t j - awaited s j k) \<le> card (voters (put i r s) t j - awaited s j k)"
    by (rule card_mono) (use v voters_put_mono in \<open>simp_all add: voters_finite Diff_mono\<close>)
  finally show "cells (procs (put i r s) ! j) ! k \<le>
      int (card (voters (put i r s) t j - awaited (put i r s) j k))" by simp
qed

lemma election_inv_put:
  assumes "election_inv s" and "i < length (procs s)" and "vote_step (procs s ! i) r"
    and "no_new_leader (procs s ! i) r" and "calm s i r"
  shows "election_inv (put i r s)"
proof -
  have "votes_ok (put i r s)" using assms by (simp add: election_inv_def votes_ok_put)
  then show ?thesis
    using assms wires_ok_put[of s i r] tallies_ok_put[of s i r] leaders_ok_kept[of s i r]
    by (simp add: election_inv_def vote_step_def)
qed

text \<open>New wires that belong to no election.\<close>

definition quiet_wire :: "cluster \<Rightarrow> wire \<Rightarrow> bool" where
  "quiet_wire s w \<longleftrightarrow> round_of w = None \<and>
     (\<forall>i k. cell_of w = Some (i, k) \<longrightarrow> i < length (procs s) \<and> k < length (cells (procs s ! i)) \<and>
        (\<forall>w'. w' \<in># wires s \<longrightarrow> cell_of w' = Some (i, k) \<longrightarrow> round_of w' = None))"

lemma quiet_asks: "round_of w = None \<Longrightarrow> \<not> asks i k v w"
  by (cases w rule: round_of.cases) auto

lemma quiet_wire_ok: "quiet_wire s w \<Longrightarrow> wire_ok s w"
  by (auto simp: quiet_wire_def wire_ok_def split: wire.splits thread.splits)

lemma filter_quiet: "\<forall>w \<in> set ws. round_of w = None \<Longrightarrow> filter_mset (asks i k v) (mset ws) = {#}"
  by (auto simp: quiet_asks filter_mset_eq_conv)

lemma awaited_quiet:
  assumes "\<forall>w \<in> set ws. round_of w = None"
  shows "awaited (spawn ws s) = awaited s"
  using assms quiet_asks by (fastforce simp: awaited_def fun_eq_iff)

lemma wires_ok_quiet:
  assumes ok: "wires_ok s" and q: "\<forall>w \<in> set ws. quiet_wire s w"
  shows "wires_ok (spawn ws s)"
  unfolding wires_ok_def
proof (intro conjI allI impI)
  have rn: "\<forall>w \<in> set ws. round_of w = None" using q by (simp add: quiet_wire_def)
  fix w w' i k v
  show "wire_ok (spawn ws s) w" if "w \<in># wires (spawn ws s)"
    using that ok q quiet_wire_ok by (auto simp: wires_ok_def)
  show "round_of w = round_of w'"
    if "w \<in># wires (spawn ws s)" "w' \<in># wires (spawn ws s)" "cell_of w = cell_of w'" "cell_of w \<noteq> None"
  proof (cases "w \<in># wires s"; cases "w' \<in># wires s")
    assume "w \<in># wires s" "w' \<in># wires s"
    then show ?thesis using ok that(3,4) unfolding wires_ok_def by blast
  next
    assume a: "w \<in># wires s" "w' \<notin># wires s"
    then have "w' \<in> set ws" using that(2) by simp
    then show ?thesis using q a(1) that(3,4) by (auto simp: quiet_wire_def)
  next
    assume a: "w \<notin># wires s" "w' \<in># wires s"
    then have "w \<in> set ws" using that(1) by simp
    then show ?thesis using q a(2) that(3,4) by (auto simp: quiet_wire_def)
  next
    assume "w \<notin># wires s" "w' \<notin># wires s"
    then show ?thesis using that(1,2) rn by simp
  qed
  show "size (filter_mset (asks i k v) (wires (spawn ws s))) \<le> 1"
    using ok unfolding wires_ok_def cluster_fields filter_union_mset filter_quiet[OF rn] by simp
qed

lemma tallies_ok_quiet:
  assumes ok: "tallies_ok s" and q: "\<forall>w \<in> set ws. round_of w = None"
  shows "tallies_ok (spawn ws s)"
  using ok q unfolding tallies_ok_def awaited_quiet[OF q] voters_frame cluster_fields by auto

lemma election_inv_quiet:
  assumes "election_inv s" and "\<forall>w \<in> set ws. quiet_wire s w"
  shows "election_inv (spawn ws s)"
  using assms wires_ok_quiet tallies_ok_quiet by (simp add: election_inv_def quiet_wire_def)

text \<open>The common case: one node changes, its votes framed, and starts threads that belong to
  no election.\<close>

lemma election_inv_local:
  assumes "election_inv s" and "i < length (procs s)" and "vote_frame (procs s ! i) r"
    and "calm s i r" and "\<forall>w \<in> set ws. quiet_wire (put i r s) w"
  shows "election_inv (spawn ws (put i r s))"
  using assms vote_frame_step by (intro election_inv_quiet election_inv_put) auto

section \<open>The steps of an election\<close>

text \<open>A request is replaced by its reply.\<close>

lemma asks_vote: "asks i k v (Task i' (SendRequestVote j args k')) = asks i k v (VoteReply i' j args k' reply)"
  by simp

lemma election_inv_answer:
  assumes inv: "election_inv s" and w: "Task i (SendRequestVote j args k) \<in># wires s"
    and reply: "vr_votegranted reply \<Longrightarrow> vr_term reply = va_term args \<and> nat j \<in> voters s (va_term args) i"
  shows "election_inv (spawn [VoteReply i j args k reply]
    (take_wire (Task i (SendRequestVote j args k)) s))"
proof -
  let ?w = "Task i (SendRequestVote j args k)" and ?w' = "VoteReply i j args k reply"
  let ?s = "spawn [?w'] (take_wire ?w s)"
  obtain M where M: "wires s = add_mset ?w M" using w by (metis insert_DiffM)
  then have wires: "wires ?s = add_mset ?w' M" by simp
  have aw: "awaited ?s = awaited s"
    unfolding awaited_def wires M by (auto simp: fun_eq_iff)
  have ok: "wires_ok s" and tal: "tallies_ok s" using inv by (simp_all add: election_inv_def)
  have "wire_ok s ?w'" using ok w reply unfolding wires_ok_def by (auto simp: wire_ok_def)
  moreover have "round_of v = round_of v'"
    if "v \<in># wires ?s" "v' \<in># wires ?s" "cell_of v = cell_of v'" "cell_of v \<noteq> None" for v v'
  proof -
    define f where "f x = (if x = ?w' then ?w else x)" for x
    have "f v \<in># wires s" "f v' \<in># wires s" "cell_of (f v) = cell_of v" "cell_of (f v') = cell_of v'"
      "round_of (f v) = round_of v" "round_of (f v') = round_of v'"
      using that(1,2) M by (auto simp: f_def)
    then show ?thesis using ok that(3,4) unfolding wires_ok_def by metis
  qed
  moreover have "size (filter_mset (asks a b c) (wires ?s)) = size (filter_mset (asks a b c) (wires s))" for a b c
    unfolding wires M by simp
  moreover have "w' \<in># wires s \<or> w' = ?w'" if "w' \<in># wires ?s" for w'
    using that M by auto
  ultimately have "wires_ok ?s"
    using ok unfolding wires_ok_def wire_ok_frame by metis
  moreover have "tallies_ok ?s"
    unfolding tallies_ok_def aw
  proof (intro allI impI)
    fix v a b t assume v: "v \<in># wires ?s" "cell_of v = Some (a, b)" "round_of v = Some t"
    have "\<exists>u. u \<in># wires s \<and> cell_of u = Some (a, b) \<and> round_of u = Some t"
      using v w M by (cases "v = ?w'") auto
    then show "cells (procs ?s ! a) ! b \<le> int (card (voters ?s t a - awaited s a b))"
      using tal by (auto simp: tallies_ok_def)
  qed
  ultimately show ?thesis using inv by (simp add: election_inv_def)
qed

text \<open>A granted reply accounts for one more voter than the counter knows of.\<close>

lemma awaited_take:
  assumes ok: "wires_ok s" and w: "w \<in># wires s" "asks i k v w"
  shows "awaited (take_wire w s) i k = awaited s i k - {v}"
proof -
  obtain M where M: "wires s = add_mset w M" using w(1) by (metis insert_DiffM)
  have "size (filter_mset (asks i k v) (wires s)) \<le> 1" using ok by (simp add: wires_ok_def)
  then have "filter_mset (asks i k v) M = {#}" using w(2) by (simp add: M)
  then have none: "\<not> asks i k v u" if "u \<in># M" for u
    using that by (auto simp: filter_mset_eq_conv)
  have uniq: "u = v" if "asks i k u w" for u
    using that w(2) by (cases w rule: round_of.cases) auto
  have "wires (take_wire w s) = M" by (simp add: M)
  then have "u \<in> awaited (take_wire w s) i k \<longleftrightarrow> (\<exists>x. x \<in># M \<and> asks i k u x)" for u
    by (simp add: awaited_def)
  moreover have "u \<in> awaited s i k \<longleftrightarrow> asks i k u w \<or> (\<exists>x. x \<in># M \<and> asks i k u x)" for u
    unfolding awaited_def M by auto
  ultimately show ?thesis using none uniq w(2) by blast
qed

lemma tally_reply:
  assumes inv: "election_inv s" and w: "VoteReply i j args k reply \<in># wires s" and g: "vr_votegranted reply"
  shows "cells (procs s ! i) ! k + 1 \<le>
    int (card (voters s (va_term args) i - awaited (take_wire (VoteReply i j args k reply) s) i k))"
proof -
  let ?w = "VoteReply i j args k reply" and ?V = "voters s (va_term args) i"
  have ok: "wires_ok s" "votes_ok s" "tallies_ok s" using inv by (simp_all add: election_inv_def)
  have "wire_ok s ?w" using ok(1) w by (rule wires_ok_wire)
  then have j: "0 \<le> j" "nat j \<in> ?V" using g by (simp_all add: wire_ok_def)
  have asks: "asks i k (nat j) ?w" using j(1) by simp
  have a: "nat j \<in> awaited s i k" using w asks by (auto simp: awaited_def)
  have "cells (procs s ! i) ! k \<le> int (card (?V - awaited s i k))"
    using tallies_okD[OF ok(3) w] by simp
  moreover have "?V - awaited (take_wire ?w s) i k = insert (nat j) (?V - awaited s i k)"
    using awaited_take[OF ok(1) w asks] j(2) by auto
  moreover have "finite ?V" by (rule voters_finite[OF ok(2)])
  ultimately show ?thesis using a by simp
qed

lemma election_inv_count:
  assumes inv: "election_inv s" and i: "i < length (procs s)"
    and r: "r = (procs s ! i)\<lparr>cells := (cells (procs s ! i))[k := c]\<rparr>"
    and round: "\<And>w. w \<in># wires s \<Longrightarrow> cell_of w = Some (i, k) \<Longrightarrow> round_of w = Some t"
    and c: "c \<le> int (card (voters s t i - awaited s i k))"
  shows "election_inv (put i r s)"
proof -
  have "vote_frame (procs s ! i) r" by (simp add: r vote_frame_def)
  then have st: "vote_step (procs s ! i) r" "no_new_leader (procs s ! i) r"
    using vote_frame_step by blast+
  have v: "votes_ok (put i r s)" using inv i st by (simp add: election_inv_def votes_ok_put)
  have fin: "finite (voters (put i r s) t' a)" for t' a by (rule voters_finite[OF v])
  have le: "card (voters s t' a - awaited s a b) \<le> card (voters (put i r s) t' a - awaited s a b)" for t' a b
    by (rule card_mono) (use fin voters_put_mono in \<open>simp_all add: Diff_mono\<close>)
  have "tallies_ok (put i r s)"
    unfolding tallies_ok_def
  proof (intro allI impI)
    fix w a b t' assume w: "w \<in># wires (put i r s)" "cell_of w = Some (a, b)" "round_of w = Some t'"
    have "cells ((procs s)[i := r] ! a) ! b \<le> int (card (voters s t' a - awaited s a b))"
    proof (cases "a = i \<and> b = k")
      case True
      then have "t' = t" using round[of w] w by simp
      moreover have "k < length (cells (procs s ! i))"
        using wire_ok_cell[OF wires_ok_wire[OF _ w(1)[simplified]] w(2)] inv True by (simp add: election_inv_def)
      ultimately show ?thesis using True c i by (simp add: r)
    next
      case False
      then have "cells ((procs s)[i := r] ! a) ! b = cells (procs s ! a) ! b"
        using i by (cases "a = i") (auto simp: r)
      then show ?thesis using tallies_okD[of s w] inv w by (simp add: election_inv_def)
    qed
    then show "cells (procs (put i r s) ! a) ! b \<le>
        int (card (voters (put i r s) t' a - awaited (put i r s) a b))"
      using le[of t' a b] by simp
  qed
  moreover have "wires_ok (put i r s)"
    by (rule wires_ok_put) (use inv in \<open>simp_all add: election_inv_def r\<close>)
  moreover have "leaders_ok (put i r s)"
    by (rule leaders_ok_kept) (use inv v i st in \<open>simp_all add: election_inv_def\<close>)
  ultimately show ?thesis using v by (simp add: election_inv_def)
qed

lemma same_round:
  assumes "wires_ok s" and "VoteReply i j args k reply \<in># wires s"
    and "w \<in># wires (take_wire (VoteReply i j args k reply) s)" and "cell_of w = Some (i, k)"
  shows "round_of w = Some (va_term args)"
proof -
  have "w \<in># wires s" using assms(3) by (auto dest: in_diffD)
  from wires_ok_round[OF assms(1) this assms(2,4)] show ?thesis by simp
qed

lemma election_inv_won:
  assumes inv: "election_inv s" and i: "i < length (procs s)"
    and bl: "become_leader ((procs s ! i)\<lparr>cells := (cells (procs s ! i))[k := 0]\<rparr>) = Inr r3"
    and maj: "int (length (m_peers (procs s ! i)) div 2) + 1
      \<le> int (card (voters s (m_currentTerm (procs s ! i)) i))"
  shows "election_inv (put i (persist L r3) s)"
proof -
  let ?r = "persist L r3"
  note f = become_leader_fields[OF bl]
  have st: "vote_step (procs s ! i) ?r" using f by (simp add: vote_step_def)
  have v: "votes_ok (put i ?r s)" using inv i st by (simp add: election_inv_def votes_ok_put)
  have "calm s i ?r"
    unfolding calm_def
  proof (intro allI impI)
    fix w b assume "w \<in># wires s" "cell_of w = Some (i, b)"
    then have "b < length (cells (procs s ! i))"
      using wire_ok_cell[OF wires_ok_wire] inv by (simp add: election_inv_def)
    then show "cells ?r ! b \<le> max 0 (cells (procs s ! i) ! b)"
      using f(5) by (cases "b = k") simp_all
  qed
  then have t: "tallies_ok (put i ?r s)"
    using tallies_ok_put[OF _ v i] inv by (simp add: election_inv_def)
  have w: "wires_ok (put i ?r s)"
    by (rule wires_ok_put) (use inv f in \<open>simp_all add: election_inv_def\<close>)
  have "majority (length (procs s)) (voters s (m_currentTerm (procs s ! i)) i)"
    using maj inv i voters_bound[of s] by (simp add: majority_def election_inv_def votes_ok_def)
  then have "majority (length (procs s)) (voters (put i ?r s) (m_currentTerm ?r) i)"
    using f voters_bound[OF v] by (intro majority_mono[OF _ voters_put_mono]) simp_all
  then have "leaders_ok (put i ?r s)"
    using leaders_ok_put[OF _ v i] inv by (simp add: election_inv_def)
  then show ?thesis using v t w by (simp add: election_inv_def)
qed

text \<open>A candidate asks every other node, each once, in a cell of its own.\<close>

definition ask_wires :: "nat \<Rightarrow> nat \<Rightarrow> RequestVoteArgs \<Rightarrow> nat list \<Rightarrow> wire list" where
  "ask_wires i k args js = map (\<lambda>j. Task i (SendRequestVote (int j) args k)) js"

definition fresh_cell :: "cluster \<Rightarrow> nat \<Rightarrow> nat \<Rightarrow> bool" where
  "fresh_cell s i k \<longleftrightarrow> (\<forall>w. w \<in># wires s \<longrightarrow> cell_of w \<noteq> Some (i, k))"

lemma ask_wires_new:
  assumes "w \<in> set (ask_wires i k args js)"
  shows "cell_of w = Some (i, k)" "round_of w = Some (va_term args)"
    "asks a b v w \<longleftrightarrow> a = i \<and> b = k \<and> w = Task i (SendRequestVote (int v) args k)"
  using assms by (auto simp: ask_wires_def)

lemma asks_cell: "asks i k v w \<Longrightarrow> cell_of w = Some (i, k)"
  by (cases w rule: round_of.cases) auto

lemma ask_wires_once:
  assumes "distinct js"
  shows "size (filter_mset (asks a b v) (mset (ask_wires i k args js))) \<le> (if a = i \<and> b = k then 1 else 0)"
proof -
  let ?ws = "ask_wires i k args js"
  have dist: "distinct ?ws" using assms by (auto simp: ask_wires_def distinct_map inj_on_def)
  have "set (filter (asks a b v) ?ws) \<subseteq>
      (if a = i \<and> b = k then {Task i (SendRequestVote (int v) args k)} else {})"
    using ask_wires_new(3)[of _ i k args js a b v] by auto
  then have "card (set (filter (asks a b v) ?ws)) \<le> (if a = i \<and> b = k then 1 else 0)"
    by (auto dest: card_mono[rotated])
  then have "length (filter (asks a b v) ?ws) \<le> (if a = i \<and> b = k then 1 else 0)"
    using distinct_card[OF distinct_filter[OF dist]] by metis
  then show ?thesis by (metis mset_filter size_mset)
qed

lemma wires_ok_ask:
  assumes ok: "wires_ok s" and i: "i < length (procs s)" and k: "k < length (cells (procs s ! i))"
    and js: "distinct js" and cand: "va_candidateid args = int i" and fresh: "fresh_cell s i k"
  shows "wires_ok (spawn (ask_wires i k args js) s)" (is "wires_ok (spawn ?ws s)")
  unfolding wires_ok_def
proof (intro conjI allI impI)
  fix w w' a b v
  have "wire_ok s w" if "w \<in> set ?ws" for w
    using that i k cand by (auto simp: ask_wires_def wire_ok_def)
  then show "wire_ok (spawn ?ws s) w" if "w \<in># wires (spawn ?ws s)"
    using that wires_ok_wire[OF ok] by auto
  show "round_of w = round_of w'"
    if a: "w \<in># wires (spawn ?ws s)" "w' \<in># wires (spawn ?ws s)" "cell_of w = cell_of w'" "cell_of w \<noteq> None"
  proof (cases "w \<in> set ?ws \<or> w' \<in> set ?ws")
    case True
    then have "cell_of w = Some (i, k)" "cell_of w' = Some (i, k)" using ask_wires_new(1) a(3) by metis+
    then have "w \<in> set ?ws" "w' \<in> set ?ws" using a(1,2) fresh by (auto simp: fresh_cell_def)
    then show ?thesis using ask_wires_new(2) by metis
  next
    case False
    then have "w \<in># wires s" "w' \<in># wires s" using a(1,2) by auto
    then show ?thesis using wires_ok_round[OF ok] a(3,4) by (metis option.exhaust)
  qed
  have "size (filter_mset (asks a b v) (wires s)) \<le> (if a = i \<and> b = k then 0 else 1)"
  proof (cases "a = i \<and> b = k")
    case True
    then have "filter_mset (asks a b v) (wires s) = {#}"
      using fresh asks_cell[of i k v] by (auto simp: filter_mset_eq_conv fresh_cell_def)
    then show ?thesis by (simp only: size_empty)
  next
    case False
    then show ?thesis using ok unfolding wires_ok_def by (simp only: if_False)
  qed
  then have "size (filter_mset (asks a b v) (wires s)) + size (filter_mset (asks a b v) (mset ?ws)) \<le> 1"
    using ask_wires_once[OF js, of a b v i k args] by (simp only: split: if_splits)
  then show "size (filter_mset (asks a b v) (wires (spawn ?ws s))) \<le> 1"
    by (simp only: cluster_fields filter_union_mset size_union)
qed

lemma tallies_ok_ask:
  assumes ok: "tallies_ok s" "votes_ok s" and js: "i \<notin> set js" and fresh: "fresh_cell s i k"
    and one: "cells (procs s ! i) ! k = 1" and self: "i \<in> voters s (va_term args) i"
  shows "tallies_ok (spawn (ask_wires i k args js) s)" (is "tallies_ok (spawn ?ws s)")
  unfolding tallies_ok_def
proof (intro allI impI)
  fix w a b t
  assume w: "w \<in># wires (spawn ?ws s)" "cell_of w = Some (a, b)" "round_of w = Some t"
  show "cells (procs (spawn ?ws s) ! a) ! b \<le> int (card (voters (spawn ?ws s) t a - awaited (spawn ?ws s) a b))"
  proof (cases "w \<in> set ?ws")
    case True
    then have ab: "a = i" "b = k" "t = va_term args" using ask_wires_new[OF True] w(2,3) by auto
    have "\<not> asks i k i u" if "u \<in># wires (spawn ?ws s)" for u
      using that js fresh asks_cell[of i k i u] by (auto simp: ask_wires_def fresh_cell_def)
    then have "{i} \<subseteq> voters s t i - awaited (spawn ?ws s) i k" using self ab by (auto simp: awaited_def)
    from card_mono[OF _ this] show ?thesis using voters_finite[OF ok(2)] one ab by simp
  next
    case False
    then have old: "w \<in># wires s" "(a, b) \<noteq> (i, k)" using w fresh by (auto simp: fresh_cell_def)
    then have "awaited (spawn ?ws s) a b = awaited s a b"
      using ask_wires_new(3) by (fastforce simp: awaited_def)
    then show ?thesis using tallies_okD[OF ok(1) old(1) w(2,3)] by simp
  qed
qed

lemma election_inv_ask:
  assumes "election_inv s" and "i < length (procs s)" and "k < length (cells (procs s ! i))"
    and "distinct js" "i \<notin> set js" and "va_candidateid args = int i" and "fresh_cell s i k"
    and "cells (procs s ! i) ! k = 1" and "i \<in> voters s (va_term args) i"
  shows "election_inv (spawn (ask_wires i k args js) s)"
  using assms by (simp add: election_inv_def wires_ok_ask tallies_ok_ask)

section \<open>Every step keeps the invariant\<close>

lemma running_proc: "running i s \<Longrightarrow> i < length (procs s)"
  by (simp add: running_def)

lemma calm_same: "cells r = cells (procs s ! i) \<Longrightarrow> calm s i r"
  by (simp add: calm_def)

lemma calm_extend:
  assumes "election_inv s" and "cells r = cells (procs s ! i) @ cs"
  shows "calm s i r"
  unfolding calm_def
proof (intro allI impI)
  fix w k assume "w \<in># wires s" "cell_of w = Some (i, k)"
  then have "k < length (cells (procs s ! i))"
    using wire_ok_cell[OF wires_ok_wire] assms(1) by (simp add: election_inv_def)
  then show "cells r ! k \<le> max 0 (cells (procs s ! i) ! k)" using assms(2) by (simp add: nth_append)
qed

lemma fresh_cell_put:
  assumes "election_inv s"
  shows "fresh_cell (put i r s) i (length (cells (procs s ! i)))"
  using assms wire_ok_cell[OF wires_ok_wire] unfolding fresh_cell_def election_inv_def by fastforce

lemma election_inv_doElection:
  assumes inv: "election_inv s" and i: "i < length (procs s)"
    and el: "doElection L now (procs s ! i) = (r, ts)" and nl: "m_status (procs s ! i) \<noteq> Leader"
  shows "election_inv (spawn (map (Task i) ts) (put i r s))"
proof -
  let ?r = "procs s ! i"
  note f = doElection_candidate[OF nl el]
  have me: "m_me ?r = int i" using inv i by (simp add: election_inv_def votes_ok_def)
  have "election_inv (put i r s)"
    using inv i f by (intro election_inv_put) (auto simp: vote_step_def no_new_leader_def calm_extend)
  moreover have "map (Task i) ts = ask_wires i (length (cells ?r))
      \<lparr>va_term = m_currentTerm ?r + 1, va_candidateid = m_me ?r,
       va_lastlogindex = fst (getLastLogIndexAndTerm ?r), va_lastlogterm = snd (getLastLogIndexAndTerm ?r)\<rparr>
      (filter (\<lambda>j. int j \<noteq> m_me ?r) [0..<length (m_peers ?r)])"
    using doElection_threads[OF nl el] by (simp add: ask_wires_def comp_def)
  moreover have "i \<in> voters (put i r s) (m_currentTerm ?r + 1) i"
    using f me by (simp add: voters_def put_def)
  ultimately show ?thesis
    using fresh_cell_put[OF inv] f i me by (simp add: election_inv_ask)
qed

lemma election_inv_vote:
  assumes inv: "election_inv s" and w: "Task i (SendRequestVote j args k) \<in># wires s"
    and j: "0 \<le> j" "nat j < length (procs s)"
    and rv: "RequestVote L now args (procs s ! nat j) = Inr (reply, r)"
  shows "election_inv (spawn [VoteReply i j args k reply]
    (put (nat j) r (take_wire (Task i (SendRequestVote j args k)) s)))"
proof -
  let ?r = "procs s ! nat j"
  have "wire_ok s (Task i (SendRequestVote j args k))"
    using inv w wires_ok_wire by (simp add: election_inv_def)
  then have cand: "va_candidateid args = int i" by (simp add: wire_ok_def)
  have "vote_step ?r r \<and> no_new_leader ?r r"
  proof (cases "vr_votegranted reply")
    case True
    then show ?thesis
      using RequestVote_granted[OF rv True] RequestVote_frame[OF rv]
      by (auto simp: vote_step_def no_new_leader_def)
  next
    case False
    then show ?thesis using RequestVote_denied[OF rv] vote_frame_step by blast
  qed
  moreover have "calm s (nat j) r" using RequestVote_frame[OF rv] by (simp add: calm_same)
  ultimately have inv': "election_inv (put (nat j) r s)" using inv j election_inv_put by blast
  have "vr_term reply = va_term args \<and> nat j \<in> voters (put (nat j) r s) (va_term args) i"
    if "vr_votegranted reply"
    using RequestVote_granted[OF rv that] cand by (simp add: voters_def put_def)
  from election_inv_answer[OF inv' _ this] show ?thesis using w by (simp add: put_take_wire)
qed

lemma election_inv_vote_end:
  assumes inv: "election_inv s" and w: "VoteReply i j args k reply \<in># wires s" and i: "i < length (procs s)"
    and rv: "sendRequestVote_end L True reply k (procs s ! i) = Inr (r, ts)"
  shows "election_inv (spawn (map (Task i) ts) (put i r (take_wire (VoteReply i j args k reply) s)))"
proof -
  let ?w = "VoteReply i j args k reply" and ?s = "take_wire (VoteReply i j args k reply) s"
  have inv1: "election_inv ?s" by (rule election_inv_take[OF inv])
  have i1: "i < length (procs ?s)" using i by simp
  have ok: "wires_ok s" using inv by (simp add: election_inv_def)
  have tm: "vr_term reply = va_term args" if "vr_votegranted reply"
    using wires_ok_wire[OF ok w] that by (simp add: wire_ok_def)
  from rv show ?thesis
  proof (cases rule: sendRequestVote_cases)
    case other
    then show ?thesis using election_inv_local[OF inv1 i1, of r "[]"] by (simp add: calm_same)
  next
    case counted
    have "election_inv (put i r ?s)"
      by (rule election_inv_count[OF inv1 i1, where t = "va_term args"])
        (use counted tally_reply[OF inv w] same_round[OF ok w] in simp_all)
    then show ?thesis using counted by simp
  next
    case (won r3)
    let ?V = "voters s (va_term args) i"
    have "finite ?V" using inv voters_finite by (simp add: election_inv_def)
    then have "card (?V - awaited ?s i k) \<le> card ?V" by (intro card_mono) auto
    then have "int (length (m_peers (procs s ! i)) div 2) + 1 \<le> int (card ?V)"
      using won tally_reply[OF inv w] by linarith
    then have "election_inv (put i r ?s)"
      using election_inv_won[OF inv1 i1, of k r3 L] won tm by simp
    moreover have "quiet_wire (put i r ?s) (Task i DoHeartBeat)" by (simp add: quiet_wire_def)
    ultimately show ?thesis using won by (simp add: election_inv_quiet)
  qed
qed

lemma hb_peers_threads:
  "hb_peers r c is = Inr ts \<Longrightarrow> t \<in> set ts \<Longrightarrow>
   (\<exists>j. t = LeaderSendSnapShot j) \<or> (\<exists>j args. t = SendAppendEntries j args c)"
proof (induction "is" arbitrary: ts)
  case (Cons i "is")
  have one: "(\<exists>j. t' = LeaderSendSnapShot j) \<or> (\<exists>j args. t' = SendAppendEntries j args c)"
    if "hb_peer r c i = Inr t'" for t'
    using that by (auto simp: hb_peer_def bindr_eq_Inr split: if_splits)
  show ?case
  proof (cases "int i = m_me r")
    case True
    then show ?thesis using Cons by simp
  next
    case False
    then obtain t' ts' where "hb_peer r c i = Inr t'" "hb_peers r c is = Inr ts'" "ts = t' # ts'"
      using Cons.prems(1) by (auto simp: bindr_eq_Inr)
    then show ?thesis using one Cons.IH Cons.prems(2) by auto
  qed
qed simp

lemma doHeartBeat_threads:
  assumes "doHeartBeat now r = Inr (r', ts)" and "t \<in> set ts"
  shows "(\<exists>j. t = LeaderSendSnapShot j) \<or> (\<exists>j args. t = SendAppendEntries j args (length (cells r)))"
    and "cells r' = cells r @ [1]"
  using assms by (auto simp: doHeartBeat_def Let_def bindr_eq_Inr split: if_splits dest: hb_peers_threads)

lemma election_inv_doHeartBeat:
  assumes inv: "election_inv s" and i: "i < length (procs s)"
    and hb: "doHeartBeat now (procs s ! i) = Inr (r, ts)"
  shows "election_inv (spawn (map (Task i) ts) (put i r s))"
proof (rule election_inv_local[OF inv i])
  let ?r = "procs s ! i"
  show "vote_frame ?r r" using doHeartBeat_fields[OF hb] by (auto simp: vote_frame_def)
  show "calm s i r" using doHeartBeat_fields[OF hb] inv by (auto simp: calm_same intro: calm_extend)
  show "\<forall>w \<in> set (map (Task i) ts). quiet_wire (put i r s) w"
  proof
    fix w assume "w \<in> set (map (Task i) ts)"
    then obtain t where t: "t \<in> set ts" "w = Task i t" by auto
    from doHeartBeat_threads[OF hb t(1)] t(2) fresh_cell_put[OF inv, of i r] i
    show "quiet_wire (put i r s) w" by (auto simp: quiet_wire_def fresh_cell_def)
  qed
qed

lemma quiet_wire_inherit:
  assumes inv: "election_inv s" and w: "w \<in># wires s" "round_of w = None" "cell_of w = Some (i, k)"
    and w': "round_of w' = None" "cell_of w' = Some (i, k)"
    and r: "j < length (procs s)" "length (cells (procs s ! j)) \<le> length (cells r)"
  shows "quiet_wire (put j r (take_wire w s)) w'"
  unfolding quiet_wire_def
proof (intro conjI allI impI)
  have ok: "wires_ok s" using inv by (simp add: election_inv_def)
  note wk = wire_ok_cell[OF wires_ok_wire[OF ok w(1)] w(3)]
  fix a b assume "cell_of w' = Some (a, b)"
  then have ab: "a = i" "b = k" using w'(2) by simp_all
  show "a < length (procs (put j r (take_wire w s)))" using wk ab by simp
  show "b < length (cells (procs (put j r (take_wire w s)) ! a))"
    using wk ab r by (cases "a = j") simp_all
  fix v assume v: "v \<in># wires (put j r (take_wire w s))" "cell_of v = Some (a, b)"
  then have "v \<in># wires s" by (auto dest: in_diffD)
  then show "round_of v = None"
    using wires_ok_round[OF ok _ w(1) _ w(3)] v(2) ab w(2) by simp
qed (rule w'(1))

lemma calm_other_cell:
  assumes inv: "election_inv s" and w: "w \<in># wires s" "cell_of w = Some (i, k)" "round_of w = None"
    and eq: "\<And>b. b \<noteq> k \<Longrightarrow> b < length (cells (procs s ! i)) \<Longrightarrow> cells r ! b = cells (procs s ! i) ! b"
  shows "calm s i r"
  unfolding calm_def
proof (intro allI impI)
  have ok: "wires_ok s" using inv by (simp add: election_inv_def)
  fix v b assume v: "v \<in># wires s" "cell_of v = Some (i, b)" "round_of v \<noteq> None"
  then have "b \<noteq> k" using wires_ok_round[OF ok v(1) w(1) v(2)] w(2,3) by auto
  then show "cells r ! b \<le> max 0 (cells (procs s ! i) ! b)"
    using eq wire_ok_cell[OF wires_ok_wire[OF ok v(1)] v(2)] by simp
qed

lemma calm_take: "calm s i r \<Longrightarrow> calm (take_wire w s) i r"
  by (auto simp: calm_def dest: in_diffD)

lemma election_inv_append_end:
  assumes inv: "election_inv s" and w: "AppendReply i j args k reply \<in># wires s" and i: "i < length (procs s)"
    and ap: "sendAppendEntries_end j args True reply k (procs s ! i) = Inr r"
  shows "election_inv (put i r (take_wire (AppendReply i j args k reply) s))"
proof -
  note vf = sendAppendEntries_vote_frame[OF ap]
  have "calm s i r" by (rule calm_other_cell[OF inv w]) (use vf in auto)
  then show ?thesis
    using election_inv_local[OF election_inv_take[OF inv], of i _ r "[]"] vf i
    by (simp add: calm_take)
qed

lemma local_step:
  assumes "election_inv s" and "i < length (procs s)"
    and "vote_frame (procs s ! i) r \<and> cells r = cells (procs s ! i)"
  shows "election_inv (put i r s)" and "election_inv (put i r (take_wire w s))"
  using assms election_inv_local[of s i r "[]"] election_inv_local[of "take_wire w s" i r "[]"]
  by (simp_all add: calm_same election_inv_take)

lemma vote_frame_local:
  "vote_frame r (r\<lparr>applyChan := q\<rparr>)" "vote_frame r (r\<lparr>m_persister := p\<rparr>)"
  by (simp_all add: vote_frame_def)

lemma election_inv_append:
  assumes inv: "election_inv s" and w: "Task i (SendAppendEntries j args k) \<in># wires s"
    and j: "nat j < length (procs s)"
    and ap: "AppendEntries1 L now args (procs s ! nat j) = Inr (reply, r)"
  shows "election_inv (spawn [AppendReply i j args k reply]
    (put (nat j) r (take_wire (Task i (SendAppendEntries j args k)) s)))"
proof -
  note vf = AppendEntries1_vote_frame[OF ap]
  show ?thesis
    by (rule election_inv_local[OF election_inv_take[OF inv]])
      (use j vf in \<open>auto simp: calm_same intro!: quiet_wire_inherit[OF inv w]\<close>)
qed

lemma election_inv_cellfree:
  assumes inv: "election_inv s" and j: "j < length (procs s)"
    and vf: "vote_frame (procs s ! j) r \<and> cells r = cells (procs s ! j)"
    and ws: "\<forall>w' \<in> set ws. cell_of w' = None \<and> round_of w' = None"
  shows "election_inv (spawn ws (put j r (take_wire w s)))"
  using election_inv_local[OF election_inv_take[OF inv], of j w r ws] j vf ws
  by (simp add: calm_same quiet_wire_def)

lemma InstallSnapshot_threads:
  "InstallSnapshot L now args r = Inr (reply, r', ts) \<Longrightarrow> t \<in> set ts \<Longrightarrow> \<exists>msg. t = PushMsgToKvServer msg"
  by (auto simp: InstallSnapshot_def Let_def bindr_eq_Inr split: if_splits)

lemma halted_frame [simp]:
  "voters (s\<lparr>halted := h\<rparr>) = voters s" "awaited (s\<lparr>halted := h\<rparr>) = awaited s"
  by (simp_all add: voters_def awaited_def fun_eq_iff)

lemma election_inv_halted [simp]: "election_inv (s\<lparr>halted := h\<rparr>) = election_inv s"
  unfolding election_inv_def votes_ok_def wires_ok_def wire_ok_def tallies_ok_def leaders_ok_def
    halted_frame cluster.select_convs cluster.update_convs
  by simp

lemma election_inv_step:
  assumes st: "step L s s'" and inv: "election_inv s"
  shows "election_inv s'"
  using st
proof cases
  case (election i wakeTime now r ts)
  then show ?thesis
    using inv election_inv_doElection[OF inv running_proc[OF election(2)]] local_step(1)[OF inv running_proc[OF election(2)]]
    by (cases "m_status (procs s ! i) = Leader")
      (auto simp: electionTimeOutTicker_def doElection_leader split: if_splits)
next
  case (vote i j args k now reply r)
  then show ?thesis using election_inv_vote[OF inv] running_proc by simp
next
  case (vote_end i j args k reply r ts)
  then show ?thesis using election_inv_vote_end[OF inv] running_proc by simp
next
  case (heartbeat i wakeTime now r ts)
  then show ?thesis
    using inv election_inv_doHeartBeat[OF inv running_proc[OF heartbeat(2)]] local_step(1)[OF inv running_proc[OF heartbeat(2)]]
    by (auto simp: leaderHearBeatTicker_def split: if_splits)
next
  case (first_heartbeat i now r ts)
  then show ?thesis
    using election_inv_doHeartBeat[OF election_inv_take[OF inv]] running_proc by simp
next
  case (append i j args k now reply r)
  then show ?thesis using election_inv_append[OF inv] running_proc by simp
next
  case (append_end i j args k reply r)
  then show ?thesis using election_inv_append_end[OF inv] running_proc by simp
next
  case (snap_begin i j args r)
  then have "vote_frame (procs s ! i) r \<and> cells r = cells (procs s ! i)"
    using leaderSendSnapShot_begin_fields[of "procs s ! i"] vote_frame_local(2) by simp
  then show ?thesis using snap_begin election_inv_cellfree[OF inv] running_proc by simp
next
  case (snap i j args now reply r ts)
  have "\<forall>w' \<in> set (SnapReply i j args reply # map (Task (nat j)) ts). cell_of w' = None \<and> round_of w' = None"
    using InstallSnapshot_threads[OF snap(5)] by fastforce
  then show ?thesis
    using snap election_inv_cellfree[OF inv running_proc InstallSnapshot_vote_frame] by simp
next
  case (snap_end i j args reply now r)
  then show ?thesis using local_step(2)[OF inv running_proc leaderSendSnapShot_end_vote_frame] by simp
next
  case (push_msg i msg)
  then show ?thesis
    using local_step(2)[OF inv running_proc] vote_frame_local(1) by (simp add: pushMsgToKvServer_def)
next
  case (start_op i op index tm isLeader r)
  then show ?thesis using local_step(1)[OF inv running_proc Start_vote_frame] by simp
next
  case (apply_logs i msgs r)
  then obtain la where "r = (procs s ! i)\<lparr>m_lastApplied := la\<rparr>" using getApplyLogs_fields by blast
  then have vf: "vote_frame (procs s ! i) r \<and> cells r = cells (procs s ! i)" by (simp add: vote_frame_def)
  show ?thesis
    using apply_logs(1) election_inv_local[OF inv running_proc[OF apply_logs(2)]] vf
    by (simp add: calm_same quiet_wire_def)
next
  case (apply_push i msg msgs)
  then show ?thesis
    using election_inv_cellfree[OF inv running_proc] vote_frame_local(1) by (simp add: pushMsgToKvServer_def)
next
  case (apply_sleep i)
  then show ?thesis using election_inv_take[OF inv] by simp
next
  case (apply_pop i msg q)
  then show ?thesis using local_step(1)[OF inv running_proc] vote_frame_local(1) by simp
next
  case (compact i index snapshot r)
  then show ?thesis using local_step(1)[OF inv running_proc Raft_Snapshot_vote_frame] by simp
next
  case (lose w)
  then show ?thesis using election_inv_take[OF inv] by simp
next
  case (halt i)
  then show ?thesis using inv by simp
qed

lemma fresh_proc:
  assumes "cluster_start L s" and "i < length (procs s)"
  shows "raft_wf (procs s ! i)" "m_me (procs s ! i) = int i" "length (m_peers (procs s ! i)) = length (procs s)"
    "m_status (procs s ! i) = Follower" "m_votedFor (procs s ! i) = -1"
proof -
  obtain now peers rf sf q where n: "length peers = length (procs s)"
    and "raft_init L now peers (int i) (new_Persister rf sf) q = Inr (procs s ! i)"
    using assms by (auto simp: cluster_start_def)
  then have eq: "procs s ! i = \<lparr>m_peers = peers, m_persister = new_Persister rf sf, m_me = int i, m_currentTerm = 0,
         m_votedFor = -1, m_logs = [], m_commitIndex = 0, m_lastApplied = 0,
         m_nextIndex = replicate (length peers) 0, m_matchIndex = replicate (length peers) 0,
         m_status = Follower, applyChan = q, m_lastResetElectionTime = now,
         m_lastResetHearBeatTime = now, m_lastSnapshotIncludeIndex = 0,
         m_lastSnapshotIncludeTerm = 0, cells = []\<rparr>"
    by (simp add: raft_init_fresh ReadRaftState_new_Persister)
  show "raft_wf (procs s ! i)" "m_me (procs s ! i) = int i" "length (m_peers (procs s ! i)) = length (procs s)"
    "m_status (procs s ! i) = Follower" "m_votedFor (procs s ! i) = -1"
    unfolding eq using n assms(2) by (simp_all add: raft_wf_def)
qed

lemma election_inv_start: "cluster_start L s \<Longrightarrow> election_inv s"
  using fresh_proc[of L s]
  by (simp add: election_inv_def votes_ok_def wires_ok_def tallies_ok_def leaders_ok_def cluster_start_def)

interpretation el: inductive_invariant "cluster_start L" "step L" election_inv for L
  by unfold_locales (auto intro: election_inv_start election_inv_step)

interpretation maj: quorum_system "majority n" "\<lambda>t v c. votes_ok s \<and> (t, v, c) \<in> ballots s" for n s
  by unfold_locales (use majorities_meet in \<open>auto simp: votes_ok_def\<close>)

lemma leader_elected:
  assumes "election_inv s" and "i < length (procs s)" and "m_status (procs s ! i) = Leader"
  shows "maj.elected (length (procs s)) s (m_currentTerm (procs s ! i)) (int i)"
  unfolding maj.elected_def using assms
  by (intro exI[of _ "voters s (m_currentTerm (procs s ! i)) i"])
    (auto simp: election_inv_def leaders_ok_def voters_def)

section \<open>An example run\<close>

text \<open>Three fresh nodes; the first starts an election, the second votes, the first wins.\<close>

definition demo_fresh :: "int \<Rightarrow> Raft" where
  "demo_fresh i = \<lparr>m_peers = demo_peers, m_persister = demo_persister, m_me = i, m_currentTerm = 0,
     m_votedFor = -1, m_logs = [], m_commitIndex = 0, m_lastApplied = 0,
     m_nextIndex = [0, 0, 0], m_matchIndex = [0, 0, 0], m_status = Follower, applyChan = empty_queue,
     m_lastResetElectionTime = 0, m_lastResetHearBeatTime = 0, m_lastSnapshotIncludeIndex = 0,
     m_lastSnapshotIncludeTerm = 0, cells = []\<rparr>"

definition demo_cluster :: cluster where
  "demo_cluster = \<lparr>procs = [demo_fresh 0, demo_fresh 1, demo_fresh 2], wires = {#}, halted = {}, ballots = {}\<rparr>"

lemma demo_cluster_start: "cluster_start demo_lib demo_cluster"
proof -
  have "raft_init demo_lib 0 demo_peers i (new_Persister demo_file demo_file) empty_queue = Inr (demo_fresh i)" for i
    by (simp add: raft_init_fresh ReadRaftState_new_Persister demo_fresh_def demo_persister_def demo_peers_def
        numeral_3_eq_3)
  moreover have "length demo_peers = 3" by (simp add: demo_peers_def)
  ultimately show ?thesis
    unfolding cluster_start_def
    by (auto simp: demo_cluster_def less_Suc_eq numeral_3_eq_3 intro!: exI[of _ 0] exI[of _ demo_peers]
        exI[of _ demo_file] exI[of _ empty_queue])
qed

definition demo_blank :: "Raft \<Rightarrow> bool" where
  "demo_blank r \<longleftrightarrow> m_currentTerm r = 1 \<and> m_logs r = [] \<and> m_commitIndex r = 0 \<and> m_lastApplied r = 0 \<and>
     m_lastSnapshotIncludeIndex r = 0 \<and> m_lastSnapshotIncludeTerm r = 0 \<and> applyChan r = empty_queue \<and> m_peers r = demo_peers"

lemma demo_run:
  "\<exists>s. (step demo_lib)\<^sup>*\<^sup>* demo_cluster s \<and> length (procs s) = 3 \<and>
     m_status (procs s ! 0) = Leader \<and> m_currentTerm (procs s ! 0) = 1 \<and> halted s = {} \<and>
     demo_blank (procs s ! 0) \<and> demo_blank (procs s ! 1) \<and> m_me (procs s ! 0) = 0 \<and>
     m_nextIndex (procs s ! 0) = [1, 1, 1] \<and> m_matchIndex (procs s ! 0) = [0, 0, 0] \<and> (\<forall>i ms. Applying i ms \<notin># wires s)"
proof -
  let ?r0 = "procs demo_cluster ! 0" and ?s0 = demo_cluster
  obtain r ts where el: "doElection demo_lib 0 ?r0 = (r, ts)" by (cases "doElection demo_lib 0 ?r0")
  have nl: "m_status ?r0 \<noteq> Leader" by (simp add: demo_cluster_def demo_fresh_def)
  note f = doElection_candidate[OF nl el, simplified demo_cluster_def demo_fresh_def, simplified]
  let ?args = "\<lparr>va_term = 1, va_candidateid = 0, va_lastlogindex = 0, va_lastlogterm = 0\<rparr>"
  let ?w = "Task 0 (SendRequestVote 1 ?args 0)"
  define s1 where "s1 = spawn (map (Task 0) ts) (put 0 r ?s0)"
  have st1: "step demo_lib ?s0 s1"
    unfolding s1_def by (rule step.election[where wakeTime = 0 and now = 0])
      (use el in \<open>simp_all add: running_def electionTimeOutTicker_def demo_cluster_def demo_fresh_def\<close>)
  have w: "?w \<in># wires s1"
    using doElection_threads[OF nl el]
    by (simp add: s1_def demo_cluster_def demo_fresh_def demo_peers_def getLastLogIndexAndTerm_def upt_rec)
  define reply where "reply = new_RequestVoteReply\<lparr>vr_term := 1, vr_votestate := Normal, vr_votegranted := True\<rparr>"
  define r1 where "r1 = persist demo_lib ((demo_fresh 1)\<lparr>m_status := Follower, m_currentTerm := 1,
    m_votedFor := 0, m_lastResetElectionTime := 0\<rparr>)"
  have rv: "RequestVote demo_lib 0 ?args (procs s1 ! 1) = Inr (reply, r1)"
    by (simp add: s1_def demo_cluster_def RequestVote_def Let_def UpToDate_def getLastLogIndexAndTerm_def
        reply_def r1_def) (simp add: demo_fresh_def)
  define s2 where "s2 = spawn [VoteReply 0 1 ?args 0 reply] (put 1 r1 (take_wire ?w s1))"
  have st2: "step demo_lib s1 s2"
    unfolding s2_def using step.vote[OF w, of demo_lib 0 reply r1] rv
    by (simp add: running_def s1_def demo_cluster_def)
  have p2: "procs s2 ! 0 = r" "length (procs s2) = 3" "halted s2 = {}"
    by (simp_all add: s2_def s1_def demo_cluster_def)
  have "\<exists>r'. sendRequestVote_end demo_lib True reply 0 r = Inr (r', [DoHeartBeat]) \<and>
      m_status r' = Leader \<and> m_me r' = 0 \<and> demo_blank r' \<and> m_nextIndex r' = [1, 1, 1] \<and> m_matchIndex r' = [0, 0, 0]"
    using f by (simp add: sendRequestVote_end_def reply_def become_leader_def Let_def vec_at_def demo_peers_def
        last_log_defs numeral_3_eq_3 demo_blank_def)
  then obtain r' where r': "sendRequestVote_end demo_lib True reply 0 r = Inr (r', [DoHeartBeat])"
    "m_status r' = Leader" "m_me r' = 0" "demo_blank r'" "m_nextIndex r' = [1, 1, 1]" "m_matchIndex r' = [0, 0, 0]" by blast
  define s3 where "s3 = spawn (map (Task 0) [DoHeartBeat]) (put 0 r' (take_wire (VoteReply 0 1 ?args 0 reply) s2))"
  have st3: "step demo_lib s2 s3"
  proof -
    have "VoteReply 0 1 ?args 0 reply \<in># wires s2" by (simp add: s2_def)
    moreover have "running 0 s2" using p2(2,3) by (simp add: running_def)
    ultimately show ?thesis unfolding s3_def using step.vote_end r'(1)[folded p2(1)] by blast
  qed
  have "(step demo_lib)\<^sup>*\<^sup>* demo_cluster s3"
    by (rule converse_rtranclp_into_rtranclp[OF st1 converse_rtranclp_into_rtranclp[where r = "step demo_lib", OF st2 r_into_rtranclp[where r = "step demo_lib", OF st3]]])
  moreover have "length (procs s3) = 3 \<and> procs s3 ! 0 = r' \<and> halted s3 = {}" using p2 by (simp add: s3_def)
  moreover have "demo_blank (procs s3 ! 1)"
    by (simp add: s3_def s2_def s1_def r1_def demo_cluster_def demo_fresh_def demo_blank_def)
  moreover have "m_currentTerm r' = 1" using r'(4) by (simp add: demo_blank_def)
  moreover have "\<forall>i ms. Applying i ms \<notin># wires s3" by (auto simp: s3_def s2_def s1_def demo_cluster_def dest: in_diffD)
  ultimately show ?thesis using r' by blast
qed

section \<open>Properties\<close>

text \<open>
  C1: Election safety. In every state that a cluster of any size can reach from a
  fresh start, under any interleaving of handlers, timers and reply threads, with messages lost or overtaken and nodes stopping
  at any time, two nodes that are leaders of the same term are the same node.
\<close>

theorem election_safety:
  assumes "cluster_start L s0" and "(step L)\<^sup>*\<^sup>* s0 s"
    and "i < length (procs s)" and "j < length (procs s)"
    and "m_status (procs s ! i) = Leader" and "m_status (procs s ! j) = Leader"
    and "m_currentTerm (procs s ! i) = m_currentTerm (procs s ! j)"
  shows "i = j"
proof -
  have inv: "election_inv s" by (rule el.holds_reachable[OF assms(1,2)])
  have "int i = int j"
    by (rule maj.elected_unique[OF leader_elected[OF inv assms(3,5)]])
      (use leader_elected[OF inv assms(4,6)] assms(7) in simp)
  then show ?thesis by simp
qed

theorem election_safety_witness:
  "\<exists>s. (step demo_lib)\<^sup>*\<^sup>* demo_cluster s \<and> m_status (procs s ! 0) = Leader \<and>
     (\<forall>j < 3. m_status (procs s ! j) = Leader \<and> m_currentTerm (procs s ! j) = m_currentTerm (procs s ! 0) \<longrightarrow> j = 0)"
proof -
  obtain s where s: "(step demo_lib)\<^sup>*\<^sup>* demo_cluster s" "length (procs s) = 3" "m_status (procs s ! 0) = Leader"
    using demo_run by blast
  from election_safety[OF demo_cluster_start s(1), where i = 0] s show ?thesis
    by (intro exI[of _ s]) force
qed

end
