(* ===== verification/ClusterLog.thy ===== *)
theory ClusterLog
  imports ElectionSafety "HOL-Library.Product_Order"
begin

text \<open>
  What every reachable state of a cluster satisfies about logs: each node's log is
  consistently indexed and its applied, committed and last positions are ordered
  (\<open>raft_wf\<close>), every append request in flight carries consecutive entries (\<open>args_wf\<close>),
  and the term, the commit, applied, snapshot and last log positions of a node never go back.
\<close>

section \<open>Handlers keep the log well formed\<close>

text \<open>The positions of a node that only move forward.\<close>

definition advance :: "Raft \<Rightarrow> Raft \<Rightarrow> bool" where
  "advance r r' \<longleftrightarrow> m_currentTerm r \<le> m_currentTerm r' \<and> m_commitIndex r \<le> m_commitIndex r' \<and>
     m_lastApplied r \<le> m_lastApplied r' \<and> m_lastSnapshotIncludeIndex r \<le> m_lastSnapshotIncludeIndex r' \<and>
     m_lastSnapshotIncludeIndex r + int (length (m_logs r)) \<le> m_lastSnapshotIncludeIndex r' + int (length (m_logs r'))"

lemma advance_refl [simp]: "advance r r"
  by (simp add: advance_def)

lemma advance_persist [simp]: "advance r (persist L r') = advance r r'"
  by (simp add: advance_def)

lemma ae_entry_indexed:
  assumes idx: "indexed_from (m_lastSnapshotIncludeIndex r) (m_logs r)" and run: "ae_entry r e = Inr r'"
    and e: "m_lastSnapshotIncludeIndex r < logindex e" "logindex e \<le> getLastLogIndex r + 1"
  shows "\<exists>logs. r' = r\<lparr>m_logs := logs\<rparr> \<and> indexed_from (m_lastSnapshotIncludeIndex r) logs \<and>
    length (m_logs r) \<le> length logs \<and> logindex e \<le> m_lastSnapshotIncludeIndex r + int (length logs)"
proof (cases "logindex e > getLastLogIndex r")
  case True
  then show ?thesis
    using run e last_index_eq[OF idx] idx by (auto simp: ae_entry_def indexed_from_append)
next
  case False
  let ?k = "nat (logindex e - m_lastSnapshotIncludeIndex r - 1)"
  have k: "?k < length (m_logs r)" "logindex e = m_lastSnapshotIncludeIndex r + 1 + int ?k"
    using False e(1) last_index_eq[OF idx] by auto
  have "r' = r \<or> r' = r\<lparr>m_logs := (m_logs r)[?k := e]\<rparr>"
    using run False e(1) by (auto simp: ae_entry_def bindr_eq_Inr vec_set_eq_Inr slices_in_range split: if_splits)
  then obtain logs where logs: "r' = r\<lparr>m_logs := logs\<rparr>" "logs = m_logs r \<or> logs = (m_logs r)[?k := e]"
    by (metis m_logs_self)
  then have "indexed_from (m_lastSnapshotIncludeIndex r) logs" "length logs = length (m_logs r)"
    using idx indexed_from_update[OF idx k(1), of e] k(2) by auto
  then show ?thesis using logs(1) k by auto
qed

lemma ae_entries_indexed:
  "indexed_from (m_lastSnapshotIncludeIndex r) (m_logs r) \<Longrightarrow> ae_entries r es = Inr r' \<Longrightarrow>
   indexed_from p es \<Longrightarrow> m_lastSnapshotIncludeIndex r \<le> p \<Longrightarrow> p \<le> getLastLogIndex r \<Longrightarrow>
   \<exists>logs. r' = r\<lparr>m_logs := logs\<rparr> \<and> indexed_from (m_lastSnapshotIncludeIndex r) logs \<and>
     length (m_logs r) \<le> length logs"
proof (induction es arbitrary: r p)
  case Nil
  then show ?case by (auto intro: exI[of _ "m_logs r"])
next
  case (Cons e es)
  then obtain r1 where r1: "ae_entry r e = Inr r1" "ae_entries r1 es = Inr r'"
    by (auto simp: bindr_eq_Inr)
  have e: "logindex e = p + 1" "indexed_from (p + 1) es" using Cons.prems(3) by auto
  obtain logs where logs: "r1 = r\<lparr>m_logs := logs\<rparr>" "indexed_from (m_lastSnapshotIncludeIndex r) logs"
    "length (m_logs r) \<le> length logs" "p + 1 \<le> m_lastSnapshotIncludeIndex r + int (length logs)"
    using ae_entry_indexed[OF Cons.prems(1) r1(1)] e(1) Cons.prems(4,5) by auto
  have "p + 1 \<le> getLastLogIndex r1" using last_index_eq[of r1] logs by simp
  then obtain logs' where "r' = r1\<lparr>m_logs := logs'\<rparr>" "indexed_from (m_lastSnapshotIncludeIndex r) logs'"
    "length logs \<le> length logs'"
    using Cons.IH[OF _ r1(2) e(2)] logs(1,2) Cons.prems(4) by auto
  then show ?case using logs(1,3) by (auto intro: exI[of _ logs'])
qed

lemma AppendEntries1_accepting_match:
  assumes acc: "m_currentTerm r \<le> aa_term args"
    and prev: "m_lastSnapshotIncludeIndex r \<le> aa_prevlogindex args" "aa_prevlogindex args \<le> getLastLogIndex r"
    and ml: "matchLog (ae_enter now args r) (aa_prevlogindex args) (aa_prevlogterm args) = Inr True"
    and run: "AppendEntries1 L now args r = Inr (reply, r')"
  obtains r3 r4 where "ae_entries (ae_enter now args r) (aa_entries args) = Inr r3"
    "r4 = (if aa_leadercommit args > m_commitIndex r3
       then r3\<lparr>m_commitIndex := min (aa_leadercommit args) (getLastLogIndex r3)\<rparr> else r3)"
    "m_commitIndex r4 \<le> getLastLogIndex r4" "r' = persist L r4"
proof -
  have np: "\<not> aa_prevlogindex args > getLastLogIndex r"
    and nb: "\<not> aa_prevlogindex args < m_lastSnapshotIncludeIndex (ae_enter now args r)"
    using prev by simp_all
  show thesis
    using run that unfolding AppendEntries1_accepted[OF acc] Let_def if_not_P[OF np] if_not_P[OF nb] ml bindr_Inr if_True
    by (elim bindrE) (simp only: myAssert_Inr sum.inject prod.inject)
qed

lemma AppendEntries1_wf:
  assumes wf: "raft_wf r" and run: "AppendEntries1 L now args r = Inr (reply, r')" and args: "args_wf args"
  shows "raft_wf r' \<and> advance r r'"
proof -
  let ?r2 = "ae_enter now args r" and ?p = "aa_prevlogindex args"
  have idx: "indexed_from (m_lastSnapshotIncludeIndex r) (m_logs r)" using wf by (simp add: raft_wf_def)
  consider (stale) "aa_term args < m_currentTerm r"
    | (far) "m_currentTerm r \<le> aa_term args" "getLastLogIndex r < ?p"
    | (early) "m_currentTerm r \<le> aa_term args" "?p < m_lastSnapshotIncludeIndex r"
    | (clash) "m_currentTerm r \<le> aa_term args" "m_lastSnapshotIncludeIndex r \<le> ?p" "?p \<le> getLastLogIndex r"
        "term_at r ?p \<noteq> Some (aa_prevlogterm args)"
    | (merge) "m_currentTerm r \<le> aa_term args" "m_lastSnapshotIncludeIndex r \<le> ?p" "?p \<le> getLastLogIndex r"
        "term_at r ?p = Some (aa_prevlogterm args)"
    by linarith
  then show ?thesis
  proof cases
    case stale
    then show ?thesis using run wf by (simp add: AppendEntries1_stale)
  next
    case far
    then show ?thesis using run wf by (auto simp: AppendEntries1_too_far advance_def)
  next
    case early
    then show ?thesis using run AppendEntries1_before_snapshot[OF wf early] by simp
  next
    case clash
    then show ?thesis using run wf AppendEntries1_mismatch[OF wf clash, of L now] by (auto simp: advance_def)
  next
    case merge
    have "matchLog ?r2 ?p (aa_prevlogterm args) = Inr True"
      using matchLog_term_at[of ?r2 ?p] idx merge by simp
    from AppendEntries1_accepting_match[OF merge(1-3) this run] obtain r3 r4 where
      r3: "ae_entries ?r2 (aa_entries args) = Inr r3"
      and r4: "r4 = (if aa_leadercommit args > m_commitIndex r3
         then r3\<lparr>m_commitIndex := min (aa_leadercommit args) (getLastLogIndex r3)\<rparr> else r3)"
        "m_commitIndex r4 \<le> getLastLogIndex r4" and r': "r' = persist L r4" by blast
    obtain logs where logs: "r3 = ?r2\<lparr>m_logs := logs\<rparr>" "indexed_from (m_lastSnapshotIncludeIndex r) logs"
      "length (m_logs r) \<le> length logs"
      using ae_entries_indexed[OF _ r3, of ?p] idx args merge(2,3) by (auto simp: args_wf_def)
    have "getLastLogIndex r4 = m_lastSnapshotIncludeIndex r + int (length logs)"
      using last_index_eq[of r4] logs by (simp add: r4(1))
    moreover have "m_commitIndex r \<le> m_commitIndex r4"
      using wf logs last_index_eq[of r3] by (auto simp: r4(1) raft_wf_def)
    ultimately show ?thesis
      using wf logs r4(2) merge(1) by (auto simp: r' r4(1) raft_wf_def advance_def)
  qed
qed

text \<open>Requests that \<open>doHeartBeat\<close> manages to build carry consecutive entries.\<close>

lemma getSlices_Inr:
  "getSlicesIndexFromLogIndex r i = Inr k \<Longrightarrow>
   m_lastSnapshotIncludeIndex r < i \<and> i \<le> getLastLogIndex r \<and> k = i - m_lastSnapshotIncludeIndex r - 1"
  by (auto simp: getSlicesIndexFromLogIndex_def bindr_eq_Inr)

lemma log_suffix_indexed:
  assumes idx: "indexed_from (m_lastSnapshotIncludeIndex r) (m_logs r)" and run: "log_suffix r p = Inr es"
  shows "indexed_from p es"
proof (cases "p = m_lastSnapshotIncludeIndex r")
  case True
  then show ?thesis using idx run by (simp add: log_suffix_def)
next
  case False
  let ?n = "nat (p - m_lastSnapshotIncludeIndex r)"
  have p: "m_lastSnapshotIncludeIndex r < p" "p \<le> getLastLogIndex r" and es: "es = drop ?n (m_logs r)"
    using run False by (auto simp: log_suffix_def bindr_eq_Inr dest!: getSlices_Inr)
  have "?n \<le> length (m_logs r)" "p = m_lastSnapshotIncludeIndex r + int ?n"
    using p last_index_eq[OF idx] by auto
  then show ?thesis using indexed_from_drop[OF idx, of ?n] by (simp add: es)
qed

lemma hb_peer_args:
  assumes "indexed_from (m_lastSnapshotIncludeIndex r) (m_logs r)"
    and "hb_peer r c i = Inr (SendAppendEntries j args k)"
  shows "args_wf args"
  using assms(2) log_suffix_indexed[OF assms(1)]
  by (auto simp: hb_peer_def args_wf_def bindr_eq_Inr split: if_splits)

lemma hb_peers_args:
  assumes "indexed_from (m_lastSnapshotIncludeIndex r) (m_logs r)"
  shows "hb_peers r c is = Inr ts \<Longrightarrow> SendAppendEntries j args k \<in> set ts \<Longrightarrow> args_wf args"
proof (induction "is" arbitrary: ts)
  case (Cons i "is")
  then show ?case
    using hb_peer_args[OF assms] by (cases "int i = m_me r") (auto simp: bindr_eq_Inr)
qed simp

lemma doHeartBeat_args:
  assumes "raft_wf r" and "doHeartBeat now r = Inr (r', ts)" and "SendAppendEntries j args k \<in> set ts"
  shows "args_wf args"
  using assms hb_peers_args[of "r\<lparr>cells := cells r @ [1]\<rparr>"]
  by (auto simp: doHeartBeat_def Let_def bindr_eq_Inr raft_wf_def split: if_splits)

text \<open>The other handlers.\<close>

lemma doHeartBeat_wf:
  "raft_wf r \<Longrightarrow> doHeartBeat now r = Inr (r', ts) \<Longrightarrow> raft_wf r' \<and> advance r r'"
  using doHeartBeat_fields[of now r r' ts] by (auto simp: advance_def)

lemma doElection_wf:
  assumes wf: "raft_wf r" and run: "doElection L now r = (r', ts)"
  shows "raft_wf r' \<and> advance r r'"
proof (cases "m_status r = Leader")
  case True
  then show ?thesis using wf run by (simp add: doElection_leader)
next
  case False
  then show ?thesis
    using raft_wf_doElection[OF wf run] doElection_candidate[OF False run] by (simp add: advance_def)
qed

lemma RequestVote_wf:
  "raft_wf r \<Longrightarrow> RequestVote L now args r = Inr (reply, r') \<Longrightarrow> raft_wf r' \<and> advance r r'"
  using raft_wf_RequestVote[of r L now args reply r'] RequestVote_frame[of L now args r reply r']
    RequestVote_granted(2,4)[of L now args r reply r'] RequestVote_denied[of L now args r reply r']
  by (cases "vr_votegranted reply") (auto simp: advance_def vote_frame_def)

lemma sendRequestVote_end_wf:
  assumes wf: "raft_wf r" and run: "sendRequestVote_end L ok reply k r = Inr (r', ts)"
  shows "raft_wf r' \<and> advance r r'"
  using run
proof (cases rule: sendRequestVote_cases)
  case other
  have "m_logs r' = m_logs r \<and> m_commitIndex r' = m_commitIndex r \<and> m_lastApplied r' = m_lastApplied r \<and>
      m_lastSnapshotIncludeIndex r' = m_lastSnapshotIncludeIndex r \<and> raft_wf r'"
    using run wf other(2,3)
    by (auto simp: sendRequestVote_end_def bindr_eq_Inr Let_def split: if_splits)
  then show ?thesis using other(1) by (auto simp: advance_def vote_frame_def)
next
  case counted
  then show ?thesis using wf by (simp add: advance_def)
next
  case (won r3)
  then show ?thesis
    using wf become_leader_wf[of "r\<lparr>cells := (cells r)[k := 0]\<rparr>"] become_leader_fields[OF won(6)]
    by (auto simp: advance_def)
qed

lemma sendAppendEntries_advance:
  assumes "raft_wf r" and "sendAppendEntries_end server args ok reply k r = Inr r'"
  shows "raft_wf r' \<and> advance r r'"
proof -
  have "m_commitIndex r \<le> m_commitIndex r'" using sendAppendEntries_commit[OF assms(2)] by auto
  moreover from assms(2) have "m_currentTerm r \<le> m_currentTerm r' \<and> m_lastApplied r' = m_lastApplied r \<and>
      m_lastSnapshotIncludeIndex r' = m_lastSnapshotIncludeIndex r \<and> m_logs r' = m_logs r"
    by (cases rule: sendAppendEntries_cases) auto
  ultimately show ?thesis using sendAppendEntries_wf[OF assms(2,1)] by (simp add: advance_def)
qed

lemma InstallSnapshot_wf:
  assumes wf: "raft_wf r" and run: "InstallSnapshot L now args r = Inr (reply, r', ts)"
  shows "raft_wf r' \<and> advance r r'"
proof -
  let ?idx = "sa_lastsnapshotincludeindex args"
  have idx: "indexed_from (m_lastSnapshotIncludeIndex r) (m_logs r)" using wf by (simp add: raft_wf_def)
  note last = last_index_eq[OF idx]
  consider (stale) "sa_term args < m_currentTerm r"
    | (old) "m_currentTerm r \<le> sa_term args" "?idx \<le> m_lastSnapshotIncludeIndex r"
    | (trim) "m_currentTerm r \<le> sa_term args" "m_lastSnapshotIncludeIndex r < ?idx" "?idx < getLastLogIndex r"
    | (all) "m_currentTerm r \<le> sa_term args" "m_lastSnapshotIncludeIndex r < ?idx" "getLastLogIndex r \<le> ?idx"
    by linarith
  then show ?thesis
  proof cases
    case stale
    then show ?thesis using run wf by (simp add: InstallSnapshot_stale)
  next
    case old
    then show ?thesis using run wf by (auto simp: InstallSnapshot_def Let_def advance_def split: if_splits)
  next
    case trim
    let ?n = "nat (?idx - m_lastSnapshotIncludeIndex r)"
    have "?n \<le> length (m_logs r)" "?idx = m_lastSnapshotIncludeIndex r + int ?n" using trim last by auto
    then have "indexed_from ?idx (drop ?n (m_logs r))" using indexed_from_drop[OF idx, of ?n] by simp
    then show ?thesis
      using run wf trim last
      by (auto simp: InstallSnapshot_def Let_def advance_def slices_in_range raft_wf_def split: if_splits)
  next
    case all
    then show ?thesis
      using run wf last
      by (auto simp: InstallSnapshot_def Let_def advance_def raft_wf_def split: if_splits)
  qed
qed

lemma leaderSendSnapShot_end_wf:
  assumes wf: "raft_wf r" and run: "leaderSendSnapShot_end L now server args ok reply r = Inr r'"
  shows "raft_wf r' \<and> advance r r'"
proof -
  consider (same) "\<not> ok \<or> m_status r \<noteq> Leader \<or> m_currentTerm r \<noteq> sa_term args"
    | (newer) "ok" "m_status r = Leader" "m_currentTerm r = sa_term args" "sr_term reply > m_currentTerm r"
    | (tables) "ok" "m_status r = Leader" "m_currentTerm r = sa_term args" "\<not> sr_term reply > m_currentTerm r"
    by linarith
  then show ?thesis
  proof cases
    case same
    then show ?thesis using run wf by (auto simp: leaderSendSnapShot_end_def split: if_splits)
  next
    case newer
    then show ?thesis using run wf by (auto simp: leaderSendSnapShot_end_def advance_def)
  next
    case tables
    then obtain ms ni where t: "vec_set (m_matchIndex r) server (sa_lastsnapshotincludeindex args) = Inr ms"
      "vec_set (m_nextIndex r) server (sa_lastsnapshotincludeindex args + 1) = Inr ni"
      "r' = r\<lparr>m_matchIndex := ms, m_nextIndex := ni\<rparr>"
      using run by (auto simp: leaderSendSnapShot_end_def bindr_eq_Inr)
    then show ?thesis
      using wf vec_set_length[OF t(1)] vec_set_length[OF t(2)] by (simp add: raft_wf_def advance_def)
  qed
qed

lemma Raft_Snapshot_wf:
  assumes "raft_wf r" and "Raft_Snapshot L index s r = Inr r'"
  shows "raft_wf r' \<and> advance r r'"
proof (cases "m_lastSnapshotIncludeIndex r < index \<and> index \<le> m_commitIndex r")
  case True
  then have "m_currentTerm r = m_currentTerm r'"
    using assms(2) by (auto simp: Raft_Snapshot_def Let_def bindr_eq_Inr)
  moreover have "raft_wf r'" "getLastLogIndex r' = getLastLogIndex r" "m_commitIndex r' = m_commitIndex r"
    "m_lastSnapshotIncludeIndex r' = index" "m_lastApplied r' = max (m_lastApplied r) index"
    using Raft_Snapshot_spec[OF assms(1), of index L s] assms(2) True by auto
  ultimately show ?thesis using raft_wf_last[OF assms(1)] raft_wf_last[of r'] True by (simp add: advance_def)
next
  case False
  then show ?thesis using assms Raft_Snapshot_ignored[of index r L s] by auto
qed

lemma Start_advance: "raft_wf r \<Longrightarrow> Start L op r = (i, t, b, r') \<Longrightarrow> raft_wf r' \<and> advance r r'"
  using Start_wf[of r L op i t b r'] by (auto simp: Start_def Let_def advance_def split: if_splits)

lemma getApplyLogs_wf:
  assumes wf: "raft_wf r" and run: "getApplyLogs r = Inr (msgs, r')"
  shows "raft_wf r' \<and> advance r r'"
proof -
  have "r' = r\<lparr>m_lastApplied := m_commitIndex r\<rparr>" using getApplyLogs_spec[OF wf] run by simp
  then show ?thesis using wf by (simp add: raft_wf_def advance_def)
qed

lemma local_fields_wf:
  "raft_wf r \<Longrightarrow> raft_wf (r\<lparr>applyChan := q\<rparr>) \<and> advance r (r\<lparr>applyChan := q\<rparr>)"
  "raft_wf r \<Longrightarrow> raft_wf (r\<lparr>m_persister := p\<rparr>) \<and> advance r (r\<lparr>m_persister := p\<rparr>)"
  by (simp_all add: raft_wf_def advance_def)

section \<open>Every reachable state\<close>

fun request_ok :: "wire \<Rightarrow> bool" where
  "request_ok (Task i (SendAppendEntries j args k)) = args_wf args"
| "request_ok _ = True"

definition cluster_wf :: "cluster \<Rightarrow> bool" where
  "cluster_wf s \<longleftrightarrow> (\<forall>i < length (procs s). raft_wf (procs s ! i)) \<and> (\<forall>w. w \<in># wires s \<longrightarrow> request_ok w)"

lemma cluster_wfD:
  "cluster_wf s \<Longrightarrow> running i s \<Longrightarrow> raft_wf (procs s ! i)"
  "cluster_wf s \<Longrightarrow> Task i (SendAppendEntries j args k) \<in># wires s \<Longrightarrow> args_wf args"
  by (auto simp: cluster_wf_def running_def)

lemma running_take [simp]: "running i (take_wire w s) = running i s"
  by (simp add: running_def)

text \<open>One node moves forward and starts threads.\<close>

definition moves :: "cluster \<Rightarrow> cluster \<Rightarrow> bool" where
  "moves s s' \<longleftrightarrow> length (procs s') = length (procs s) \<and>
     (\<forall>i < length (procs s). advance (procs s ! i) (procs s' ! i))"

lemma cluster_wf_node:
  assumes wf: "cluster_wf s" and i: "running i s" and r: "raft_wf r \<and> advance (procs s ! i) r"
    and ws: "\<forall>w' \<in> set ws. request_ok w'"
  shows "cluster_wf (spawn ws (put i r (take_wire w s))) \<and> moves s (spawn ws (put i r (take_wire w s)))"
    and "cluster_wf (spawn ws (put i r s)) \<and> moves s (spawn ws (put i r s))"
proof -
  have i': "i < length (procs s)" using i by (simp add: running_def)
  have "\<forall>j < length (procs s). raft_wf ((procs s)[i := r] ! j) \<and> advance (procs s ! j) ((procs s)[i := r] ! j)"
    using wf r i' by (simp add: cluster_wf_def nth_list_update)
  then show "cluster_wf (spawn ws (put i r (take_wire w s))) \<and> moves s (spawn ws (put i r (take_wire w s)))"
    and "cluster_wf (spawn ws (put i r s)) \<and> moves s (spawn ws (put i r s))"
    using wf ws by (auto simp: cluster_wf_def moves_def dest: in_diffD)
qed

lemmas cluster_wf_node0 = cluster_wf_node[where ws = "[]", simplified]

lemma request_ok_tasks:
  assumes "\<And>j args k. SendAppendEntries j args k \<in> set ts \<Longrightarrow> args_wf args"
  shows "\<forall>w \<in> set (map (Task i) ts). request_ok w"
proof
  fix w assume "w \<in> set (map (Task i) ts)"
  then obtain t where "t \<in> set ts" "w = Task i t" by auto
  then show "request_ok w" using assms by (cases t rule: thread.exhaust) auto
qed

lemma doElection_no_append:
  "doElection L now r = (r', ts) \<Longrightarrow> SendAppendEntries j args k \<notin> set ts"
  using doElection_threads[of r L now r' ts] doElection_leader[of r L now] by (cases "m_status r = Leader") auto

lemma cluster_step:
  assumes st: "step L s s'" and wf: "cluster_wf s"
  shows "cluster_wf s' \<and> moves s s'"
  using st
proof cases
  case (election i wakeTime now r ts)
  have r: "raft_wf r \<and> advance (procs s ! i) r" "\<And>j args k. SendAppendEntries j args k \<notin> set ts"
    using election(3) cluster_wfD(1)[OF wf election(2)] doElection_wf doElection_no_append
    by (auto simp: electionTimeOutTicker_def split: if_splits)
  have "\<forall>w' \<in> set (map (Task i) ts). request_ok w'"
    by (rule request_ok_tasks) (use r(2) in blast)
  from cluster_wf_node(2)[OF wf election(2) r(1) this] show ?thesis using election(1) by blast
next
  case (vote i j args k now reply r)
  then show ?thesis using cluster_wf_node(1)[OF wf] RequestVote_wf[OF cluster_wfD(1)[OF wf]] by simp
next
  case (vote_end i j args k reply r ts)
  then have "ts = [] \<or> ts = [DoHeartBeat]" by (auto elim: sendRequestVote_cases)
  then have "\<forall>w' \<in> set (map (Task i) ts). request_ok w'" by auto
  from cluster_wf_node(1)[OF wf vote_end(3) sendRequestVote_end_wf[OF cluster_wfD(1)[OF wf vote_end(3)] vote_end(4)] this]
  show ?thesis using vote_end(1) by blast
next
  case (heartbeat i wakeTime now r ts)
  note wfi = cluster_wfD(1)[OF wf heartbeat(2)]
  have r: "raft_wf r \<and> advance (procs s ! i) r" "\<And>j args k. SendAppendEntries j args k \<in> set ts \<Longrightarrow> args_wf args"
    using heartbeat(3) wfi doHeartBeat_wf[OF wfi] doHeartBeat_args[OF wfi]
    by (auto simp: leaderHearBeatTicker_def split: if_splits)
  have "\<forall>w' \<in> set (map (Task i) ts). request_ok w'" by (rule request_ok_tasks) (rule r(2))
  from cluster_wf_node(2)[OF wf heartbeat(2) r(1) this] show ?thesis using heartbeat(1) by blast
next
  case (first_heartbeat i now r ts)
  note wfi = cluster_wfD(1)[OF wf first_heartbeat(3)]
  have "\<forall>w' \<in> set (map (Task i) ts). request_ok w'"
    by (rule request_ok_tasks[OF doHeartBeat_args[OF wfi first_heartbeat(4)]])
  from cluster_wf_node(1)[OF wf first_heartbeat(3) doHeartBeat_wf[OF wfi first_heartbeat(4)] this]
  show ?thesis using first_heartbeat(1) by blast
next
  case (append i j args k now reply r)
  then show ?thesis
    using cluster_wf_node(1)[OF wf] AppendEntries1_wf[OF cluster_wfD(1)[OF wf] _ cluster_wfD(2)[OF wf]] by simp
next
  case (append_end i j args k reply r)
  then show ?thesis using cluster_wf_node0(1)[OF wf] sendAppendEntries_advance[OF cluster_wfD(1)[OF wf]] by simp
next
  case (snap_begin i j args r)
  then show ?thesis
    using cluster_wf_node(1)[OF wf] local_fields_wf(2)[OF cluster_wfD(1)[OF wf]]
      leaderSendSnapShot_begin_fields[of "procs s ! i"] by simp
next
  case (snap i j args now reply r ts)
  have "request_ok w'" if "w' \<in> set (SnapReply i j args reply # map (Task (nat j)) ts)" for w'
    using that InstallSnapshot_threads[OF snap(5)] by fastforce
  then show ?thesis
    using snap cluster_wf_node(1)[OF wf] InstallSnapshot_wf[OF cluster_wfD(1)[OF wf]] by blast
next
  case (snap_end i j args reply now r)
  then show ?thesis using cluster_wf_node0(1)[OF wf] leaderSendSnapShot_end_wf[OF cluster_wfD(1)[OF wf]] by simp
next
  case (push_msg i msg)
  then show ?thesis
    using cluster_wf_node0(1)[OF wf] local_fields_wf(1)[OF cluster_wfD(1)[OF wf]]
    by (simp add: pushMsgToKvServer_def)
next
  case (start_op i op index tm isLeader r)
  then show ?thesis using cluster_wf_node0(2)[OF wf] Start_advance[OF cluster_wfD(1)[OF wf]] by simp
next
  case (apply_logs i msgs r)
  then show ?thesis using cluster_wf_node(2)[OF wf] getApplyLogs_wf[OF cluster_wfD(1)[OF wf]] by simp
next
  case (apply_push i msg msgs)
  then show ?thesis
    using cluster_wf_node(1)[OF wf] local_fields_wf(1)[OF cluster_wfD(1)[OF wf]]
    by (simp add: pushMsgToKvServer_def)
next
  case (apply_sleep i)
  then show ?thesis using wf by (auto simp: cluster_wf_def moves_def dest: in_diffD)
next
  case (apply_pop i msg q)
  then show ?thesis
    using cluster_wf_node0(2)[OF wf] local_fields_wf(1)[OF cluster_wfD(1)[OF wf]] by simp
next
  case (compact i index snapshot r)
  then show ?thesis using cluster_wf_node0(2)[OF wf] Raft_Snapshot_wf[OF cluster_wfD(1)[OF wf]] by simp
next
  case (lose w)
  then show ?thesis using wf by (auto simp: cluster_wf_def moves_def dest: in_diffD)
next
  case (halt i)
  then show ?thesis using wf by (simp add: cluster_wf_def moves_def)
qed

interpretation wfi: inductive_invariant "cluster_start L" "step L" cluster_wf for L
proof
  show "cluster_wf s" if "cluster_start L s" for s
    using that fresh_proc(1)[OF that] by (simp add: cluster_wf_def cluster_start_def)
  show "cluster_wf t" if "cluster_wf s" "step L s t" for s t using cluster_step[OF that(2,1)] ..
qed

text \<open>The positions of node \<open>i\<close>, as one quantity in the componentwise order.\<close>

definition positions :: "nat \<Rightarrow> cluster \<Rightarrow> int \<times> int \<times> int \<times> int \<times> int" where
  "positions i s =
     (if i < length (procs s)
      then (m_currentTerm (procs s ! i), m_commitIndex (procs s ! i), m_lastApplied (procs s ! i),
            m_lastSnapshotIncludeIndex (procs s ! i),
            m_lastSnapshotIncludeIndex (procs s ! i) + int (length (m_logs (procs s ! i))))
      else (0, 0, 0, 0, 0))"

interpretation pos: monotone_quantity "cluster_start L" "step L" cluster_wf "positions i" for L i
proof
  fix s t assume "cluster_wf s" "step L s t"
  then have "moves s t" using cluster_step by blast
  then show "positions i s \<le> positions i t"
    by (auto simp: moves_def positions_def advance_def less_eq_prod_def)
qed

section \<open>Properties\<close>

text \<open>
  C13: In every reachable state of a cluster each node's log is consistently
  indexed from its snapshot position on, and its positions are ordered: snapshot, applied, committed, last.
\<close>

theorem reachable_logs_wf:
  assumes "cluster_start L s0" and "(step L)\<^sup>*\<^sup>* s0 s" and "i < length (procs s)"
  shows "raft_wf (procs s ! i)"
  using wfi.holds_reachable[OF assms(1,2)] assms(3) by (simp add: cluster_wf_def)

theorem reachable_logs_wf_witness:
  "\<exists>s. (step demo_lib)\<^sup>*\<^sup>* demo_cluster s \<and> m_status (procs s ! 0) = Leader \<and> raft_wf (procs s ! 0)"
proof -
  obtain s where s: "(step demo_lib)\<^sup>*\<^sup>* demo_cluster s" "length (procs s) = 3" "m_status (procs s ! 0) = Leader"
    using demo_run by blast
  from reachable_logs_wf[OF demo_cluster_start s(1), of 0] s show ?thesis by auto
qed

text \<open>
  C15: Along every run of a cluster the term, the commit index, the applied index, the
  snapshot position and the last log index of every node only grow.
\<close>

theorem positions_grow:
  assumes "cluster_start L s0" and "(step L)\<^sup>*\<^sup>* s0 s" and "(step L)\<^sup>*\<^sup>* s s'" and "i < length (procs s)"
  shows "i < length (procs s') \<and> m_currentTerm (procs s ! i) \<le> m_currentTerm (procs s' ! i) \<and>
    m_commitIndex (procs s ! i) \<le> m_commitIndex (procs s' ! i) \<and>
    m_lastApplied (procs s ! i) \<le> m_lastApplied (procs s' ! i) \<and>
    m_lastSnapshotIncludeIndex (procs s ! i) \<le> m_lastSnapshotIncludeIndex (procs s' ! i) \<and>
    getLastLogIndex (procs s ! i) \<le> getLastLogIndex (procs s' ! i)"
proof -
  have wf: "cluster_wf s" by (rule wfi.holds_reachable[OF assms(1,2)])
  have len: "length (procs s') = length (procs s)"
    using assms(3) wf
  proof (induction rule: rtranclp_induct)
    case (step t u)
    then show ?case using cluster_step[OF step.hyps(2) wfi.kept_by_run[OF step.hyps(1)]] by (simp add: moves_def)
  qed simp
  have "raft_wf (procs s ! i)" "raft_wf (procs s' ! i)"
    using wf wfi.kept_by_run[OF assms(3) wf] assms(4) len by (simp_all add: cluster_wf_def)
  then show ?thesis
    using pos.run_mono[OF assms(3) wf, of i] assms(4) len by (simp add: positions_def raft_wf_last)
qed

theorem positions_grow_witness:
  "\<exists>s. (step demo_lib)\<^sup>*\<^sup>* demo_cluster s \<and> m_currentTerm (procs s ! 0) = 1 \<and>
     m_commitIndex (procs demo_cluster ! 0) \<le> m_commitIndex (procs s ! 0)"
proof -
  obtain s where s: "(step demo_lib)\<^sup>*\<^sup>* demo_cluster s" "m_currentTerm (procs s ! 0) = 1"
    using demo_run by blast
  have "0 < length (procs demo_cluster)" by (simp add: demo_cluster_def)
  from positions_grow[OF demo_cluster_start rtranclp.rtrancl_refl s(1) this] s show ?thesis by blast
qed

end
