(* ===== verification/LogUnique.thy ===== *)
theory LogUnique
  imports ClusterLog
begin

text \<open>
  One command per index and term.

  A node creates entries of a term only while it leads that term, at the end of its log, and no
  log ever becomes shorter at its end. Since a term has one leader, two entries with the same
  index and term, in any two logs or in any request in flight, are equal. It follows that the
  check of \<open>AppendEntries1\<close> for two different commands at the same index and term never fails.
\<close>

section \<open>Entries\<close>

fun wire_entries :: "wire \<Rightarrow> LogEntry set" where
  "wire_entries (Task i (SendAppendEntries j args k)) = set (aa_entries args)"
| "wire_entries _ = {}"

definition entries :: "cluster \<Rightarrow> LogEntry set" where
  "entries s = (\<Union>r \<in> set (procs s). set (m_logs r)) \<union> (\<Union>w \<in> set_mset (wires s). wire_entries w)"

lemma entries_log: "i < length (procs s) \<Longrightarrow> e \<in> set (m_logs (procs s ! i)) \<Longrightarrow> e \<in> entries s"
  by (auto simp: entries_def)

lemma entries_wire: "Task i (SendAppendEntries j args k) \<in># wires s \<Longrightarrow> e \<in> set (aa_entries args) \<Longrightarrow> e \<in> entries s"
  by (force simp: entries_def)

lemma entries_take: "entries (take_wire w s) \<subseteq> entries s"
  by (auto simp: entries_def dest: in_diffD)

lemma entries_put: "entries (put i r s) \<subseteq> entries s \<union> set (m_logs r)"
  using set_update_subset_insert[of "procs s" i r] by (auto simp: entries_def)

lemma entries_spawn: "entries (spawn ws s) = entries s \<union> (\<Union>w \<in> set ws. wire_entries w)"
  by (auto simp: entries_def)

lemma entries_node:
  assumes "set (m_logs r) \<subseteq> entries s" and "\<forall>w' \<in> set ws. wire_entries w' \<subseteq> entries s"
  shows "entries (spawn ws (put i r s)) \<subseteq> entries s" and "entries (spawn ws (put i r (take_wire w s))) \<subseteq> entries s"
  using assms entries_put[of i r s] entries_put[of i r "take_wire w s"] entries_take[of w s]
  unfolding entries_spawn by blast+

lemmas entries_node0 = entries_node[where ws = "[]", simplified]

section \<open>The invariant\<close>

text \<open>
  Every entry was created by the leader of its term, which has gone to a later term or has a log
  that reaches to the entry's index.
\<close>

definition created :: "cluster \<Rightarrow> LogEntry \<Rightarrow> nat \<Rightarrow> bool" where
  "created s e i \<longleftrightarrow> i < length (procs s) \<and> majority (length (procs s)) (voters s (logterm e) i) \<and>
     (logterm e < m_currentTerm (procs s ! i) \<or>
      logterm e = m_currentTerm (procs s ! i) \<and>
      logindex e \<le> m_lastSnapshotIncludeIndex (procs s ! i) + int (length (m_logs (procs s ! i))))"

definition entries_ok :: "cluster \<Rightarrow> bool" where
  "entries_ok s \<longleftrightarrow> (\<forall>e \<in> entries s. \<exists>i. created s e i) \<and>
     (\<forall>e \<in> entries s. \<forall>e' \<in> entries s. logindex e = logindex e' \<longrightarrow> logterm e = logterm e' \<longrightarrow> e = e')"

definition unique_inv :: "cluster \<Rightarrow> bool" where
  "unique_inv s \<longleftrightarrow> election_inv s \<and> cluster_wf s \<and> entries_ok s"

lemma entries_okD:
  "entries_ok s \<Longrightarrow> e \<in> entries s \<Longrightarrow> \<exists>i. created s e i"
  "entries_ok s \<Longrightarrow> e \<in> entries s \<Longrightarrow> e' \<in> entries s \<Longrightarrow> logindex e = logindex e' \<Longrightarrow> logterm e = logterm e' \<Longrightarrow> e = e'"
  unfolding entries_ok_def by blast+

lemma created_frame:
  assumes cr: "created s e i" and mv: "moves s s'" and v: "votes_ok s'" "ballots s \<subseteq> ballots s'"
  shows "created s' e i"
proof -
  have len: "length (procs s') = length (procs s)" "i < length (procs s)" and adv: "advance (procs s ! i) (procs s' ! i)"
    using cr mv by (simp_all add: created_def moves_def)
  have "voters s t i \<subseteq> voters s' t i" for t using v(2) by (auto simp: voters_def)
  then have "majority (length (procs s')) (voters s' (logterm e) i)"
    using cr majority_mono voters_bound[OF v(1)] len by (metis created_def)
  then show ?thesis using cr len adv by (auto simp: created_def advance_def)
qed

lemma entries_ok_frame:
  assumes ok: "entries_ok s" and sub: "entries s' \<subseteq> entries s" and mv: "moves s s'" "votes_ok s'" "ballots s \<subseteq> ballots s'"
  shows "entries_ok s'"
proof -
  have "\<exists>i. created s' e i" if "e \<in> entries s'" for e
    using entries_okD(1)[OF ok] created_frame[OF _ mv] sub that by blast
  then show ?thesis using sub entries_okD(2)[OF ok] unfolding entries_ok_def by blast
qed

text \<open>A term has one creator.\<close>

lemma created_unique:
  assumes "votes_ok s" and "majority (length (procs s)) (voters s t i)" and "majority (length (procs s)) (voters s t j)"
  shows "i = j"
proof -
  have "maj.elected (length (procs s)) s t (int i)" "maj.elected (length (procs s)) s t (int j)"
    unfolding maj.elected_def using assms by (auto simp: voters_def)
  then show ?thesis using maj.elected_unique by fastforce
qed

text \<open>The leader of a term adds an entry at the end of its log.\<close>

lemma entries_ok_new:
  assumes inv: "unique_inv s" and i: "i < length (procs s)" "m_status (procs s ! i) = Leader"
    and e: "logterm e = m_currentTerm (procs s ! i)" "logindex e = getLastLogIndex (procs s ! i) + 1"
    and r: "m_logs r = m_logs (procs s ! i) @ [e]" "m_currentTerm r = m_currentTerm (procs s ! i)"
      "m_lastSnapshotIncludeIndex r = m_lastSnapshotIncludeIndex (procs s ! i)"
    and nx: "moves s (put i r s)" "votes_ok (put i r s)"
  shows "entries_ok (put i r s)"
proof -
  have ok: "entries_ok s" "votes_ok s" "leaders_ok s" "raft_wf (procs s ! i)"
    using inv i by (simp_all add: unique_inv_def election_inv_def cluster_wf_def)
  have maj: "majority (length (procs s)) (voters s (logterm e) i)" using ok(3) i e(1) by (simp add: leaders_ok_def)
  have sub: "entries (put i r s) \<subseteq> insert e (entries s)"
    using entries_put[of i r s] entries_log[OF i(1)] by (auto simp: r(1))
  have new: "logindex e' \<noteq> logindex e" if e': "e' \<in> entries s" "logterm e' = logterm e" for e'
  proof -
    obtain j where j: "created s e' j" using entries_okD(1)[OF ok(1) e'(1)] by blast
    then have "j = i" using created_unique[OF ok(2) _ maj] e'(2) by (simp add: created_def)
    then show ?thesis using j e' e raft_wf_last[OF ok(4)] by (auto simp: created_def)
  qed
  have "majority (length (procs s)) (voters (put i r s) (logterm e) i)"
    using voters_bound[OF nx(2)] by (intro majority_mono[OF maj voters_put_mono]) simp
  then have cr: "created (put i r s) e i"
    using e raft_wf_last[OF ok(4)] i(1) r by (simp add: created_def)
  have "\<exists>j. created (put i r s) e' j" if "e' \<in> entries (put i r s)" for e'
    using that sub cr entries_okD(1)[OF ok(1)] created_frame[OF _ nx ballots_put_mono] by blast
  moreover have "x = y" if "x \<in> entries (put i r s)" "y \<in> entries (put i r s)" "logindex x = logindex y" "logterm x = logterm y" for x y
  proof -
    have "x \<in> insert e (entries s)" "y \<in> insert e (entries s)" using that(1,2) sub by blast+
    then show ?thesis using new entries_okD(2)[OF ok(1)] that(3,4) by (metis insert_iff)
  qed
  ultimately show ?thesis unfolding entries_ok_def by blast
qed

section \<open>No other handler creates an entry\<close>

lemma ae_entry_logs: "ae_entry r e = Inr r' \<Longrightarrow> set (m_logs r') \<subseteq> insert e (set (m_logs r))"
  using set_update_subset_insert[of "m_logs r"]
  by (fastforce simp: ae_entry_def bindr_eq_Inr vec_set_eq_Inr split: if_splits)

lemma ae_entries_logs: "ae_entries r es = Inr r' \<Longrightarrow> set (m_logs r') \<subseteq> set (m_logs r) \<union> set es"
proof (induction es arbitrary: r)
  case (Cons e es)
  then obtain r1 where "ae_entry r e = Inr r1" "ae_entries r1 es = Inr r'" by (auto simp: bindr_eq_Inr)
  then show ?case using ae_entry_logs[of r e r1] Cons.IH[of r1] by auto
qed simp

lemma AppendEntries1_logs:
  assumes "AppendEntries1 L now args r = Inr (reply, r')"
  shows "set (m_logs r') \<subseteq> set (m_logs r) \<union> set (aa_entries args)"
proof (cases "aa_term args < m_currentTerm r")
  case True
  then show ?thesis using assms by (simp add: AppendEntries1_stale)
next
  case False
  then have acc: "m_currentTerm r \<le> aa_term args" by simp
  have "m_logs r' = m_logs r \<or> (\<exists>r3. ae_entries (ae_enter now args r) (aa_entries args) = Inr r3 \<and> m_logs r' = m_logs r3)"
    using assms by (auto simp: AppendEntries1_accepted[OF acc] Let_def bindr_eq_Inr split: if_splits)
  then show ?thesis using ae_entries_logs[of "ae_enter now args r" "aa_entries args"] by auto
qed

lemma InstallSnapshot_logs: "InstallSnapshot L now args r = Inr (reply, r', ts) \<Longrightarrow> set (m_logs r') \<subseteq> set (m_logs r)"
  using set_drop_subset by (fastforce simp: InstallSnapshot_def Let_def bindr_eq_Inr split: if_splits)

lemma collect_logs_sub: "collect_logs r is = Inr es \<Longrightarrow> e \<in> set es \<Longrightarrow> e \<in> set (m_logs r)"
  by (induction "is" arbitrary: es) (auto simp: bindr_eq_Inr log_at_def vec_at_eq_Inr)

lemma Raft_Snapshot_logs: "Raft_Snapshot L index d r = Inr r' \<Longrightarrow> set (m_logs r') \<subseteq> set (m_logs r)"
  by (auto simp: Raft_Snapshot_def Let_def bindr_eq_Inr split: if_splits dest: collect_logs_sub)

lemma sendAppendEntries_logs: "sendAppendEntries_end j args ok reply k r = Inr r' \<Longrightarrow> m_logs r' = m_logs r"
  by (erule sendAppendEntries_cases) simp_all

lemma leaderSendSnapShot_end_logs: "leaderSendSnapShot_end L now j args ok reply r = Inr r' \<Longrightarrow> m_logs r' = m_logs r"
  by (auto simp: leaderSendSnapShot_end_def bindr_eq_Inr split: if_splits)

lemma sendRequestVote_logs: "sendRequestVote_end L ok reply k r = Inr (r', ts) \<Longrightarrow> m_logs r' = m_logs r"
  by (auto simp: sendRequestVote_end_def become_leader_def bindr_eq_Inr Let_def split: if_splits)

lemma doElection_logs: "doElection L now r = (r', ts) \<Longrightarrow> m_logs r' = m_logs r"
  using doElection_candidate(7)[of r L now r' ts] doElection_leader[of r L now] by (cases "m_status r = Leader") auto

lemma log_suffix_sub: "log_suffix r p = Inr es \<Longrightarrow> set es \<subseteq> set (m_logs r)"
  by (auto simp: log_suffix_def bindr_eq_Inr split: if_splits dest: in_set_dropD)

lemma hb_peers_entries:
  "hb_peers r c is = Inr ts \<Longrightarrow> SendAppendEntries j args k \<in> set ts \<Longrightarrow> set (aa_entries args) \<subseteq> set (m_logs r)"
proof (induction "is" arbitrary: ts)
  case (Cons i "is")
  have one: "set (aa_entries args) \<subseteq> set (m_logs r)" if "hb_peer r c i = Inr (SendAppendEntries j args k)"
    using that log_suffix_sub[of r] by (fastforce simp: hb_peer_def bindr_eq_Inr split: if_splits)
  show ?case
  proof (cases "int i = m_me r")
    case True
    then show ?thesis using Cons by simp
  next
    case False
    then obtain t ts' where "hb_peer r c i = Inr t" "hb_peers r c is = Inr ts'" "ts = t # ts'"
      using Cons.prems(1) by (auto simp: bindr_eq_Inr)
    then show ?thesis using one Cons.IH[of ts'] Cons.prems(2) by (metis set_ConsD)
  qed
qed simp

lemma doHeartBeat_entries:
  assumes "doHeartBeat now r = Inr (r', ts)"
  shows "m_logs r' = m_logs r" "SendAppendEntries j args k \<in> set ts \<Longrightarrow> set (aa_entries args) \<subseteq> set (m_logs r)"
  using assms hb_peers_entries[of "r\<lparr>cells := cells r @ [1]\<rparr>" _ _ ts j args k]
  by (auto simp: doHeartBeat_def Let_def bindr_eq_Inr split: if_splits)

section \<open>Every reachable state\<close>

lemma step_ballots: "step L s s' \<Longrightarrow> ballots s \<subseteq> ballots s'"
  by (erule step.cases) (auto simp: put_def)

lemma wire_entries_tasks:
  assumes "\<And>j args k. SendAppendEntries j args k \<in> set ts \<Longrightarrow> set (aa_entries args) \<subseteq> X"
  shows "\<forall>w \<in> set (map (Task i) ts). wire_entries w \<subseteq> X"
proof
  fix w assume "w \<in> set (map (Task i) ts)"
  then obtain t where "t \<in> set ts" "w = Task i t" by auto
  then show "wire_entries w \<subseteq> X" using assms by (cases t rule: thread.exhaust) auto
qed

lemmas entries_tasks = entries_node[OF _ wire_entries_tasks]

lemma entries_running: "running i s \<Longrightarrow> set (m_logs (procs s ! i)) \<subseteq> entries s"
  using entries_log by (auto simp: running_def)

text \<open>All steps but a successful \<open>Start\<close> leave the set of entries as it is or make it smaller.\<close>

lemma entries_step:
  assumes st: "step L s s'"
  shows "entries s' \<subseteq> entries s \<or>
    (\<exists>i op index tm r. running i s \<and> Start L op (procs s ! i) = (index, tm, True, r) \<and> s' = put i r s)"
  using st
proof cases
  case (election i wakeTime now r ts)
  have "m_logs r = m_logs (procs s ! i)" "\<And>j args k. SendAppendEntries j args k \<notin> set ts"
    using election(3) doElection_logs doElection_no_append by (auto simp: electionTimeOutTicker_def split: if_splits)
  then have "entries s' \<subseteq> entries s"
    unfolding election(1) using entries_running[OF election(2)] by (intro entries_tasks(1)) auto
  then show ?thesis ..
next
  case (vote i j args k now reply r)
  then show ?thesis using entries_node(2) entries_running[OF vote(4)] RequestVote_frame(4)[OF vote(5)] by simp
next
  case (vote_end i j args k reply r ts)
  have "\<And>j args k. SendAppendEntries j args k \<notin> set ts" using vote_end(4) by (auto elim: sendRequestVote_cases)
  then have "entries s' \<subseteq> entries s"
    unfolding vote_end(1) using entries_running[OF vote_end(3)] sendRequestVote_logs[OF vote_end(4)]
    by (intro entries_tasks(2)) auto
  then show ?thesis ..
next
  case (heartbeat i wakeTime now r ts)
  have "m_logs r = m_logs (procs s ! i)"
    "\<And>j args k. SendAppendEntries j args k \<in> set ts \<Longrightarrow> set (aa_entries args) \<subseteq> set (m_logs (procs s ! i))"
    using heartbeat(3) doHeartBeat_entries[of now "procs s ! i" r ts] by (auto simp: leaderHearBeatTicker_def split: if_splits)
  then show ?thesis
    using heartbeat(1) entries_running[OF heartbeat(2)] entries_tasks(1) by (metis subset_trans)
next
  case (first_heartbeat i now r ts)
  note hb = doHeartBeat_entries[OF first_heartbeat(4)]
  show ?thesis
    using first_heartbeat(1) entries_running[OF first_heartbeat(3)] hb entries_tasks(2) by (metis subset_trans)
next
  case (append i j args k now reply r)
  have "set (m_logs r) \<subseteq> entries s"
    using AppendEntries1_logs[OF append(5)] entries_running[OF append(4)] entries_wire[OF append(2)] by blast
  then show ?thesis using append(1) entries_node(2) by simp
next
  case (append_end i j args k reply r)
  then show ?thesis using entries_node0(2) entries_running[OF append_end(3)] sendAppendEntries_logs[OF append_end(4)] by simp
next
  case (snap_begin i j args r)
  have "m_logs r = m_logs (procs s ! i)"
    using snap_begin(4) leaderSendSnapShot_begin_fields[of "procs s ! i"] by simp
  then show ?thesis using snap_begin(1) entries_node(2) entries_running[OF snap_begin(3)] by simp
next
  case (snap i j args now reply r ts)
  have "SendAppendEntries j args k \<notin> set ts" for j args k using InstallSnapshot_threads[OF snap(5)] by blast
  then have "\<forall>w' \<in> set (SnapReply i j args reply # map (Task (nat j)) ts). wire_entries w' \<subseteq> entries s"
    using wire_entries_tasks[of ts "entries s" "nat j"] by simp
  then show ?thesis
    using snap(1) entries_node(2) entries_running[OF snap(4)] InstallSnapshot_logs[OF snap(5)] by (metis subset_trans)
next
  case (snap_end i j args reply now r)
  then show ?thesis using entries_node0(2) entries_running[OF snap_end(3)] leaderSendSnapShot_end_logs[OF snap_end(4)] by simp
next
  case (push_msg i msg)
  then show ?thesis using entries_node0(2) entries_running[OF push_msg(3)] by (simp add: pushMsgToKvServer_def)
next
  case (start_op i op index tm isLeader r)
  show ?thesis
  proof (cases isLeader)
    case False
    then have "r = procs s ! i" using start_op(3) by (auto simp: Start_def Let_def split: if_splits)
    then show ?thesis using start_op(1) entries_node0(1) entries_running[OF start_op(2)] by simp
  next
    case True
    then show ?thesis using start_op by metis
  qed
next
  case (apply_logs i msgs r)
  then obtain la where "r = (procs s ! i)\<lparr>m_lastApplied := la\<rparr>" using getApplyLogs_fields by blast
  then show ?thesis using apply_logs(1) entries_node(1) entries_running[OF apply_logs(2)] by simp
next
  case (apply_push i msg msgs)
  then show ?thesis using entries_node(2) entries_running[OF apply_push(3)] by (simp add: pushMsgToKvServer_def)
next
  case (apply_sleep i)
  then show ?thesis using entries_take by simp
next
  case (apply_pop i msg q)
  then show ?thesis using entries_node0(1) entries_running[OF apply_pop(2)] by simp
next
  case (compact i index snapshot r)
  then show ?thesis using entries_node0(1) entries_running[OF compact(2)] Raft_Snapshot_logs[OF compact(3)] by (metis subset_trans)
next
  case (lose w)
  then show ?thesis using entries_take by simp
next
  case (halt i)
  then show ?thesis by (simp add: entries_def)
qed

lemma unique_inv_step:
  assumes st: "step L s s'" and inv: "unique_inv s"
  shows "unique_inv s'"
proof -
  have el: "election_inv s'" using election_inv_step[OF st] inv by (simp add: unique_inv_def)
  have wf: "cluster_wf s'" "moves s s'" using cluster_step[OF st] inv by (simp_all add: unique_inv_def)
  have v: "votes_ok s'" using el by (simp add: election_inv_def)
  from entries_step[OF st] have "entries_ok s'"
  proof (elim disjE exE conjE)
    assume "entries s' \<subseteq> entries s"
    then show ?thesis using entries_ok_frame[OF _ _ wf(2) v step_ballots[OF st]] inv by (simp add: unique_inv_def)
  next
    fix i op index tm r
    assume a: "running i s" "Start L op (procs s ! i) = (index, tm, True, r)" "s' = put i r s"
    let ?e = "\<lparr>command = asString L op, logterm = m_currentTerm (procs s ! i), logindex = getNewCommandIndex (procs s ! i)\<rparr>"
    have "m_status (procs s ! i) = Leader" "r = persist L ((procs s ! i)\<lparr>m_logs := m_logs (procs s ! i) @ [?e]\<rparr>)"
      using a(2) by (auto simp: Start_def Let_def split: if_splits)
    then show ?thesis
      using entries_ok_new[OF inv running_proc[OF a(1)], of ?e r] wf(2) v a(3) by (simp add: getNewCommandIndex_def)
  qed
  then show ?thesis using el wf(1) by (simp add: unique_inv_def)
qed

lemma fresh_logs: "cluster_start L s \<Longrightarrow> i < length (procs s) \<Longrightarrow> m_logs (procs s ! i) = []"
proof -
  assume "cluster_start L s" "i < length (procs s)"
  then obtain now peers rf sf q where "raft_init L now peers (int i) (new_Persister rf sf) q = Inr (procs s ! i)"
    by (auto simp: cluster_start_def)
  from this[symmetric] show ?thesis by (auto simp: raft_init_fresh ReadRaftState_new_Persister)
qed

interpretation uni: inductive_invariant "cluster_start L" "step L" unique_inv for L
proof
  show "unique_inv s" if "cluster_start L s" for s
  proof -
    have "entries s = {}" using fresh_logs[OF that] that by (auto simp: entries_def cluster_start_def in_set_conv_nth)
    then show ?thesis
      using election_inv_start[OF that] wfi.holds_start[OF that] by (simp add: unique_inv_def entries_ok_def)
  qed
  show "unique_inv t" if "unique_inv s" "step L s t" for s t using unique_inv_step that by blast
qed

section \<open>The entries of a request and of a log agree\<close>

lemma entry_at_mem: "entry_at r i = Some e \<Longrightarrow> e \<in> set (m_logs r)"
  by (auto simp: entry_at_def Let_def split: if_splits)

lemma request_agrees:
  assumes inv: "unique_inv s" and w: "Task i (SendAppendEntries j args k) \<in># wires s" and n: "n < length (procs s)"
  shows "agrees (procs s ! n) (aa_entries args)"
proof -
  have ok: "entries_ok s" and idx: "indexed_from (m_lastSnapshotIncludeIndex (procs s ! n)) (m_logs (procs s ! n))"
    using inv n by (simp_all add: unique_inv_def cluster_wf_def raft_wf_def)
  have same: "logterm e' = logterm e \<longrightarrow> command e' = command e"
    if "e \<in> set (aa_entries args)" "entry_at (procs s ! n) (logindex e) = Some e'" for e e'
  proof
    assume "logterm e' = logterm e"
    from entries_okD(2)[OF ok entries_log[OF n entry_at_mem[OF that(2)]] entries_wire[OF w that(1)] entry_at_index[OF idx that(2)] this]
    show "command e' = command e" by (rule arg_cong)
  qed
  show ?thesis
    unfolding agrees_def list_all_iff
  proof
    fix e assume e: "e \<in> set (aa_entries args)"
    show "case entry_at (procs s ! n) (logindex e) of None \<Rightarrow> True | Some e' \<Rightarrow> logterm e' = logterm e \<longrightarrow> command e' = command e"
      by (cases "entry_at (procs s ! n) (logindex e)") (use same[OF e] in simp_all)
  qed
qed

text \<open>The handler, when the request agrees with the log.\<close>

lemma AppendEntries1_faults:
  assumes wf: "raft_wf r" and args: "args_wf args" and agr: "agrees r (aa_entries args)"
  shows "AppendEntries1 L now args r = Inl f \<longleftrightarrow>
    f = AssertFail \<and> m_currentTerm r \<le> aa_term args \<and> aa_prevlogindex args < m_lastSnapshotIncludeIndex r"
proof -
  let ?p = "aa_prevlogindex args"
  consider (stale) "aa_term args < m_currentTerm r"
    | (far) "m_currentTerm r \<le> aa_term args" "getLastLogIndex r < ?p"
    | (early) "m_currentTerm r \<le> aa_term args" "?p < m_lastSnapshotIncludeIndex r"
    | (clash) "m_currentTerm r \<le> aa_term args" "m_lastSnapshotIncludeIndex r \<le> ?p" "?p \<le> getLastLogIndex r"
        "term_at r ?p \<noteq> Some (aa_prevlogterm args)"
    | (merge) "m_currentTerm r \<le> aa_term args" "m_lastSnapshotIncludeIndex r \<le> ?p" "term_at r ?p = Some (aa_prevlogterm args)"
    by linarith
  then show ?thesis
  proof cases
    case stale
    then show ?thesis by (simp add: AppendEntries1_stale)
  next
    case far
    then show ?thesis using raft_wf_last[OF wf] by (simp add: AppendEntries1_too_far)
  next
    case early
    then show ?thesis using AppendEntries1_before_snapshot[OF wf early] by auto
  next
    case clash
    then show ?thesis using AppendEntries1_mismatch[OF wf clash, of L now] by auto
  next
    case merge
    then show ?thesis using AppendEntries1_match[OF wf merge(1) args merge(2,3) agr, of L now] by auto
  qed
qed

section \<open>An example run\<close>

text \<open>The leader of the example run of \<open>ElectionSafety\<close> takes an operation and sends it to the others.\<close>

definition demo_put :: Op where
  "demo_put = \<lparr>Operation = ''Put'', Key = ''k'', Value = ''v'', ClientId = ''c'', RequestId = 1\<rparr>"

definition demo_entry :: LogEntry where
  "demo_entry = \<lparr>command = asString demo_lib demo_put, logterm = 1, logindex = 1\<rparr>"

definition demo_request :: AppendEntriesArgs where
  "demo_request = \<lparr>aa_term = 1, aa_leaderid = 0, aa_prevlogindex = 0, aa_prevlogterm = 0, aa_entries = [demo_entry],
     aa_leadercommit = 0\<rparr>"

lemma demo_request_run:
  "\<exists>s k. (step demo_lib)\<^sup>*\<^sup>* demo_cluster s \<and> length (procs s) = 3 \<and> halted s = {} \<and> demo_blank (procs s ! 1) \<and>
     m_logs (procs s ! 0) = [demo_entry] \<and> demo_blank ((procs s ! 0)\<lparr>m_logs := []\<rparr>) \<and> m_status (procs s ! 0) = Leader \<and>
     m_nextIndex (procs s ! 0) = [1, 1, 1] \<and> m_matchIndex (procs s ! 0) = [0, 0, 0] \<and>
     k < length (cells (procs s ! 0)) \<and> cells (procs s ! 0) ! k = 1 \<and> Task 0 (SendAppendEntries 1 demo_request k) \<in># wires s \<and>
     (\<forall>i ms. Applying i ms \<notin># wires s)"
proof -
  obtain s where s: "(step demo_lib)\<^sup>*\<^sup>* demo_cluster s" "length (procs s) = 3" "halted s = {}"
    and r: "m_status (procs s ! 0) = Leader" "m_me (procs s ! 0) = 0" "demo_blank (procs s ! 0)" "demo_blank (procs s ! 1)"
      "m_nextIndex (procs s ! 0) = [1, 1, 1]" "m_matchIndex (procs s ! 0) = [0, 0, 0]" and free: "\<forall>i ms. Applying i ms \<notin># wires s"
    using demo_run by blast
  note b = r(3)[unfolded demo_blank_def]
  define r1 where "r1 = persist demo_lib ((procs s ! 0)\<lparr>m_logs := [demo_entry]\<rparr>)"
  have st: "Start demo_lib demo_put (procs s ! 0) = (1, 1, True, r1)"
    using r(1) b by (simp add: Start_def r1_def demo_entry_def getNewCommandIndex_def last_log_defs)
  have run: "running 0 s" using s by (simp add: running_def)
  define s1 where "s1 = put 0 r1 s"
  have p1: "procs s1 ! 0 = r1" "length (procs s1) = 3" "running 0 s1" using s by (simp_all add: s1_def running_def)
  let ?k = "length (cells (procs s ! 0))" and ?r2 = "r1\<lparr>cells := cells r1 @ [1]\<rparr>"
  have hb: "hb_peer ?r2 ?k n = Inr (SendAppendEntries (int n) demo_request ?k)" if "n \<in> {1, 2}" for n
    using that r b by (auto simp: hb_peer_def r1_def getPrevLogInfo_def log_suffix_def demo_request_def last_log_defs demo_entry_def
        vec_at_def Let_def)
  have "doHeartBeat 0 r1 = Inr (?r2\<lparr>m_lastResetHearBeatTime := 0\<rparr>, [SendAppendEntries 1 demo_request ?k, SendAppendEntries 2 demo_request ?k])"
    using hb[of 1] hb[of 2] r b by (simp add: doHeartBeat_def r1_def demo_peers_def upt_rec Let_def numeral_2_eq_2)
  then have "leaderHearBeatTicker (m_lastResetHearBeatTime r1) 0 (procs s1 ! 0) =
      Inr (?r2\<lparr>m_lastResetHearBeatTime := 0\<rparr>, [SendAppendEntries 1 demo_request ?k, SendAppendEntries 2 demo_request ?k])"
    using p1 by (simp add: leaderHearBeatTicker_def)
  from step.heartbeat[OF p1(3) this] have st2: "step demo_lib s1 (spawn (map (Task 0) [SendAppendEntries 1 demo_request ?k, SendAppendEntries 2 demo_request ?k])
      (put 0 (?r2\<lparr>m_lastResetHearBeatTime := 0\<rparr>) s1))" (is "step demo_lib s1 ?s2") .
  have st1: "step demo_lib s s1" unfolding s1_def by (rule step.start_op[OF run st])
  have "(step demo_lib)\<^sup>*\<^sup>* demo_cluster ?s2"
    using s(1) st1 st2 by (meson rtranclp.rtrancl_into_rtrancl)
  moreover have "length (procs ?s2) = 3" "halted ?s2 = {}" "demo_blank (procs ?s2 ! 1)" "procs ?s2 ! 0 = ?r2\<lparr>m_lastResetHearBeatTime := 0\<rparr>"
    using s p1 r(4) by (simp_all add: s1_def)
  moreover have "Task 0 (SendAppendEntries 1 demo_request ?k) \<in># wires ?s2" "\<forall>i ms. Applying i ms \<notin># wires ?s2"
    using free by (simp_all add: s1_def)
  ultimately show ?thesis
    using r b by (intro exI[of _ ?s2] exI[of _ ?k]) (simp add: r1_def demo_blank_def)
qed

section \<open>Properties\<close>

text \<open>
  C2: In every state that a cluster can reach, two entries with the same index and the same term carry
  the same command: in the logs of any two nodes, in any two requests under way, or one in a log
  and one in a request.
\<close>

theorem entries_unique:
  assumes "cluster_start L s0" and "(step L)\<^sup>*\<^sup>* s0 s" and "e \<in> entries s" and "e' \<in> entries s"
    and "logindex e = logindex e'" and "logterm e = logterm e'"
  shows "command e = command e'"
  using entries_okD(2)[OF _ assms(3-6)] uni.holds_reachable[OF assms(1,2)] by (simp add: unique_inv_def)

theorem entries_unique_witness:
  "\<exists>s. (step demo_lib)\<^sup>*\<^sup>* demo_cluster s \<and> demo_entry \<in> entries s \<and>
     (\<forall>e \<in> entries s. logindex e = 1 \<and> logterm e = 1 \<longrightarrow> command e = command demo_entry)"
proof -
  obtain s where s: "(step demo_lib)\<^sup>*\<^sup>* demo_cluster s" "length (procs s) = 3" "m_logs (procs s ! 0) = [demo_entry]"
    using demo_request_run by blast
  have e: "demo_entry \<in> entries s" using entries_log[of 0 s demo_entry] s by simp
  from entries_unique[OF demo_cluster_start s(1) _ e] e s(1) show ?thesis
    by (auto simp: demo_entry_def intro!: exI[of _ s])
qed

text \<open>
  C5: A request for new entries that is under way in a cluster ends the process of its receiver exactly
  if its term is accepted and it starts before the receiver's snapshot. In all other cases the
  handler returns; in particular the check for two commands at one index and term never fails.
\<close>

theorem append_fails_iff:
  assumes "cluster_start L s0" and "(step L)\<^sup>*\<^sup>* s0 s" and "Task i (SendAppendEntries j args k) \<in># wires s"
    and "n < length (procs s)"
  shows "AppendEntries1 L now args (procs s ! n) = Inl f \<longleftrightarrow>
    f = AssertFail \<and> m_currentTerm (procs s ! n) \<le> aa_term args \<and>
    aa_prevlogindex args < m_lastSnapshotIncludeIndex (procs s ! n)"
proof (rule AppendEntries1_faults)
  have inv: "unique_inv s" by (rule uni.holds_reachable[OF assms(1,2)])
  then have wf: "cluster_wf s" by (simp add: unique_inv_def)
  show "raft_wf (procs s ! n)" using wf assms(4) by (simp add: cluster_wf_def)
  show "args_wf args" by (rule cluster_wfD(2)[OF wf assms(3)])
  show "agrees (procs s ! n) (aa_entries args)" by (rule request_agrees[OF inv assms(3,4)])
qed

theorem append_fails_iff_witness:
  "\<exists>s k reply r. (step demo_lib)\<^sup>*\<^sup>* demo_cluster s \<and> Task 0 (SendAppendEntries 1 demo_request k) \<in># wires s \<and>
     AppendEntries1 demo_lib 5 demo_request (procs s ! 1) = Inr (reply, r)"
proof -
  obtain s k where s: "(step demo_lib)\<^sup>*\<^sup>* demo_cluster s" "length (procs s) = 3" "demo_blank (procs s ! 1)"
    and w: "Task 0 (SendAppendEntries 1 demo_request k) \<in># wires s"
    using demo_request_run by blast
  have "\<nexists>f. AppendEntries1 demo_lib 5 demo_request (procs s ! 1) = Inl f"
    using append_fails_iff[OF demo_cluster_start s(1) w, of 1 5] s by (simp add: demo_request_def demo_blank_def)
  then obtain reply r where "AppendEntries1 demo_lib 5 demo_request (procs s ! 1) = Inr (reply, r)"
    by (cases "AppendEntries1 demo_lib 5 demo_request (procs s ! 1)") auto
  then show ?thesis using s(1) w by blast
qed

end
