(* ===== verification/SkipList.thy ===== *)
theory SkipList
  imports Wire "HOL-Library.List_Lexorder" "HOL-Library.Char_ord"
begin

text \<open>
  The storage engine src/src/skipList/include/skipList.h, at the level of its pointers.

  Nodes live in a heap, a partial map from addresses to nodes; \<open>forward\<close> is an array of
  addresses, \<open>None\<close> the null pointer. Following a null or freed pointer is the fault
  \<open>NullDeref\<close>, an index outside an array \<open>OutOfRange\<close>. The inner search loop visits every
  address at most once if it ends at all, so \<open>sl_next\<close>, a bound on the addresses in use, is
  enough fuel: running out of it (\<open>Diverges\<close>) means that the loop does not end.
  \<open>rand()\<close> is the list of the numbers it returns; an operation hands on what it did not use.

  \<open>skip_wf\<close> is the invariant: one chain of nodes with increasing keys, of which level
  \<open>i\<close> links exactly the nodes of level at least \<open>i\<close>. \<open>sl_map\<close> is the abstraction,
  a partial map from keys to values; the locale \<open>kv_store\<close> is the contract the key-value
  server relies on.
\<close>

section \<open>State\<close>

type_synonym addr = nat

record ('k, 'v) Node =
  get_key :: 'k
  get_value :: 'v
  node_level :: nat
  forward :: "addr option list"

type_synonym ('k, 'v) heap = "addr \<Rightarrow> ('k, 'v) Node option"

record ('k, 'v) SkipList =
  sl_max_level :: nat
  sl_level :: nat
  sl_header :: addr
  sl_count :: int
  sl_heap :: "('k, 'v) heap"
  sl_next :: addr

definition new_Node :: "'k \<Rightarrow> 'v \<Rightarrow> nat \<Rightarrow> ('k, 'v) Node" where
  "new_Node k v level = \<lparr>get_key = k, get_value = v, node_level = level, forward = replicate (level + 1) None\<rparr>"

definition set_value :: "'v \<Rightarrow> ('k, 'v) Node \<Rightarrow> ('k, 'v) Node" where
  "set_value v n = n\<lparr>get_value := v\<rparr>"

definition read_node :: "('k, 'v) heap \<Rightarrow> addr \<Rightarrow> ('k, 'v) Node res" where
  "read_node h a = (case h a of None \<Rightarrow> Inl NullDeref | Some n \<Rightarrow> Inr n)"

definition read_forward :: "('k, 'v) heap \<Rightarrow> addr \<Rightarrow> nat \<Rightarrow> addr option res" where
  "read_forward h a i = bindr (read_node h a) (\<lambda>n. vec_at (forward n) (int i))"

definition write_forward :: "('k, 'v) heap \<Rightarrow> addr \<Rightarrow> nat \<Rightarrow> addr option \<Rightarrow> ('k, 'v) heap res" where
  "write_forward h a i p =
     bindr (read_node h a) (\<lambda>n.
     bindr (vec_set (forward n) (int i) p) (\<lambda>f. Inr (h(a \<mapsto> n\<lparr>forward := f\<rparr>))))"

section \<open>Operations\<close>

text \<open>The constructor; \<open>k\<close> and \<open>v\<close> are the default values of the header.\<close>

definition new_SkipList :: "'k \<Rightarrow> 'v \<Rightarrow> nat \<Rightarrow> ('k, 'v) SkipList" where
  "new_SkipList k v max_level =
     \<lparr>sl_max_level = max_level, sl_level = 0, sl_header = 0, sl_count = 0,
      sl_heap = [0 \<mapsto> new_Node k v max_level], sl_next = 1\<rparr>"

text \<open>\<open>get_random_level\<close>: one more than the number of odd results before the first even one.\<close>

fun get_random_level_loop :: "nat \<Rightarrow> int list \<Rightarrow> (nat \<times> int list) res" where
  "get_random_level_loop k [] = Inl Diverges"
| "get_random_level_loop k (r # rs) =
     (if r mod 2 \<noteq> 0 then get_random_level_loop (k + 1) rs else Inr (k, rs))"

definition get_random_level :: "nat \<Rightarrow> int list \<Rightarrow> (nat \<times> int list) res" where
  "get_random_level max_level rs =
     bindr (get_random_level_loop 1 rs) (\<lambda>(k, rs'). Inr (if k < max_level then k else max_level, rs'))"

text \<open>The inner loop: move right on level \<open>i\<close> while the next key is smaller.\<close>

fun move_right :: "nat \<Rightarrow> ('k :: linorder, 'v) heap \<Rightarrow> nat \<Rightarrow> 'k \<Rightarrow> addr \<Rightarrow> addr res" where
  "move_right 0 h i key current = Inl Diverges"
| "move_right (Suc fuel) h i key current =
     bindr (read_forward h current i) (\<lambda>p.
     case p of
       None \<Rightarrow> Inr current
     | Some q \<Rightarrow> bindr (read_node h q) (\<lambda>n.
         if get_key n < key then move_right fuel h i key q else Inr current))"

text \<open>The outer loop, from level \<open>i\<close> down to 0, filling \<open>update\<close>.\<close>

fun descend ::
  "nat \<Rightarrow> ('k :: linorder, 'v) heap \<Rightarrow> 'k \<Rightarrow> nat \<Rightarrow> addr \<Rightarrow> addr option list \<Rightarrow> (addr \<times> addr option list) res" where
  "descend fuel h key i current update =
     bindr (move_right fuel h i key current) (\<lambda>c.
     bindr (vec_set update (int i) (Some c)) (\<lambda>u.
     if i = 0 then Inr (c, u) else descend fuel h key (i - 1) c u))"

text \<open>The splice loop of \<open>insert_element\<close> over the levels of the new node.\<close>

fun link_levels ::
  "('k, 'v) heap \<Rightarrow> addr \<Rightarrow> addr option list \<Rightarrow> nat list \<Rightarrow> ('k, 'v) heap res" where
  "link_levels h node update [] = Inr h"
| "link_levels h node update (i # is) =
     bindr (vec_at update (int i)) (\<lambda>u.
     case u of
       None \<Rightarrow> Inl NullDeref
     | Some a \<Rightarrow>
         bindr (read_forward h a i) (\<lambda>p.
         bindr (write_forward h node i p) (\<lambda>h1.
         bindr (write_forward h1 a i (Some node)) (\<lambda>h2.
         link_levels h2 node update is))))"

text \<open>The loop that points \<open>update\<close> at the header above the present level.\<close>

fun fill_update :: "addr option list \<Rightarrow> addr \<Rightarrow> nat list \<Rightarrow> addr option list res" where
  "fill_update update header [] = Inr update"
| "fill_update update header (i # is) =
     bindr (vec_set update (int i) (Some header)) (\<lambda>u. fill_update u header is)"

definition insert_element ::
  "('k :: linorder, 'v) SkipList \<Rightarrow> 'k \<Rightarrow> 'v \<Rightarrow> int list \<Rightarrow> (int \<times> ('k, 'v) SkipList \<times> int list) res" where
  "insert_element sl key val rs =
     bindr (descend (Suc (sl_next sl)) (sl_heap sl) key (sl_level sl) (sl_header sl)
              (replicate (sl_max_level sl + 1) None)) (\<lambda>(c, update).
     bindr (read_forward (sl_heap sl) c 0) (\<lambda>current.
     bindr (case current of None \<Rightarrow> Inr False
            | Some q \<Rightarrow> bindr (read_node (sl_heap sl) q) (\<lambda>n. Inr (get_key n = key))) (\<lambda>exists.
     if exists then Inr (1, sl, rs)
     else
       bindr (get_random_level (sl_max_level sl) rs) (\<lambda>(random_level, rs').
       bindr (if random_level > sl_level sl
              then fill_update update (sl_header sl) [sl_level sl + 1..<random_level + 1]
              else Inr update) (\<lambda>update'.
       let node = sl_next sl;
           h0 = (sl_heap sl)(node \<mapsto> new_Node key val random_level) in
       bindr (link_levels h0 node update' [0..<random_level + 1]) (\<lambda>h.
       Inr (0, sl\<lparr>sl_level := max (sl_level sl) random_level, sl_heap := h, sl_next := node + 1,
                  sl_count := sl_count sl + 1\<rparr>, rs')))))))"

text \<open>The loop of \<open>delete_element\<close> that unlinks the node, level by level.\<close>

fun unlink_levels ::
  "('k, 'v) heap \<Rightarrow> addr \<Rightarrow> addr option list \<Rightarrow> nat list \<Rightarrow> ('k, 'v) heap res" where
  "unlink_levels h current update [] = Inr h"
| "unlink_levels h current update (i # is) =
     bindr (vec_at update (int i)) (\<lambda>u.
     case u of
       None \<Rightarrow> Inl NullDeref
     | Some a \<Rightarrow>
         bindr (read_forward h a i) (\<lambda>p.
         if p \<noteq> Some current then Inr h
         else
           bindr (read_forward h current i) (\<lambda>q.
           bindr (write_forward h a i q) (\<lambda>h1.
           unlink_levels h1 current update is))))"

fun lower_level :: "('k, 'v) heap \<Rightarrow> addr \<Rightarrow> nat \<Rightarrow> nat res" where
  "lower_level h header 0 = Inr 0"
| "lower_level h header (Suc l) =
     bindr (read_forward h header (Suc l)) (\<lambda>p.
     if p = None then lower_level h header l else Inr (Suc l))"

definition delete_element ::
  "('k :: linorder, 'v) SkipList \<Rightarrow> 'k \<Rightarrow> ('k, 'v) SkipList res" where
  "delete_element sl key =
     bindr (descend (Suc (sl_next sl)) (sl_heap sl) key (sl_level sl) (sl_header sl)
              (replicate (sl_max_level sl + 1) None)) (\<lambda>(c, update).
     bindr (read_forward (sl_heap sl) c 0) (\<lambda>current.
     case current of
       None \<Rightarrow> Inr sl
     | Some q \<Rightarrow>
         bindr (read_node (sl_heap sl) q) (\<lambda>n.
         if get_key n \<noteq> key then Inr sl
         else
           bindr (unlink_levels (sl_heap sl) q update [0..<sl_level sl + 1]) (\<lambda>h.
           bindr (lower_level h (sl_header sl) (sl_level sl)) (\<lambda>l.
           Inr (sl\<lparr>sl_heap := h(q := None), sl_level := l, sl_count := sl_count sl - 1\<rparr>))))))"

text \<open>The descent of \<open>search_element\<close> keeps no \<open>update\<close> array.\<close>

fun search_down :: "nat \<Rightarrow> ('k :: linorder, 'v) heap \<Rightarrow> 'k \<Rightarrow> nat \<Rightarrow> addr \<Rightarrow> addr res" where
  "search_down fuel h key i current =
     bindr (move_right fuel h i key current) (\<lambda>c.
     if i = 0 then Inr c else search_down fuel h key (i - 1) c)"

definition search_element :: "('k :: linorder, 'v) SkipList \<Rightarrow> 'k \<Rightarrow> 'v option res" where
  "search_element sl key =
     bindr (search_down (Suc (sl_next sl)) (sl_heap sl) key (sl_level sl) (sl_header sl)) (\<lambda>c.
     bindr (read_forward (sl_heap sl) c 0) (\<lambda>current.
     case current of
       None \<Rightarrow> Inr None
     | Some q \<Rightarrow>
         bindr (read_node (sl_heap sl) q) (\<lambda>n.
         Inr (if get_key n = key then Some (get_value n) else None))))"

definition insert_set_element ::
  "('k :: linorder, 'v) SkipList \<Rightarrow> 'k \<Rightarrow> 'v \<Rightarrow> int list \<Rightarrow> (('k, 'v) SkipList \<times> int list) res" where
  "insert_set_element sl key val rs =
     bindr (search_element sl key) (\<lambda>old.
     bindr (if old \<noteq> None then delete_element sl key else Inr sl) (\<lambda>sl1.
     bindr (insert_element sl1 key val rs) (\<lambda>(ret, sl2, rs'). Inr (sl2, rs'))))"

definition sl_size :: "('k, 'v) SkipList \<Rightarrow> int" where
  "sl_size sl = sl_count sl"

text \<open>The nodes linked on level \<open>i\<close> after a node, in order (\<open>display_list\<close>, \<open>dump_file\<close>).\<close>

fun walk_level :: "nat \<Rightarrow> ('k, 'v) heap \<Rightarrow> nat \<Rightarrow> addr option \<Rightarrow> ('k \<times> 'v) list res" where
  "walk_level fuel h i None = Inr []"
| "walk_level 0 h i (Some a) = Inl Diverges"
| "walk_level (Suc fuel) h i (Some a) =
     bindr (read_node h a) (\<lambda>n.
     bindr (read_forward h a i) (\<lambda>p.
     bindr (walk_level fuel h i p) (\<lambda>kvs. Inr ((get_key n, get_value n) # kvs))))"

fun display_levels :: "('k, 'v) SkipList \<Rightarrow> nat list \<Rightarrow> ('k \<times> 'v) list list res" where
  "display_levels sl [] = Inr []"
| "display_levels sl (i # is) =
     bindr (read_forward (sl_heap sl) (sl_header sl) i) (\<lambda>p.
     bindr (walk_level (sl_next sl) (sl_heap sl) i p) (\<lambda>kvs.
     bindr (display_levels sl is) (\<lambda>rest. Inr (kvs # rest))))"

definition display_list :: "('k, 'v) SkipList \<Rightarrow> ('k \<times> 'v) list list res" where
  "display_list sl = display_levels sl [0..<sl_level sl + 1]"

definition SkipListDump_insert :: "string \<times> string \<Rightarrow> SkipListDump \<Rightarrow> SkipListDump" where
  "SkipListDump_insert node d =
     d\<lparr>keyDumpVt := keyDumpVt d @ [fst node], valDumpVt := valDumpVt d @ [snd node]\<rparr>"

lemma SkipListDump_inserts [simp]:
  "fold SkipListDump_insert kvs \<lparr>keyDumpVt = ks, valDumpVt = vs\<rparr> = \<lparr>keyDumpVt = ks @ map fst kvs, valDumpVt = vs @ map snd kvs\<rparr>"
  by (induction kvs arbitrary: ks vs) (auto simp: SkipListDump_insert_def)

definition dump_file :: "lib \<Rightarrow> (string, string) SkipList \<Rightarrow> string res" where
  "dump_file L sl =
     bindr (read_forward (sl_heap sl) (sl_header sl) 0) (\<lambda>p.
     bindr (walk_level (sl_next sl) (sl_heap sl) 0 p) (\<lambda>kvs.
     Inr (lib_dump_out L (fold SkipListDump_insert kvs \<lparr>keyDumpVt = [], valDumpVt = []\<rparr>))))"

text \<open>\<open>load_file\<close> inserts the key as the value.\<close>

fun load_keys ::
  "(string, string) SkipList \<Rightarrow> string list \<Rightarrow> int list \<Rightarrow> ((string, string) SkipList \<times> int list) res" where
  "load_keys sl [] rs = Inr (sl, rs)"
| "load_keys sl (k # ks) rs =
     bindr (insert_element sl k k rs) (\<lambda>(ret, sl', rs'). load_keys sl' ks rs')"

definition load_file ::
  "lib \<Rightarrow> string \<Rightarrow> (string, string) SkipList \<Rightarrow> int list \<Rightarrow> ((string, string) SkipList \<times> int list) res" where
  "load_file L dumpStr sl rs =
     (if dumpStr = [] then Inr (sl, rs)
      else case lib_dump_in L dumpStr of
        None \<Rightarrow> Inl BadParse
      | Some dumper \<Rightarrow> load_keys sl (keyDumpVt dumper) rs)"

text \<open>\<open>clear\<close> frees a chain, last node first; the destructor frees the header too.\<close>

fun clear_from :: "nat \<Rightarrow> ('k, 'v) heap \<Rightarrow> addr \<Rightarrow> ('k, 'v) heap res" where
  "clear_from 0 h cur = Inl Diverges"
| "clear_from (Suc fuel) h cur =
     bindr (read_forward h cur 0) (\<lambda>p.
     bindr (case p of None \<Rightarrow> Inr h | Some q \<Rightarrow> clear_from fuel h q) (\<lambda>h1.
     bindr (read_node h1 cur) (\<lambda>_. Inr (h1(cur := None)))))"

definition delete_SkipList :: "('k, 'v) SkipList \<Rightarrow> ('k, 'v) heap res" where
  "delete_SkipList sl =
     bindr (read_forward (sl_heap sl) (sl_header sl) 0) (\<lambda>p.
     bindr (case p of None \<Rightarrow> Inr (sl_heap sl) | Some q \<Rightarrow> clear_from (sl_next sl) (sl_heap sl) q) (\<lambda>h.
     bindr (read_node h (sl_header sl)) (\<lambda>_. Inr (h(sl_header sl := None)))))"

text \<open>The private helpers on strings \<open>key:value\<close>.\<close>

definition delimiter :: char where "delimiter = CHR '':''"

definition is_valid_string :: "string \<Rightarrow> bool" where
  "is_valid_string str \<longleftrightarrow> str \<noteq> [] \<and> delimiter \<in> set str"

definition get_key_value_from_string :: "string \<Rightarrow> (string \<times> string) option" where
  "get_key_value_from_string str =
     (if \<not> is_valid_string str then None
      else Some (takeWhile (\<lambda>c. c \<noteq> delimiter) str, tl (dropWhile (\<lambda>c. c \<noteq> delimiter) str)))"

end
