(* ===== verification/SkipListCorrect.thy ===== *)
theory SkipListCorrect
  imports SkipList "HOL-Library.Sublist"
begin

text \<open>
  Correctness of the skip list: the invariant \<open>skip_wf\<close>, the fact that no operation
  follows a dangling pointer, leaves an array or loops on a list that satisfies it, and the
  refinement of every operation to a partial map.
\<close>

section \<open>Reading and writing the heap\<close>

definition lev :: "('k, 'v) heap \<Rightarrow> addr \<Rightarrow> nat" where "lev h a = node_level (the (h a))"
definition key :: "('k, 'v) heap \<Rightarrow> addr \<Rightarrow> 'k" where "key h a = get_key (the (h a))"
definition val :: "('k, 'v) heap \<Rightarrow> addr \<Rightarrow> 'v" where "val h a = get_value (the (h a))"
definition nxt :: "('k, 'v) heap \<Rightarrow> addr \<Rightarrow> nat \<Rightarrow> addr option" where "nxt h a i = forward (the (h a)) ! i"

definition shaped :: "('k, 'v) heap \<Rightarrow> addr \<Rightarrow> bool" where
  "shaped h a \<longleftrightarrow> h a \<noteq> None \<and> length (forward (the (h a))) = Suc (lev h a)"

definition upd_fwd :: "('k, 'v) heap \<Rightarrow> addr \<Rightarrow> nat \<Rightarrow> addr option \<Rightarrow> ('k, 'v) heap" where
  "upd_fwd h a i p = h(a \<mapsto> (the (h a))\<lparr>forward := (forward (the (h a)))[i := p]\<rparr>)"

lemma read_node_shaped: "shaped h a \<Longrightarrow> read_node h a = Inr (the (h a))"
  by (auto simp: shaped_def read_node_def)

lemma read_forward_shaped: "shaped h a \<Longrightarrow> i \<le> lev h a \<Longrightarrow> read_forward h a i = Inr (nxt h a i)"
  by (auto simp: read_forward_def read_node_shaped shaped_def nxt_def)

lemma write_forward_shaped: "shaped h a \<Longrightarrow> i \<le> lev h a \<Longrightarrow> write_forward h a i p = Inr (upd_fwd h a i p)"
  by (auto simp: write_forward_def read_node_shaped shaped_def upd_fwd_def)

lemma upd_fwd_simps [simp]:
  "lev (upd_fwd h a i p) = lev h" "key (upd_fwd h a i p) = key h" "val (upd_fwd h a i p) = val h"
  by (auto simp: lev_def key_def val_def upd_fwd_def fun_eq_iff)

lemma upd_fwd_dom [simp]: "upd_fwd h a i p b = None \<longleftrightarrow> b \<noteq> a \<and> h b = None"
  by (auto simp: upd_fwd_def)

lemma shaped_upd_fwd [simp]: "shaped h a \<Longrightarrow> shaped (upd_fwd h a i p) b = shaped h b"
  by (auto simp: shaped_def upd_fwd_def lev_def)

lemma nxt_upd_fwd:
  "shaped h a \<Longrightarrow> i \<le> lev h a \<Longrightarrow> nxt (upd_fwd h a i p) b j = (if b = a \<and> j = i then p else nxt h b j)"
  by (auto simp: nxt_def upd_fwd_def shaped_def)

section \<open>Chains\<close>

fun linked :: "('k, 'v) heap \<Rightarrow> nat \<Rightarrow> addr \<Rightarrow> addr list \<Rightarrow> bool" where
  "linked h i a [] \<longleftrightarrow> nxt h a i = None"
| "linked h i a (x # xs) \<longleftrightarrow> nxt h a i = Some x \<and> linked h i x xs"

definition head_of :: "addr list \<Rightarrow> addr option" where
  "head_of xs = (case xs of [] \<Rightarrow> None | x # _ \<Rightarrow> Some x)"

lemma head_of_simps [simp]: "head_of [] = None" "head_of (x # xs) = Some x"
  by (simp_all add: head_of_def)

lemma linked_head: "linked h i a xs \<Longrightarrow> nxt h a i = head_of xs"
  by (cases xs) auto

lemma linked_none: "linked h i a xs \<Longrightarrow> nxt h a i = None \<Longrightarrow> xs = []"
  by (cases xs) auto

lemma linked_from_last: "linked h i a (xs @ ys) \<Longrightarrow> linked h i (last (a # xs)) ys"
proof (induction xs arbitrary: a)
  case (Cons x xs)
  then have "linked h i x (xs @ ys)" by simp
  from Cons.IH[OF this] show ?case by simp
qed simp

lemma linked_cong:
  assumes "\<And>b. b = a \<or> b \<in> set xs \<Longrightarrow> nxt h' b i = nxt h b i"
  shows "linked h' i a xs = linked h i a xs"
  using assms by (induction xs arbitrary: a) auto

lemma head_not_last: "a \<notin> set (x # xs) \<Longrightarrow> a \<noteq> last (a # x # xs)"
  using last_in_set[of "x # xs"] by (metis last_ConsR list.distinct(1))

text \<open>Splicing a node in after \<open>xs\<close>, and taking it out again.\<close>

lemma linked_insert:
  assumes "linked h i a (xs @ ys)" and "distinct (a # xs @ ys)" and "n \<notin> set (a # xs @ ys)"
    and "nxt h' (last (a # xs)) i = Some n" and "nxt h' n i = head_of ys"
    and "\<And>b. b \<noteq> n \<Longrightarrow> b \<noteq> last (a # xs) \<Longrightarrow> nxt h' b i = nxt h b i"
  shows "linked h' i a (xs @ n # ys)"
  using assms
proof (induction xs arbitrary: a)
  case Nil
  have "linked h' i n ys"
  proof (cases ys)
    case Nil
    then show ?thesis using "Nil.prems"(5) by simp
  next
    case (Cons y zs)
    have "linked h i y zs" using "Nil.prems"(1) Cons by simp
    moreover have "linked h' i y zs = linked h i y zs"
      by (rule linked_cong, rule "Nil.prems"(6)) (use "Nil.prems"(2,3) Cons in auto)
    ultimately show ?thesis using "Nil.prems"(5) Cons by simp
  qed
  then show ?case using Nil.prems(4) by simp
next
  case (Cons x xs)
  have "linked h' i x (xs @ n # ys)"
    by (rule Cons.IH) (use Cons.prems in auto)
  moreover have "nxt h' a i = nxt h a i"
  proof (rule Cons.prems(6))
    show "a \<noteq> n" using Cons.prems(3) by auto
    show "a \<noteq> last (a # x # xs)" using Cons.prems(2) by (intro head_not_last) auto
  qed
  ultimately show ?case using Cons.prems(1) by simp
qed

lemma linked_remove:
  assumes "linked h i a (xs @ n # ys)" and "distinct (a # xs @ n # ys)"
    and "nxt h' (last (a # xs)) i = head_of ys"
    and "\<And>b. b \<noteq> last (a # xs) \<Longrightarrow> b \<noteq> n \<Longrightarrow> nxt h' b i = nxt h b i"
  shows "linked h' i a (xs @ ys)"
  using assms
proof (induction xs arbitrary: a)
  case Nil
  show ?case
  proof (cases ys)
    case Nil
    then show ?thesis using "Nil.prems"(3) by simp
  next
    case (Cons y zs)
    have "linked h i y zs" using "Nil.prems"(1) Cons by simp
    moreover have "linked h' i y zs = linked h i y zs"
      by (rule linked_cong, rule "Nil.prems"(4)) (use "Nil.prems"(2) Cons in auto)
    ultimately show ?thesis using "Nil.prems"(3) Cons by simp
  qed
next
  case (Cons x xs)
  have "linked h' i x (xs @ ys)"
    by (rule Cons.IH) (use Cons.prems in auto)
  moreover have "nxt h' a i = nxt h a i"
  proof (rule Cons.prems(4))
    show "a \<noteq> n" using Cons.prems(2) by auto
    show "a \<noteq> last (a # x # xs)" using Cons.prems(2) by (intro head_not_last) auto
  qed
  ultimately show ?case using Cons.prems(1) by simp
qed

section \<open>The invariant\<close>

definition on_level :: "('k, 'v) heap \<Rightarrow> nat \<Rightarrow> addr list \<Rightarrow> addr list" where
  "on_level h i as = filter (\<lambda>a. i \<le> lev h a) as"

definition chain_ok :: "('k :: linorder, 'v) SkipList \<Rightarrow> addr list \<Rightarrow> bool" where
  "chain_ok sl as \<longleftrightarrow> (let h = sl_heap sl; hd = sl_header sl in
     shaped h hd \<and> lev h hd = sl_max_level sl \<and> sl_level sl \<le> sl_max_level sl \<and>
     (\<forall>a \<in> set as. shaped h a \<and> lev h a \<le> sl_level sl) \<and>
     distinct (hd # as) \<and> sorted_wrt (\<lambda>a b. key h a < key h b) as \<and>
     (\<forall>i \<le> sl_max_level sl. linked h i hd (on_level h i as)) \<and>
     (\<forall>a \<in> set (hd # as). a < sl_next sl) \<and> dom h = set (hd # as) \<and> sl_count sl = int (length as))"

definition skip_wf :: "('k :: linorder, 'v) SkipList \<Rightarrow> bool" where
  "skip_wf sl \<longleftrightarrow> (\<exists>as. chain_ok sl as)"

definition pairs :: "('k, 'v) heap \<Rightarrow> addr list \<Rightarrow> ('k \<times> 'v) list" where
  "pairs h as = map (\<lambda>a. (key h a, val h a)) as"

text \<open>The abstraction: what a walk over the bottom level reads.\<close>

definition sl_map :: "('k, 'v) SkipList \<Rightarrow> 'k \<Rightarrow> 'v option" where
  "sl_map sl =
     (case bindr (read_forward (sl_heap sl) (sl_header sl) 0) (walk_level (sl_next sl) (sl_heap sl) 0) of
        Inl e \<Rightarrow> (\<lambda>_. None) | Inr kvs \<Rightarrow> map_of kvs)"

lemma on_level_simps [simp]:
  "on_level h i [] = []" "on_level h i (xs @ ys) = on_level h i xs @ on_level h i ys"
  "on_level h i (a # xs) = (if i \<le> lev h a then a # on_level h i xs else on_level h i xs)"
  "set (on_level h i xs) = {a \<in> set xs. i \<le> lev h a}" "on_level h 0 xs = xs"
  by (simp_all add: on_level_def)

lemma on_level_sub: "j \<le> i \<Longrightarrow> on_level h i (on_level h j xs) = on_level h i xs"
  by (auto simp: on_level_def intro: filter_cong)

lemma distinct_on_level: "distinct xs \<Longrightarrow> distinct (on_level h i xs)"
  by (simp add: on_level_def)

lemma chain_okD:
  assumes "chain_ok sl as"
  shows "shaped (sl_heap sl) (sl_header sl)" "lev (sl_heap sl) (sl_header sl) = sl_max_level sl"
    "sl_level sl \<le> sl_max_level sl" "distinct (sl_header sl # as)"
    "sorted_wrt (\<lambda>a b. key (sl_heap sl) a < key (sl_heap sl) b) as"
    "dom (sl_heap sl) = set (sl_header sl # as)" "sl_count sl = int (length as)"
    "\<And>a. a \<in> set as \<Longrightarrow> shaped (sl_heap sl) a"
    "\<And>a. a \<in> set as \<Longrightarrow> lev (sl_heap sl) a \<le> sl_level sl"
    "\<And>i. i \<le> sl_max_level sl \<Longrightarrow> linked (sl_heap sl) i (sl_header sl) (on_level (sl_heap sl) i as)"
    "\<And>a. a \<in> set (sl_header sl # as) \<Longrightarrow> a < sl_next sl"
  using assms unfolding chain_ok_def Let_def by blast+

lemma chain_length:
  assumes "chain_ok sl as"
  shows "length as < sl_next sl"
proof -
  have "card (set (sl_header sl # as)) \<le> card {..<sl_next sl}"
    using chain_okD(11)[OF assms] by (intro card_mono) auto
  then show ?thesis using distinct_card[OF chain_okD(4)[OF assms]] by simp
qed

section \<open>Searching\<close>

lemma move_right_spec:
  assumes "linked h i c (xs @ ys)" and "length xs < fuel" and "shaped h c" and "i \<le> lev h c"
    and "\<forall>a \<in> set (xs @ ys). shaped h a \<and> i \<le> lev h a"
    and "\<forall>a \<in> set xs. key h a < k" and "ys = [] \<or> \<not> key h (hd ys) < k"
  shows "move_right fuel h i k c = Inr (last (c # xs))"
  using assms
proof (induction xs arbitrary: c fuel)
  case Nil
  then obtain f where "fuel = Suc f" by (cases fuel) auto
  then show ?case
    using Nil by (cases ys) (auto simp: read_forward_shaped read_node_shaped key_def)
next
  case (Cons x xs)
  then obtain f where f: "fuel = Suc f" by (cases fuel) auto
  have "move_right f h i k x = Inr (last (x # xs))"
    by (rule Cons.IH) (use Cons.prems f in auto)
  then show ?case
    using Cons.prems by (auto simp: f read_forward_shaped read_node_shaped key_def)
qed

text \<open>The last node of level \<open>i\<close> before a position, from the header on.\<close>

definition pred_on :: "('k, 'v) SkipList \<Rightarrow> addr list \<Rightarrow> nat \<Rightarrow> addr" where
  "pred_on sl xs i = last (sl_header sl # on_level (sl_heap sl) i xs)"

lemma pred_on_split:
  "\<exists>us ws. on_level (sl_heap sl) j xs = us @ ws \<and> pred_on sl xs (Suc j) = last (sl_header sl # us)"
proof (cases "on_level (sl_heap sl) (Suc j) xs = []")
  case True
  then show ?thesis by (auto simp: pred_on_def)
next
  case False
  let ?x = "last (on_level (sl_heap sl) (Suc j) xs)"
  have "?x \<in> set (on_level (sl_heap sl) (Suc j) xs)" using False by (rule last_in_set)
  then have "?x \<in> set (on_level (sl_heap sl) j xs)" by auto
  then obtain us ws where "on_level (sl_heap sl) j xs = us @ ?x # ws" by (meson split_list)
  then show ?thesis using False by (intro exI[of _ "us @ [?x]"] exI[of _ ws]) (simp add: pred_on_def)
qed

text \<open>What lies before and after a key.\<close>

definition before :: "('k :: linorder, 'v) heap \<Rightarrow> 'k \<Rightarrow> addr list \<Rightarrow> addr list" where
  "before h k as = takeWhile (\<lambda>a. key h a < k) as"

definition after :: "('k :: linorder, 'v) heap \<Rightarrow> 'k \<Rightarrow> addr list \<Rightarrow> addr list" where
  "after h k as = dropWhile (\<lambda>a. key h a < k) as"

lemma before_after: "before h k as @ after h k as = as"
  by (simp add: before_def after_def)

lemma before_less: "a \<in> set (before h k as) \<Longrightarrow> key h a < k"
  by (auto simp: before_def dest: set_takeWhileD)

lemma after_notless:
  assumes "sorted_wrt (\<lambda>a b. key h a < key h b) as" and "a \<in> set (after h k as)"
  shows "\<not> key h a < k"
  using assms by (induction as) (auto simp: after_def split: if_splits)

lemma move_right_chain:
  assumes ok: "chain_ok sl as" and i: "i \<le> sl_max_level sl"
    and us: "on_level (sl_heap sl) i (before (sl_heap sl) k as) = us @ ws" and c: "c = last (sl_header sl # us)"
  shows "move_right (Suc (sl_next sl)) (sl_heap sl) i k c = Inr (pred_on sl (before (sl_heap sl) k as) i)"
proof -
  let ?h = "sl_heap sl"
  let ?B = "before ?h k as" and ?A = "after ?h k as"
  note D = chain_okD[OF ok]
  have split: "on_level ?h i as = us @ ws @ on_level ?h i ?A"
    using before_after[of ?h k as] us by (metis append.assoc on_level_simps(2))
  have lk: "linked ?h i c (ws @ on_level ?h i ?A)"
    using linked_from_last[of ?h i "sl_header sl" us] D(10)[OF i] split c by simp
  have sub: "set (us @ ws @ on_level ?h i ?A) \<subseteq> {a \<in> set as. i \<le> lev ?h a}"
    using split by (metis on_level_simps(4) subset_refl)
  have c_in: "c = sl_header sl \<or> c \<in> set us" using c by (cases "us = []") auto
  then have sc: "shaped ?h c" "i \<le> lev ?h c" using D(1,2,8) i sub by auto
  have "length ws \<le> length as" using split by (metis length_filter_le on_level_def length_append trans_le_add2 add_leD1 add_leD2)
  then have len: "length ws < Suc (sl_next sl)" using chain_length[OF ok] by simp
  have "\<forall>a \<in> set ws. key ?h a < k" using us before_less by (metis (no_types, lifting) Un_iff mem_Collect_eq on_level_simps(4) set_append)
  moreover have "on_level ?h i ?A = [] \<or> \<not> key ?h (hd (on_level ?h i ?A)) < k"
    using after_notless[OF D(5)] hd_in_set[of "on_level ?h i ?A"] by auto
  moreover have "\<forall>a \<in> set (ws @ on_level ?h i ?A). shaped ?h a \<and> i \<le> lev ?h a" using sub D(8) by auto
  ultimately have "move_right (Suc (sl_next sl)) ?h i k c = Inr (last (c # ws))"
    using move_right_spec[OF lk len sc] by blast
  moreover have "last (c # ws) = pred_on sl ?B i"
    using c us by (auto simp: pred_on_def)
  ultimately show ?thesis by simp
qed

lemma descend_spec:
  assumes ok: "chain_ok sl as" and B_def: "B = before (sl_heap sl) k as"
  shows "i \<le> sl_max_level sl \<Longrightarrow> \<exists>us ws. on_level (sl_heap sl) i B = us @ ws \<and> c = last (sl_header sl # us) \<Longrightarrow>
    length upd = Suc (sl_max_level sl) \<Longrightarrow>
    \<exists>upd'. descend (Suc (sl_next sl)) (sl_heap sl) k i c upd = Inr (pred_on sl B 0, upd') \<and>
      length upd' = length upd \<and> (\<forall>j \<le> i. upd' ! j = Some (pred_on sl B j)) \<and>
      (\<forall>j > i. upd' ! j = upd ! j)"
proof (induction i arbitrary: c upd)
  case 0
  then have "move_right (Suc (sl_next sl)) (sl_heap sl) 0 k c = Inr (pred_on sl B 0)"
    using move_right_chain[OF ok] unfolding B_def by blast
  then show ?case using 0 by (simp del: move_right.simps)
next
  case (Suc i)
  then have mv: "move_right (Suc (sl_next sl)) (sl_heap sl) (Suc i) k c = Inr (pred_on sl B (Suc i))"
    using move_right_chain[OF ok] unfolding B_def by blast
  let ?u = "upd[Suc i := Some (pred_on sl B (Suc i))]"
  obtain upd' where u: "descend (Suc (sl_next sl)) (sl_heap sl) k i (pred_on sl B (Suc i)) ?u = Inr (pred_on sl B 0, upd')"
    "length upd' = length ?u" "\<forall>j \<le> i. upd' ! j = Some (pred_on sl B j)" "\<forall>j > i. upd' ! j = ?u ! j"
    using Suc.IH[OF _ pred_on_split, of ?u] Suc.prems by auto
  have vs: "vec_set upd (int (Suc i)) (Some (pred_on sl B (Suc i))) = Inr ?u"
    using Suc.prems(1,3) by (simp add: nat_add_distrib vec_set_def)
  have "descend (Suc (sl_next sl)) (sl_heap sl) k (Suc i) c upd = Inr (pred_on sl B 0, upd')"
    by (subst descend.simps) (simp only: mv vs bindr_Inr nat.distinct if_False diff_Suc_1 u(1))
  moreover have "upd' ! j = Some (pred_on sl B j)" if "j \<le> Suc i" for j
    using u(3,4) that Suc.prems(1,3) by (cases "j = Suc i") auto
  moreover have "upd' ! j = upd ! j" if "j > Suc i" for j using u(4) that by simp
  ultimately show ?case using u(2) by auto
qed

declare descend.simps [simp del] move_right.simps [simp del] search_down.simps [simp del]

lemma descend_start:
  assumes "chain_ok sl as" and B_def: "B = before (sl_heap sl) k as"
  obtains upd where "descend (Suc (sl_next sl)) (sl_heap sl) k (sl_level sl) (sl_header sl)
      (replicate (sl_max_level sl + 1) None) = Inr (pred_on sl B 0, upd)"
    "length upd = Suc (sl_max_level sl)" "\<And>j. j \<le> sl_level sl \<Longrightarrow> upd ! j = Some (pred_on sl B j)"
proof -
  have "\<exists>us ws. on_level (sl_heap sl) (sl_level sl) B = us @ ws \<and> sl_header sl = last (sl_header sl # us)"
    by (metis append_Nil last_ConsL)
  from descend_spec[OF assms chain_okD(3)[OF assms(1)] this, of "replicate (sl_max_level sl + 1) None"] that
  show ?thesis by auto
qed

lemma search_down_spec:
  assumes ok: "chain_ok sl as" and B_def: "B = before (sl_heap sl) k as"
  shows "i \<le> sl_max_level sl \<Longrightarrow> \<exists>us ws. on_level (sl_heap sl) i B = us @ ws \<and> c = last (sl_header sl # us) \<Longrightarrow>
    search_down (Suc (sl_next sl)) (sl_heap sl) k i c = Inr (pred_on sl B 0)"
proof (induction i arbitrary: c)
  case 0
  then show ?case
    using move_right_chain[OF ok] unfolding B_def by (subst search_down.simps) fastforce
next
  case (Suc i)
  then have "move_right (Suc (sl_next sl)) (sl_heap sl) (Suc i) k c = Inr (pred_on sl B (Suc i))"
    using move_right_chain[OF ok] unfolding B_def by blast
  then show ?case
    using Suc.IH[OF _ pred_on_split] Suc.prems(1) by (subst search_down.simps) simp
qed

text \<open>The node after the predecessor on the bottom level is the first one not before the key.\<close>

lemma pred_shaped:
  assumes "chain_ok sl as" and "set xs \<subseteq> set as" and "i \<le> sl_max_level sl"
  shows "shaped (sl_heap sl) (pred_on sl xs i) \<and> i \<le> lev (sl_heap sl) (pred_on sl xs i)"
proof (cases "on_level (sl_heap sl) i xs = []")
  case True
  then show ?thesis using chain_okD(1,2)[OF assms(1)] assms(3) by (simp add: pred_on_def)
next
  case False
  then have "pred_on sl xs i \<in> set (on_level (sl_heap sl) i xs)"
    using last_in_set[OF False] False by (simp add: pred_on_def)
  then show ?thesis using chain_okD(8)[OF assms(1)] assms(2) by auto
qed

lemma before_sub: "set (before h k as) \<subseteq> set as"
  using before_after[of h k as] by (metis set_append sup_ge1)

lemma nxt_pred:
  assumes "chain_ok sl as" and "i \<le> sl_max_level sl" and "xs @ ys = as"
  shows "nxt (sl_heap sl) (pred_on sl xs i) i = head_of (on_level (sl_heap sl) i ys)"
proof -
  have "linked (sl_heap sl) i (sl_header sl) (on_level (sl_heap sl) i xs @ on_level (sl_heap sl) i ys)"
    using chain_okD(10)[OF assms(1,2)] assms(3) by auto
  from linked_head[OF linked_from_last[OF this]] show ?thesis by (simp add: pred_on_def)
qed

lemma read_pred:
  assumes "chain_ok sl as"
  shows "read_forward (sl_heap sl) (pred_on sl (before (sl_heap sl) k as) 0) 0 = Inr (head_of (after (sl_heap sl) k as))"
  using pred_shaped[OF assms before_sub[of "sl_heap sl" k as], of 0]
    nxt_pred[OF assms _ before_after[of "sl_heap sl" k as], of 0]
  by (simp add: read_forward_shaped)

lemma pairs_map_of:
  assumes "sorted_wrt (\<lambda>a b. key h a < key h b) as"
  shows "map_of (pairs h as) k = (case after h k as of [] \<Rightarrow> None | q # _ \<Rightarrow> if key h q = k then Some (val h q) else None)"
  using assms
proof (induction as)
  case Nil
  then show ?case by (simp add: pairs_def after_def)
next
  case (Cons a as)
  have none: "map_of (pairs h as) k = None" if "k \<le> key h a"
  proof -
    have "k \<notin> fst ` set (pairs h as)" using Cons.prems that by (auto simp: pairs_def)
    then show ?thesis by (simp add: map_of_eq_None_iff)
  qed
  show ?case
  proof (cases "key h a < k")
    case True
    then have "k \<noteq> key h a" by simp
    then show ?thesis using Cons True by (simp add: pairs_def after_def)
  next
    case False
    then show ?thesis using none by (simp add: pairs_def after_def)
  qed
qed

lemma walk_level_spec:
  assumes "nxt h a i = head_of xs" and "\<And>x ys. xs = x # ys \<Longrightarrow> linked h i x ys"
    and "\<forall>b \<in> set xs. shaped h b \<and> i \<le> lev h b" and "length xs \<le> fuel"
  shows "walk_level fuel h i (nxt h a i) = Inr (pairs h xs)"
  using assms
proof (induction xs arbitrary: a fuel)
  case Nil
  then show ?case by (simp add: pairs_def)
next
  case (Cons x xs)
  then obtain f where f: "fuel = Suc f" by (cases fuel) auto
  have lx: "linked h i x xs" using Cons.prems(2) by blast
  have "walk_level f h i (nxt h x i) = Inr (pairs h xs)"
  proof (rule Cons.IH)
    show "nxt h x i = head_of xs" using lx by (rule linked_head)
    show "\<And>y ys. xs = y # ys \<Longrightarrow> linked h i y ys" using lx by auto
  qed (use Cons.prems f in auto)
  then show ?case
    using Cons.prems(1,3) by (simp add: f read_node_shaped read_forward_shaped pairs_def key_def val_def)
qed

lemma walk_chain:
  assumes ok: "chain_ok sl as" and i: "i \<le> sl_max_level sl"
  shows "bindr (read_forward (sl_heap sl) (sl_header sl) i) (walk_level (sl_next sl) (sl_heap sl) i)
    = Inr (pairs (sl_heap sl) (on_level (sl_heap sl) i as))"
proof -
  note D = chain_okD[OF ok]
  have lk: "linked (sl_heap sl) i (sl_header sl) (on_level (sl_heap sl) i as)" by (rule D(10)[OF i])
  have "length (on_level (sl_heap sl) i as) \<le> sl_next sl"
    using chain_length[OF ok] length_filter_le[of "\<lambda>a. i \<le> lev (sl_heap sl) a" as]
    unfolding on_level_def by linarith
  then have "walk_level (sl_next sl) (sl_heap sl) i (nxt (sl_heap sl) (sl_header sl) i)
      = Inr (pairs (sl_heap sl) (on_level (sl_heap sl) i as))"
    by (intro walk_level_spec) (use lk D(8) linked_head[OF lk] in auto)
  then show ?thesis using D(1,2) i by (simp add: read_forward_shaped)
qed

lemma sl_map_chain: "chain_ok sl as \<Longrightarrow> sl_map sl = map_of (pairs (sl_heap sl) as)"
  using walk_chain[of sl as 0] by (simp add: sl_map_def)

lemma search_element_spec:
  assumes "chain_ok sl as"
  shows "search_element sl k = Inr (sl_map sl k)"
proof -
  let ?h = "sl_heap sl"
  note D = chain_okD[OF assms]
  have "search_down (Suc (sl_next sl)) ?h k (sl_level sl) (sl_header sl) = Inr (pred_on sl (before ?h k as) 0)"
    by (rule search_down_spec[OF assms refl D(3)]) (metis append_Nil last_ConsL)
  moreover have "shaped ?h q" if "after ?h k as = q # qs" for q qs
    using D(8)[of q] that before_after[of ?h k as] by (metis in_set_conv_decomp)
  ultimately show ?thesis
    using read_pred[OF assms, of k] D(5)
    by (cases "after ?h k as")
      (simp_all add: search_element_def sl_map_chain[OF assms] pairs_map_of read_node_shaped key_def val_def)
qed

section \<open>Inserting\<close>

text \<open>Two heaps that differ in pointers only.\<close>

definition same_data :: "('k, 'v) heap \<Rightarrow> ('k, 'v) heap \<Rightarrow> bool" where
  "same_data h h' \<longleftrightarrow> lev h' = lev h \<and> key h' = key h \<and> val h' = val h \<and> shaped h' = shaped h \<and> dom h' = dom h"

lemma same_data_refl [simp]: "same_data h h"
  by (simp add: same_data_def)

lemma same_data_trans: "same_data h h' \<Longrightarrow> same_data h' h'' \<Longrightarrow> same_data h h''"
  by (simp add: same_data_def)

lemma same_data_upd: "shaped h a \<Longrightarrow> same_data h (upd_fwd h a i p)"
proof -
  assume a: "shaped h a"
  have "shaped (upd_fwd h a i p) = shaped h" by (rule ext) (simp add: a)
  moreover have "dom (upd_fwd h a i p) = dom h" using a by (auto simp: upd_fwd_def shaped_def)
  ultimately show ?thesis by (simp add: same_data_def)
qed

lemma same_dataD:
  assumes "same_data h h'"
  shows "lev h' = lev h" "key h' = key h" "val h' = val h" "shaped h' = shaped h" "dom h' = dom h"
    "on_level h' = on_level h" "pairs h' = pairs h"
  using assms by (simp_all add: same_data_def on_level_def pairs_def fun_eq_iff)

lemma link_levels_spec:
  assumes "distinct is" and "shaped h n"
    and "\<forall>j \<in> set is. j \<le> lev h n \<and> j < length upd \<and> upd ! j = Some (p j) \<and> shaped h (p j) \<and> j \<le> lev h (p j) \<and> p j \<noteq> n"
  shows "\<exists>h'. link_levels h n upd is = Inr h' \<and> same_data h h' \<and>
    (\<forall>b j. nxt h' b j = (if j \<notin> set is then nxt h b j else if b = n then nxt h (p j) j
       else if b = p j then Some n else nxt h b j))"
  using assms
proof (induction "is" arbitrary: h)
  case Nil
  then show ?case by simp
next
  case (Cons i "is")
  have i: "i \<le> lev h n" "i < length upd" "upd ! i = Some (p i)" "shaped h (p i)" "i \<le> lev h (p i)" "p i \<noteq> n"
    using Cons.prems(3) by auto
  let ?h1 = "upd_fwd h n i (nxt h (p i) i)"
  let ?h2 = "upd_fwd ?h1 (p i) i (Some n)"
  have sd: "same_data h ?h2"
    using same_data_upd[OF Cons.prems(2)] same_data_upd[of ?h1 "p i"] i(4) Cons.prems(2)
    by (metis same_data_trans shaped_upd_fwd)
  note sdD = same_dataD[OF sd]
  have nx: "nxt ?h2 b j = (if j = i then if b = n then nxt h (p i) i else if b = p i then Some n else nxt h b j else nxt h b j)" for b j
    using Cons.prems(2) i by (simp add: nxt_upd_fwd)
  obtain h' where h': "link_levels ?h2 n upd is = Inr h'" "same_data ?h2 h'"
    "\<forall>b j. nxt h' b j = (if j \<notin> set is then nxt ?h2 b j else if b = n then nxt ?h2 (p j) j
       else if b = p j then Some n else nxt ?h2 b j)"
    using Cons.IH[of ?h2] Cons.prems sdD by auto
  have "link_levels h n upd (i # is) = Inr h'"
    using h'(1) i Cons.prems(2) by (simp add: read_forward_shaped write_forward_shaped)
  moreover have "nxt h' b j = (if j \<notin> set (i # is) then nxt h b j else if b = n then nxt h (p j) j
       else if b = p j then Some n else nxt h b j)" for b j
    using h'(3) nx Cons.prems(1) by auto
  ultimately show ?case using same_data_trans[OF sd h'(2)] by blast
qed

lemma fill_update_spec:
  assumes "\<forall>j \<in> set is. j < length upd"
  shows "\<exists>upd'. fill_update upd header is = Inr upd' \<and> length upd' = length upd \<and>
    (\<forall>j < length upd. upd' ! j = (if j \<in> set is then Some header else upd ! j))"
  using assms
proof (induction "is" arbitrary: upd)
  case Nil
  then show ?case by simp
next
  case (Cons i "is")
  obtain upd' where "fill_update (upd[i := Some header]) header is = Inr upd'" "length upd' = length upd"
    "\<forall>j < length upd. upd' ! j = (if j \<in> set is then Some header else upd[i := Some header] ! j)"
    using Cons.IH[of "upd[i := Some header]"] Cons.prems by auto
  then show ?case using Cons.prems by (intro exI[of _ upd']) (auto simp: nth_list_update)
qed

lemma get_random_level_bounds:
  assumes "get_random_level m rs = Inr (l, rs')"
  shows "l \<le> m"
  using assms by (auto simp: get_random_level_def bindr_eq_Inr split: if_splits)

lemma pred_on_above:
  assumes "chain_ok sl as" and "sl_level sl < j" and "set xs \<subseteq> set as"
  shows "pred_on sl xs j = sl_header sl"
proof -
  have "on_level (sl_heap sl) j xs = []"
    using chain_okD(9)[OF assms(1)] assms(2,3) unfolding on_level_def by (force simp: filter_empty_conv)
  then show ?thesis by (simp add: pred_on_def)
qed

text \<open>The chain after a node has been spliced in between \<open>B\<close> and \<open>A\<close> on its levels.\<close>

lemma chain_ok_splice:
  assumes ok: "chain_ok sl (B @ A)" and r: "r \<le> sl_max_level sl" and n: "n = sl_next sl"
    and h0: "h0 = (sl_heap sl)(n \<mapsto> new_Node k v r)"
    and sd: "same_data h0 h'"
    and nx: "\<And>b j. nxt h' b j = (if r < j then nxt h0 b j else if b = n then nxt h0 (pred_on sl B j) j
       else if b = pred_on sl B j then Some n else nxt h0 b j)"
    and less: "\<forall>a \<in> set B. key (sl_heap sl) a < k" "\<forall>a \<in> set A. k < key (sl_heap sl) a"
  shows "chain_ok (sl\<lparr>sl_level := max (sl_level sl) r, sl_heap := h', sl_next := n + 1, sl_count := sl_count sl + 1\<rparr>)
    (B @ n # A)"
proof -
  let ?h = "sl_heap sl" and ?hd = "sl_header sl"
  note D = chain_okD[OF ok]
  have fresh: "n \<notin> set (?hd # B @ A)" using D(11) n by blast
  have old: "lev h0 a = lev ?h a" "key h0 a = key ?h a" "nxt h0 a j = nxt ?h a j" "shaped h0 a = shaped ?h a"
    if "a \<in> set (?hd # B @ A)" for a j
    using that fresh by (auto simp: h0 lev_def key_def nxt_def shaped_def)
  have new: "lev h0 n = r" "key h0 n = k" "shaped h0 n"
    by (simp_all add: h0 lev_def key_def shaped_def new_Node_def)
  note S = same_dataD[OF sd]
  have lvl: "on_level h' j xs = on_level ?h j xs" if "set xs \<subseteq> set (?hd # B @ A)" for j xs
    unfolding on_level_def by (rule filter_cong[OF refl]) (use that old(1) S(1) in auto)
  have lvlBA: "on_level h' j B = on_level ?h j B" "on_level h' j A = on_level ?h j A" for j
    by (rule lvl, simp add: subset_iff)+
  have lnk: "linked h' j ?hd (on_level h' j (B @ n # A))" if j: "j \<le> sl_max_level sl" for j
  proof (cases "j \<le> r")
    case True
    let ?X = "on_level ?h j B" and ?Y = "on_level ?h j A"
    have lk: "linked ?h j ?hd (?X @ ?Y)" using D(10)[OF j] by simp
    have pr: "pred_on sl B j = last (?hd # ?X)" by (simp add: pred_on_def)
    have mem: "set (?hd # ?X @ ?Y) \<subseteq> set (?hd # B @ A)" by auto
    have pin: "last (?hd # ?X) \<in> set (?hd # B @ A)" using mem last_in_set[of "?hd # ?X"] by auto
    have "distinct (?hd # ?X @ ?Y)" using D(4) distinct_on_level[of "B @ A" ?h j] by auto
    moreover have "n \<notin> set (?hd # ?X @ ?Y)" using fresh mem by blast
    moreover have "nxt h' (last (?hd # ?X)) j = Some n" using nx[of "last (?hd # ?X)" j] True pr pin fresh by auto
    moreover have "nxt h' n j = head_of ?Y"
      using nx[of n j] True old(3)[OF pin] linked_head[OF linked_from_last[OF lk]] pr by simp
    moreover have "nxt h' b j = nxt h0 b j" if "b \<noteq> n" "b \<noteq> last (?hd # ?X)" for b
      using nx[of b j] that pr by simp
    moreover have "linked h0 j ?hd (?X @ ?Y)"
      using lk linked_cong[of ?hd "?X @ ?Y" h0 j ?h] old(3) mem by auto
    ultimately have "linked h' j ?hd (?X @ n # ?Y)" by (intro linked_insert[of h0]) auto
    then show ?thesis using True S(1) new(1) lvlBA by simp
  next
    case False
    have "linked h' j ?hd (on_level ?h j (B @ A)) = linked ?h j ?hd (on_level ?h j (B @ A))"
      by (rule linked_cong) (use nx False old(3) in auto)
    then show ?thesis using False S(1) new(1) D(10)[OF j] lvlBA by simp
  qed
  have kk: "key h' a = key ?h a" if "a \<in> set (B @ A)" for a using that old(2)[of a] S(2) by auto
  have "sorted_wrt (\<lambda>a b. key h' a < key h' b) (B @ A)"
    by (rule sorted_wrt_mono_rel[OF _ D(5)]) (use kk in simp)
  then have srt: "sorted_wrt (\<lambda>a b. key h' a < key h' b) (B @ n # A)"
    using less kk new(2) S(2) by (auto simp: sorted_wrt_append)
  have nodes: "shaped h' a \<and> lev h' a \<le> max (sl_level sl) r" if "a \<in> set (B @ n # A)" for a
    using that D(8)[of a] D(9)[of a] old(1,4)[of a] new(1,3) S(1,4) by (cases "a = n") (auto simp: max.coboundedI1)
  have dm: "dom h' = set (?hd # B @ n # A)" using D(6) S(5) by (auto simp: h0)
  show ?thesis
    unfolding chain_ok_def Let_def
    using lnk srt nodes dm D(1,2,3,4,7,11) r fresh n old(1,4)[of ?hd] S(1,4)
    by (simp add: less_Suc_eq)
qed

lemma chain_parts:
  assumes ok: "chain_ok sl as"
  defines "h \<equiv> sl_heap sl"
  shows "\<forall>a \<in> set (before h k as). key h a < k"
    and "sl_map sl k = None \<Longrightarrow> \<forall>a \<in> set (after h k as). k < key h a"
    and "sl_map sl k = Some v \<Longrightarrow> \<exists>q qs. after h k as = q # qs \<and> key h q = k \<and> val h q = v \<and> (\<forall>a \<in> set qs. k < key h a)"
proof -
  note D = chain_okD[OF ok, folded h_def]
  show "\<forall>a \<in> set (before h k as). key h a < k" using before_less by auto
  have m: "sl_map sl k = (case after h k as of [] \<Rightarrow> None | q # _ \<Rightarrow> if key h q = k then Some (val h q) else None)"
    using sl_map_chain[OF ok] pairs_map_of[OF D(5)] by (simp add: h_def)
  have srt: "sorted_wrt (\<lambda>a b. key h a < key h b) (after h k as)"
    using D(5) before_after[of h k as] by (metis sorted_wrt_append)
  have ge: "k \<le> key h a" if "a \<in> set (after h k as)" for a using after_notless[OF D(5) that] by simp
  show "\<forall>a \<in> set (after h k as). k < key h a" if "sl_map sl k = None"
    using m srt ge that by (cases "after h k as") (fastforce split: if_splits)+
  show "\<exists>q qs. after h k as = q # qs \<and> key h q = k \<and> val h q = v \<and> (\<forall>a \<in> set qs. k < key h a)"
    if "sl_map sl k = Some v"
    using m srt that by (cases "after h k as") (auto split: if_splits)
qed

lemma pred_on_mem: "set xs \<subseteq> set as \<Longrightarrow> pred_on sl xs j \<in> set (sl_header sl # as)"
proof (cases "on_level (sl_heap sl) j xs = []")
  case False
  assume sub: "set xs \<subseteq> set as"
  have "pred_on sl xs j \<in> set (on_level (sl_heap sl) j xs)"
    using last_in_set[OF False] False by (simp add: pred_on_def)
  then show ?thesis using sub by auto
qed (simp add: pred_on_def)

lemma fill_levels:
  assumes ok: "chain_ok sl as" and sub: "set xs \<subseteq> set as" and r: "r \<le> sl_max_level sl"
    and len: "length upd = Suc (sl_max_level sl)"
    and upd: "\<And>j. j \<le> sl_level sl \<Longrightarrow> upd ! j = Some (pred_on sl xs j)"
  obtains upd' where "(if r > sl_level sl then fill_update upd (sl_header sl) [sl_level sl + 1..<r + 1] else Inr upd) = Inr upd'"
    and "length upd' = Suc (sl_max_level sl)" and "\<And>j. j \<le> r \<Longrightarrow> upd' ! j = Some (pred_on sl xs j)"
proof (cases "r > sl_level sl")
  case True
  have "\<forall>j \<in> set [sl_level sl + 1..<r + 1]. j < length upd" using len r by auto
  from fill_update_spec[OF this, of "sl_header sl"] obtain upd' where
    u: "fill_update upd (sl_header sl) [sl_level sl + 1..<r + 1] = Inr upd'" "length upd' = length upd"
      "\<forall>j < length upd. upd' ! j = (if j \<in> set [sl_level sl + 1..<r + 1] then Some (sl_header sl) else upd ! j)"
    by blast
  have "upd' ! j = Some (pred_on sl xs j)" if "j \<le> r" for j
  proof (cases "j \<le> sl_level sl")
    case True
    then show ?thesis using u(3) that len r upd by simp
  next
    case False
    then show ?thesis using u(3) that len r pred_on_above[OF ok _ sub, of j] by simp
  qed
  then show ?thesis using that u(1,2) True len by auto
next
  case False
  then show ?thesis using that[of upd] upd len by auto
qed

text \<open>The test of \<open>insert_element\<close> and \<open>delete_element\<close> on the node after the predecessor.\<close>

lemma after_mem: "after h k as = q # qs \<Longrightarrow> q \<in> set as"
  using before_after[of h k as] by (metis in_set_conv_decomp)

lemma exists_test:
  assumes ok: "chain_ok sl as"
  shows "(case head_of (after (sl_heap sl) k as) of None \<Rightarrow> Inr False
      | Some q \<Rightarrow> bindr (read_node (sl_heap sl) q) (\<lambda>n. Inr (get_key n = k))) = Inr (sl_map sl k \<noteq> None)"
proof (cases "after (sl_heap sl) k as")
  case Nil
  then show ?thesis using sl_map_chain[OF ok] pairs_map_of[OF chain_okD(5)[OF ok]] by simp
next
  case (Cons q qs)
  then have "shaped (sl_heap sl) q" using after_mem chain_okD(8)[OF ok] by metis
  then show ?thesis
    using Cons sl_map_chain[OF ok] pairs_map_of[OF chain_okD(5)[OF ok], of k] by (simp add: read_node_shaped key_def)
qed

text \<open>The map a spliced chain stands for.\<close>

lemma map_of_spliced:
  fixes h' :: "('k :: linorder, 'v) heap"
  assumes "sorted_wrt (\<lambda>a b. key h' a < key h' b) (B @ n # A)" and "key h' n = k"
  shows "map_of (pairs h' (B @ n # A)) = (map_of (pairs h' (B @ A)))(k \<mapsto> val h' n)"
proof -
  have "\<forall>b \<in> set B. key h' b < k" using assms by (simp add: sorted_wrt_append)
  then have "k \<notin> fst ` set (pairs h' B)" by (force simp: pairs_def)
  then have "map_of (pairs h' B) k = None" by (simp add: map_of_eq_None_iff)
  then show ?thesis using assms(2) by (auto simp: pairs_def fun_eq_iff map_add_def split: option.split)
qed

lemma link_new_node:
  assumes ok: "chain_ok sl as" and sub: "set xs \<subseteq> set as" and r: "r \<le> sl_max_level sl"
    and len: "length upd = Suc (sl_max_level sl)"
    and upd: "\<And>j. j \<le> r \<Longrightarrow> upd ! j = Some (pred_on sl xs j)"
    and h0: "h0 = (sl_heap sl)(sl_next sl \<mapsto> new_Node k v r)"
  shows "\<exists>h'. link_levels h0 (sl_next sl) upd [0..<r + 1] = Inr h' \<and> same_data h0 h' \<and>
    (\<forall>b j. nxt h' b j = (if r < j then nxt h0 b j else if b = sl_next sl then nxt h0 (pred_on sl xs j) j
       else if b = pred_on sl xs j then Some (sl_next sl) else nxt h0 b j))"
proof -
  let ?n = "sl_next sl"
  have pn: "pred_on sl xs j \<noteq> ?n" for j
    using pred_on_mem[OF sub, of sl j] chain_okD(11)[OF ok] by (metis less_irrefl)
  have old: "shaped h0 a = shaped (sl_heap sl) a" "lev h0 a = lev (sl_heap sl) a" if "a \<noteq> ?n" for a
    using that by (auto simp: h0 shaped_def lev_def)
  have new: "shaped h0 ?n" "lev h0 ?n = r" by (simp_all add: h0 shaped_def lev_def new_Node_def)
  have "\<forall>j \<in> set [0..<r + 1]. j \<le> lev h0 ?n \<and> j < length upd \<and> upd ! j = Some (pred_on sl xs j) \<and>
      shaped h0 (pred_on sl xs j) \<and> j \<le> lev h0 (pred_on sl xs j) \<and> pred_on sl xs j \<noteq> ?n"
    using pred_shaped[OF ok sub] old[OF pn] new pn upd len r by auto
  from link_levels_spec[OF _ new(1) this] show ?thesis
    by (auto simp: not_le[symmetric] simp del: upt.simps upt_Suc)
qed

lemma insert_element_new:
  assumes ok: "chain_ok sl as" and none: "sl_map sl k = None"
    and rl: "get_random_level (sl_max_level sl) rs = Inr (r, rs')"
  shows "\<exists>sl'. insert_element sl k v rs = Inr (0, sl', rs') \<and>
    chain_ok sl' (before (sl_heap sl) k as @ sl_next sl # after (sl_heap sl) k as) \<and>
    sl_map sl' = (sl_map sl)(k \<mapsto> v) \<and> sl_max_level sl' = sl_max_level sl"
proof -
  let ?h = "sl_heap sl" and ?n = "sl_next sl"
  let ?B = "before ?h k as" and ?A = "after ?h k as"
  note D = chain_okD[OF ok]
  have r: "r \<le> sl_max_level sl" by (rule get_random_level_bounds[OF rl])
  obtain upd where de: "descend (Suc (sl_next sl)) ?h k (sl_level sl) (sl_header sl)
      (replicate (sl_max_level sl + 1) None) = Inr (pred_on sl ?B 0, upd)"
    "length upd = Suc (sl_max_level sl)" "\<And>j. j \<le> sl_level sl \<Longrightarrow> upd ! j = Some (pred_on sl ?B j)"
    using descend_start[OF ok refl] by blast
  obtain upd' where u: "(if r > sl_level sl then fill_update upd (sl_header sl) [sl_level sl + 1..<r + 1] else Inr upd) = Inr upd'"
    "length upd' = Suc (sl_max_level sl)" "\<And>j. j \<le> r \<Longrightarrow> upd' ! j = Some (pred_on sl ?B j)"
    using fill_levels[OF ok before_sub r de(2,3)] by blast
  define h0 where "h0 = ?h(?n \<mapsto> new_Node k v r)"
  obtain h' where h': "link_levels h0 ?n upd' [0..<r + 1] = Inr h'" "same_data h0 h'"
    "\<And>b j. nxt h' b j = (if r < j then nxt h0 b j else if b = ?n then nxt h0 (pred_on sl ?B j) j
       else if b = pred_on sl ?B j then Some ?n else nxt h0 b j)"
    using link_new_node[OF ok before_sub r u(2,3) h0_def] by blast
  define sl' where "sl' = sl\<lparr>sl_level := max (sl_level sl) r, sl_heap := h', sl_next := ?n + 1, sl_count := sl_count sl + 1\<rparr>"
  have run: "insert_element sl k v rs = Inr (0, sl', rs')"
    unfolding insert_element_def de(1) bindr_Inr prod.case read_pred[OF ok] exists_test[OF ok]
    by (simp only: none u(1) rl h'(1) sl'_def Let_def h0_def[symmetric] bindr_Inr prod.case if_False
        not_True_eq_False simp_thms)
  have ok': "chain_ok sl' (?B @ ?n # ?A)"
    unfolding sl'_def
  proof (rule chain_ok_splice[of sl ?B ?A r ?n h0 k v h'])
    show "chain_ok sl (?B @ ?A)" using ok by (simp add: before_after)
  qed (use r h'(2,3) chain_parts(1,2)[OF ok] none in \<open>simp_all add: h0_def\<close>)
  have "?n \<notin> set as" using D(11) by (metis less_irrefl list.set_intros(2))
  then have "pairs h' as = pairs ?h as" "key h' ?n = k" "val h' ?n = v"
    using same_dataD[OF h'(2)] by (auto simp: pairs_def h0_def key_def val_def new_Node_def)
  moreover have "sl_heap sl' = h'" "sl_max_level sl' = sl_max_level sl" by (simp_all add: sl'_def)
  ultimately have "sl_map sl' = (sl_map sl)(k \<mapsto> v)"
    using map_of_spliced[of h' ?B ?n ?A k] chain_okD(5)[OF ok'] by (simp add: sl_map_chain[OF ok'] sl_map_chain[OF ok] before_after)
  then show ?thesis using run ok' \<open>sl_max_level sl' = sl_max_level sl\<close> by blast
qed

lemma insert_element_old:
  assumes ok: "chain_ok sl as" and some: "sl_map sl k \<noteq> None"
  shows "insert_element sl k v rs = Inr (1, sl, rs)"
proof -
  obtain upd where "descend (Suc (sl_next sl)) (sl_heap sl) k (sl_level sl) (sl_header sl)
      (replicate (sl_max_level sl + 1) None) = Inr (pred_on sl (before (sl_heap sl) k as) 0, upd)"
    using descend_start[OF ok refl] by blast
  then show ?thesis
    unfolding insert_element_def by (simp add: read_pred[OF ok] exists_test[OF ok] some del: replicate.simps)
qed

section \<open>Deleting\<close>

lemma unlink_levels_spec:
  assumes "distinct is" and "shaped h n" and "p ` set is \<subseteq> {a. a \<noteq> n}"
    and "\<forall>j \<in> set is. j < length upd \<and> upd ! j = Some (p j) \<and> shaped h (p j) \<and> j \<le> lev h (p j)"
    and "\<forall>j \<in> set is. nxt h (p j) j = Some n \<longleftrightarrow> j \<le> lev h n" and "sorted is"
  shows "\<exists>h'. unlink_levels h n upd is = Inr h' \<and> same_data h h' \<and>
    (\<forall>b j. nxt h' b j = (if j \<in> set is \<and> j \<le> lev h n \<and> b = p j then nxt h n j else nxt h b j))"
  using assms
proof (induction "is" arbitrary: h)
  case Nil
  then show ?case by simp
next
  case (Cons i "is")
  have i: "i < length upd" "upd ! i = Some (p i)" "shaped h (p i)" "i \<le> lev h (p i)" "p i \<noteq> n"
    using Cons.prems(3,4) by auto
  show ?case
  proof (cases "i \<le> lev h n")
    case False
    then have "nxt h (p i) i \<noteq> Some n" using Cons.prems(5) by simp
    moreover have "\<not> j \<le> lev h n" if "j \<in> set (i # is)" for j using False Cons.prems(6) that by auto
    ultimately show ?thesis using i by (intro exI[of _ h]) (auto simp: read_forward_shaped)
  next
    case True
    let ?h1 = "upd_fwd h (p i) i (nxt h n i)"
    have sd: "same_data h ?h1" using same_data_upd[OF i(3)] .
    note S = same_dataD[OF sd]
    have nx: "nxt ?h1 b j = (if b = p i \<and> j = i then nxt h n i else nxt h b j)" for b j
      using i by (simp add: nxt_upd_fwd)
    have ni: "j \<noteq> i" if "j \<in> set is" for j using Cons.prems(1) that by auto
    have "\<exists>h'. unlink_levels ?h1 n upd is = Inr h' \<and> same_data ?h1 h' \<and>
      (\<forall>b j. nxt h' b j = (if j \<in> set is \<and> j \<le> lev ?h1 n \<and> b = p j then nxt ?h1 n j else nxt ?h1 b j))"
    proof (rule Cons.IH)
      show "\<forall>j \<in> set is. nxt ?h1 (p j) j = Some n \<longleftrightarrow> j \<le> lev ?h1 n"
        using Cons.prems(5) ni S(1) nx by simp
    qed (use Cons.prems S in auto)
    then obtain h' where h': "unlink_levels ?h1 n upd is = Inr h'" "same_data ?h1 h'"
      "\<And>b j. nxt h' b j = (if j \<in> set is \<and> j \<le> lev h n \<and> b = p j then nxt ?h1 n j else nxt ?h1 b j)"
      using S(1) by auto
    have "nxt h (p i) i = Some n" using Cons.prems(5) True by simp
    then have "unlink_levels h n upd (i # is) = Inr h'"
      using i h'(1) True Cons.prems(2) by (simp add: read_forward_shaped write_forward_shaped)
    moreover have "nxt h' b j = (if j \<in> set (i # is) \<and> j \<le> lev h n \<and> b = p j then nxt h n j else nxt h b j)" for b j
      unfolding h'(3) nx using ni i(5) True by auto
    ultimately show ?thesis using same_data_trans[OF sd h'(2)] by blast
  qed
qed

lemma lower_level_spec:
  assumes "shaped h a" and "l \<le> lev h a"
  shows "\<exists>l'. lower_level h a l = Inr l' \<and> l' \<le> l \<and> (\<forall>j. l' < j \<and> j \<le> l \<longrightarrow> nxt h a j = None)"
  using assms
proof (induction l)
  case (Suc l)
  show ?case
  proof (cases "nxt h a (Suc l) = None")
    case True
    then show ?thesis using Suc by (auto simp: read_forward_shaped le_Suc_eq)
  next
    case False
    then show ?thesis using Suc.prems by (auto simp: read_forward_shaped)
  qed
qed simp

text \<open>The chain after a node has been taken out and freed.\<close>

lemma chain_ok_unsplice:
  assumes ok: "chain_ok sl (B @ n # A)"
    and sd: "same_data (sl_heap sl) h'"
    and nx: "\<And>b j. nxt h' b j = (if j \<le> sl_level sl \<and> j \<le> lev (sl_heap sl) n \<and> b = pred_on sl B j
       then nxt (sl_heap sl) n j else nxt (sl_heap sl) b j)"
    and l: "l \<le> sl_level sl" "\<And>j. l < j \<Longrightarrow> j \<le> sl_level sl \<Longrightarrow> nxt h' (sl_header sl) j = None"
  shows "chain_ok (sl\<lparr>sl_heap := h'(n := None), sl_level := l, sl_count := sl_count sl - 1\<rparr>) (B @ A)"
proof -
  let ?h = "sl_heap sl" and ?hd = "sl_header sl" and ?g = "h'(n := None)"
  note D = chain_okD[OF ok] and S = same_dataD[OF sd]
  have keep: "lev ?g a = lev ?h a" "key ?g a = key ?h a" "nxt ?g a j = nxt h' a j" "shaped ?g a = shaped ?h a"
    if "a \<noteq> n" for a j
    using that S by (auto simp: lev_def key_def nxt_def shaped_def fun_eq_iff)
  have ne: "a \<noteq> n" if "a \<in> set (?hd # B @ A)" for a using D(4) that by auto
  have lvl: "on_level ?g j B = on_level ?h j B" "on_level ?g j A = on_level ?h j A" for j
    unfolding on_level_def by (rule filter_cong[OF refl], use ne keep(1) in auto)+
  have lnk: "linked ?g j ?hd (on_level ?g j (B @ A))" if j: "j \<le> sl_max_level sl" for j
  proof -
    let ?X = "on_level ?h j B" and ?Y = "on_level ?h j A"
    have "linked ?h j ?hd (on_level ?h j (B @ n # A))" by (rule D(10)[OF j])
    moreover have lv: "lev ?h n \<le> sl_level sl" using D(9) by simp
    ultimately have "linked h' j ?hd (?X @ ?Y)"
    proof (cases "j \<le> lev ?h n")
      case True
      then have lk: "linked ?h j ?hd (?X @ n # ?Y)" using D(10)[OF j] by simp
      then have "nxt ?h n j = head_of ?Y" using linked_from_last[OF lk] linked_head by fastforce
      moreover have "distinct (?hd # ?X @ n # ?Y)" using D(4) distinct_on_level[of "B @ n # A" ?h j] True by auto
      ultimately show ?thesis
        using lk nx True lv by (intro linked_remove[of ?h j ?hd ?X n ?Y]) (auto simp: pred_on_def)
    next
      case False
      then show ?thesis using D(10)[OF j] linked_cong[of ?hd "?X @ ?Y" h' j ?h] nx by simp
    qed
    moreover have "linked ?g j ?hd (?X @ ?Y) = linked h' j ?hd (?X @ ?Y)"
      by (rule linked_cong, rule keep(3), rule ne) auto
    ultimately show ?thesis by (simp add: lvl)
  qed
  have top: "lev ?g a \<le> l" if a: "a \<in> set (B @ A)" for a
  proof (rule ccontr)
    let ?j = "lev ?h a"
    have ga: "lev ?g a = ?j" using keep(1) ne a by simp
    assume "\<not> lev ?g a \<le> l"
    then have "l < ?j" "?j \<le> sl_level sl" using ga D(9)[of a] a by auto
    then have "nxt ?g ?hd ?j = None" using l(2)[of ?j] keep(3)[of ?hd] ne by simp
    moreover have "a \<in> set (on_level ?g ?j (B @ A))" using a ga by auto
    moreover have "linked ?g ?j ?hd (on_level ?g ?j (B @ A))"
      by (rule lnk) (use \<open>?j \<le> sl_level sl\<close> D(3) in simp)
    ultimately have "on_level ?g ?j (B @ A) = []" by (blast intro: linked_none)
    with \<open>a \<in> set (on_level ?g ?j (B @ A))\<close> show False by (metis empty_iff empty_set)
  qed
  have "sorted_wrt (\<lambda>a b. key ?h a < key ?h b) (B @ A)" using D(5) by (auto simp: sorted_wrt_append)
  then have srt: "sorted_wrt (\<lambda>a b. key ?g a < key ?g b) (B @ A)"
    by (rule sorted_wrt_mono_rel[rotated]) (use ne keep(2) in simp)
  have dm: "dom ?g = set (?hd # B @ A)" using D(4,6) S(5) by auto
  have sh: "shaped ?g a" if "a \<in> set (?hd # B @ A)" for a
    using keep(4)[OF ne[OF that]] D(1) D(8)[of a] that by auto
  have "lev ?g ?hd = sl_max_level sl" using keep(1)[of ?hd] ne D(2) by simp
  then show ?thesis
    unfolding chain_ok_def Let_def
    using lnk srt top dm sh D(3,4,7,11) l(1) by simp
qed

lemma map_of_unspliced:
  fixes h :: "('k :: linorder, 'v) heap"
  assumes "sorted_wrt (\<lambda>a b. key h a < key h b) (B @ n # A)" and "key h n = k"
  shows "map_of (pairs h (B @ A)) = (map_of (pairs h (B @ n # A)))(k := None)"
proof -
  have "\<forall>b \<in> set B. key h b < k" "\<forall>b \<in> set A. k < key h b" using assms by (auto simp: sorted_wrt_append)
  then have "k \<notin> fst ` set (pairs h (B @ A))" by (force simp: pairs_def)
  then have "map_of (pairs h (B @ A)) k = None" by (simp add: map_of_eq_None_iff)
  then show ?thesis using map_of_spliced[OF assms] by (auto simp: fun_eq_iff)
qed

lemma unlink_found:
  assumes ok: "chain_ok sl (B @ q # qs)" and len: "length upd = Suc (sl_max_level sl)"
    and upd: "\<And>j. j \<le> sl_level sl \<Longrightarrow> upd ! j = Some (pred_on sl B j)"
  shows "\<exists>h'. unlink_levels (sl_heap sl) q upd [0..<sl_level sl + 1] = Inr h' \<and> same_data (sl_heap sl) h' \<and>
    (\<forall>b j. nxt h' b j = (if j \<le> sl_level sl \<and> j \<le> lev (sl_heap sl) q \<and> b = pred_on sl B j
       then nxt (sl_heap sl) q j else nxt (sl_heap sl) b j))"
proof -
  let ?h = "sl_heap sl" and ?is = "[0..<sl_level sl + 1]"
  note D = chain_okD[OF ok]
  have sub: "set B \<subseteq> set (B @ q # qs)" by auto
  have pB: "pred_on sl B j \<in> set (sl_header sl # B)" for j by (rule pred_on_mem) simp
  have ne: "pred_on sl B j \<noteq> q" for j using pB[of j] D(4) by auto
  have hit: "nxt ?h (pred_on sl B j) j = Some q \<longleftrightarrow> j \<le> lev ?h q" if "j \<le> sl_level sl" for j
  proof -
    have "nxt ?h (pred_on sl B j) j = head_of (on_level ?h j (q # qs))"
      by (rule nxt_pred[OF ok _ refl]) (use that D(3) in simp)
    moreover have "q \<notin> set (on_level ?h j qs)" using D(4) by auto
    ultimately show ?thesis by (cases "on_level ?h j qs") auto
  qed
  have "\<exists>h'. unlink_levels ?h q upd ?is = Inr h' \<and> same_data ?h h' \<and>
      (\<forall>b j. nxt h' b j = (if j \<in> set ?is \<and> j \<le> lev ?h q \<and> b = pred_on sl B j then nxt ?h q j else nxt ?h b j))"
  proof (rule unlink_levels_spec)
    show "\<forall>j \<in> set ?is. j < length upd \<and> upd ! j = Some (pred_on sl B j) \<and> shaped ?h (pred_on sl B j) \<and> j \<le> lev ?h (pred_on sl B j)"
      using pred_shaped[OF ok sub] upd len D(3) by auto
    show "\<forall>j \<in> set ?is. nxt ?h (pred_on sl B j) j = Some q \<longleftrightarrow> j \<le> lev ?h q" using hit by auto
    show "pred_on sl B ` set ?is \<subseteq> {a. a \<noteq> q}" using ne by blast
  qed (use D(8) in \<open>simp_all del: upt_Suc\<close>)
  moreover have "j \<in> set ?is \<longleftrightarrow> j \<le> sl_level sl" for j by auto
  ultimately show ?thesis by (simp only:)
qed

lemma delete_element_found:
  assumes ok: "chain_ok sl as" and some: "sl_map sl k = Some v"
  shows "\<exists>sl' as'. delete_element sl k = Inr sl' \<and> chain_ok sl' as' \<and>
    sl_map sl' = (sl_map sl)(k := None) \<and> sl_max_level sl' = sl_max_level sl"
proof -
  let ?h = "sl_heap sl"
  let ?B = "before ?h k as"
  obtain q qs where q: "after ?h k as = q # qs" "key ?h q = k"
    using chain_parts(3)[OF ok some] by auto
  have as: "as = ?B @ q # qs" using before_after[of ?h k as] q by simp
  have ok2: "chain_ok sl (?B @ q # qs)" using ok as by simp
  note D = chain_okD[OF ok2]
  obtain upd where de: "descend (Suc (sl_next sl)) ?h k (sl_level sl) (sl_header sl)
      (replicate (sl_max_level sl + 1) None) = Inr (pred_on sl ?B 0, upd)"
    "length upd = Suc (sl_max_level sl)" "\<And>j. j \<le> sl_level sl \<Longrightarrow> upd ! j = Some (pred_on sl ?B j)"
    using descend_start[OF ok refl] by blast
  obtain h' where h': "unlink_levels ?h q upd [0..<sl_level sl + 1] = Inr h'" "same_data ?h h'"
    "\<And>b j. nxt h' b j = (if j \<le> sl_level sl \<and> j \<le> lev ?h q \<and> b = pred_on sl ?B j then nxt ?h q j else nxt ?h b j)"
    using unlink_found[OF ok2 de(2,3)] by blast
  note S = same_dataD[OF h'(2)]
  obtain l where l: "lower_level h' (sl_header sl) (sl_level sl) = Inr l" "l \<le> sl_level sl"
    "\<forall>j. l < j \<and> j \<le> sl_level sl \<longrightarrow> nxt h' (sl_header sl) j = None"
    using lower_level_spec[of h' "sl_header sl" "sl_level sl"] D(1,2,3) S(1,4) by auto
  define sl' where "sl' = sl\<lparr>sl_heap := h'(q := None), sl_level := l, sl_count := sl_count sl - 1\<rparr>"
  have "shaped ?h q" using D(8) by simp
  then have rq: "read_node ?h q = Inr (the (?h q))" "get_key (the (?h q)) = k"
    using q(2) by (simp_all add: read_node_shaped key_def)
  have run: "delete_element sl k = Inr sl'"
    unfolding delete_element_def de(1) bindr_Inr prod.case read_pred[OF ok] q(1) head_of_simps option.case rq(1)
    by (simp only: rq(2) h'(1) l(1) bindr_Inr if_False not_True_eq_False simp_thms sl'_def)
  have ok': "chain_ok sl' (?B @ qs)"
    unfolding sl'_def by (rule chain_ok_unsplice[OF ok2 h'(2,3) l(2)]) (use l(3) in auto)
  have "q \<notin> set (?B @ qs)" using D(4) by auto
  then have "pairs (sl_heap sl') (?B @ qs) = pairs ?h (?B @ qs)"
    using S(2,3) by (auto simp: pairs_def sl'_def key_def val_def fun_eq_iff)
  then have "sl_map sl' = (sl_map sl)(k := None)"
    using map_of_unspliced[OF D(5) q(2)] by (simp add: sl_map_chain[OF ok'] sl_map_chain[OF ok2])
  then show ?thesis using run ok' by (auto simp: sl'_def)
qed

lemma delete_element_missing:
  assumes ok: "chain_ok sl as" and none: "sl_map sl k = None"
  shows "delete_element sl k = Inr sl"
proof -
  let ?h = "sl_heap sl"
  obtain upd where de: "descend (Suc (sl_next sl)) ?h k (sl_level sl) (sl_header sl)
      (replicate (sl_max_level sl + 1) None) = Inr (pred_on sl (before ?h k as) 0, upd)"
    using descend_start[OF ok refl] by blast
  show ?thesis
  proof (cases "after ?h k as")
    case Nil
    then show ?thesis unfolding delete_element_def de bindr_Inr prod.case read_pred[OF ok] by simp
  next
    case (Cons q qs)
    then have "shaped ?h q" "key ?h q \<noteq> k"
      using after_mem[OF Cons] chain_okD(8)[OF ok] chain_parts(2)[OF ok none] by auto
    then show ?thesis unfolding delete_element_def de bindr_Inr prod.case read_pred[OF ok] Cons
      by (simp add: read_node_shaped key_def)
  qed
qed

section \<open>The contract of the store\<close>

text \<open>How many even numbers \<open>rand()\<close> still returns: each insertion of a new key uses up one.\<close>

definition evens :: "int list \<Rightarrow> nat" where
  "evens rs = length (filter (\<lambda>r. r mod 2 = 0) rs)"

lemma get_random_level_loop_ok:
  "0 < evens rs \<Longrightarrow> \<exists>l rs'. get_random_level_loop k rs = Inr (l, rs') \<and> k \<le> l \<and> evens rs = Suc (evens rs')"
proof (induction rs arbitrary: k)
  case (Cons r rs)
  show ?case
  proof (cases "r mod 2 = 0")
    case False
    then have "0 < evens rs" using Cons.prems by (simp add: evens_def)
    from Cons.IH[OF this, of "k + 1"] show ?thesis using False by (auto simp: evens_def)
  qed (simp add: evens_def)
qed (simp add: evens_def)

lemma get_random_level_ok:
  assumes "0 < evens rs"
  shows "\<exists>l rs'. get_random_level m rs = Inr (l, rs') \<and> min 1 m \<le> l \<and> l \<le> m \<and> evens rs = Suc (evens rs')"
  using get_random_level_loop_ok[OF assms, of 1] by (auto simp: get_random_level_def)

text \<open>A key-value store with deletion, as its clients use it.\<close>

locale kv_store =
  fixes inv :: "'s \<Rightarrow> bool"
    and cont :: "'s \<Rightarrow> 'k \<Rightarrow> 'v option"
    and lookup :: "'s \<Rightarrow> 'k \<Rightarrow> 'v option res"
    and put :: "'s \<Rightarrow> 'k \<Rightarrow> 'v \<Rightarrow> int list \<Rightarrow> ('s \<times> int list) res"
    and remove :: "'s \<Rightarrow> 'k \<Rightarrow> 's res"
  assumes lookup_law: "inv s \<Longrightarrow> lookup s k = Inr (cont s k)"
    and put_law: "inv s \<Longrightarrow> 0 < evens rs \<Longrightarrow>
      \<exists>s' rs'. put s k v rs = Inr (s', rs') \<and> inv s' \<and> cont s' = (cont s)(k \<mapsto> v) \<and> evens rs = Suc (evens rs')"
    and remove_law: "inv s \<Longrightarrow> \<exists>s'. remove s k = Inr s' \<and> inv s' \<and> cont s' = (cont s)(k := None)"
begin

text \<open>What a lookup returns after an update or a removal.\<close>

lemma lookup_after_put:
  assumes "inv s" and "put s k v rs = Inr (s', rs')" and "0 < evens rs"
  shows "lookup s' k' = Inr (if k' = k then Some v else cont s k')"
proof -
  from put_law[OF assms(1,3), of k v] assms(2) have "inv s'" "cont s' = (cont s)(k \<mapsto> v)" by auto
  then show ?thesis using lookup_law by simp
qed

text \<open>A sequence of updates.\<close>

fun put_all :: "'s \<Rightarrow> ('k \<times> 'v) list \<Rightarrow> int list \<Rightarrow> ('s \<times> int list) res" where
  "put_all s [] rs = Inr (s, rs)"
| "put_all s ((k, v) # kvs) rs = bindr (put s k v rs) (\<lambda>(s', rs'). put_all s' kvs rs')"

lemma put_all_law:
  "inv s \<Longrightarrow> length kvs \<le> evens rs \<Longrightarrow>
   \<exists>s' rs'. put_all s kvs rs = Inr (s', rs') \<and> inv s' \<and> cont s' = cont s ++ map_of (rev kvs) \<and>
     evens rs = evens rs' + length kvs"
proof (induction kvs arbitrary: s rs)
  case (Cons kv kvs)
  obtain k v where kv: "kv = (k, v)" by (cases kv)
  obtain s1 rs1 where 1: "put s k v rs = Inr (s1, rs1)" "inv s1" "cont s1 = (cont s)(k \<mapsto> v)" "evens rs = Suc (evens rs1)"
    using put_law[OF Cons.prems(1), of rs k v] Cons.prems(2) by (cases "evens rs") auto
  then obtain s' rs' where "put_all s1 kvs rs1 = Inr (s', rs')" "inv s'" "cont s' = cont s1 ++ map_of (rev kvs)"
    "evens rs1 = evens rs' + length kvs"
    using Cons.IH[OF 1(2), of rs1] Cons.prems(2) by fastforce
  then show ?case using 1 kv by (auto simp: map_add_def fun_eq_iff split: option.split)
qed simp

end

lemma insert_set_ok:
  assumes wf: "skip_wf sl" and ev: "0 < evens rs"
  shows "\<exists>sl' rs'. insert_set_element sl k v rs = Inr (sl', rs') \<and> skip_wf sl' \<and>
    sl_map sl' = (sl_map sl)(k \<mapsto> v) \<and> evens rs = Suc (evens rs')"
proof -
  obtain as where ok: "chain_ok sl as" using wf by (auto simp: skip_wf_def)
  obtain sl1 as1 where 1: "(if sl_map sl k \<noteq> None then delete_element sl k else Inr sl) = Inr sl1" "chain_ok sl1 as1"
    "sl_map sl1 = (sl_map sl)(k := None)"
  proof (cases "sl_map sl k")
    case None
    then show ?thesis using that[of sl as] ok by (simp add: fun_upd_idem)
  next
    case (Some w)
    then show ?thesis using that delete_element_found[OF ok Some] by auto
  qed
  obtain l rs' where rl: "get_random_level (sl_max_level sl1) rs = Inr (l, rs')" "evens rs = Suc (evens rs')"
    using get_random_level_ok[OF ev] by blast
  have "sl_map sl1 k = None" using 1(3) by simp
  from insert_element_new[OF 1(2) this rl(1), of v] obtain sl2 as2 where
    2: "insert_element sl1 k v rs = Inr (0, sl2, rs')" "chain_ok sl2 as2" "sl_map sl2 = (sl_map sl1)(k \<mapsto> v)"
    by blast
  have "insert_set_element sl k v rs = Inr (sl2, rs')"
    unfolding insert_set_element_def search_element_spec[OF ok] bindr_Inr 1(1) 2(1) by simp
  then show ?thesis using 2 1(3) rl(2) by (auto simp: skip_wf_def)
qed

lemma delete_ok:
  assumes "skip_wf sl"
  shows "\<exists>sl'. delete_element sl k = Inr sl' \<and> skip_wf sl' \<and> sl_map sl' = (sl_map sl)(k := None)"
proof -
  obtain as where ok: "chain_ok sl as" using assms by (auto simp: skip_wf_def)
  show ?thesis
  proof (cases "sl_map sl k")
    case None
    then show ?thesis using delete_element_missing[OF ok None] assms by (auto simp: fun_upd_idem)
  next
    case (Some v)
    then show ?thesis using delete_element_found[OF ok Some] by (auto simp: skip_wf_def)
  qed
qed

interpretation sk: kv_store
  "skip_wf :: ('k :: linorder, 'v) SkipList \<Rightarrow> bool" sl_map search_element insert_set_element delete_element
proof unfold_locales
  show "skip_wf sl \<Longrightarrow> search_element sl k = Inr (sl_map sl k)" for sl :: "('k, 'v) SkipList" and k
    using search_element_spec by (auto simp: skip_wf_def)
qed (auto intro: insert_set_ok delete_ok)

section \<open>Construction, printing, dumping and destruction\<close>

lemma new_chain_ok: "chain_ok (new_SkipList k v m) []"
  by (auto simp: chain_ok_def new_SkipList_def new_Node_def shaped_def lev_def nxt_def nth_Cons split: nat.split)

lemma new_skip_wf [simp]: "skip_wf (new_SkipList k v m)"
  using new_chain_ok[of k v m] by (auto simp: skip_wf_def)

lemma new_sl_map [simp]: "sl_map (new_SkipList (k :: 'k :: linorder) v m) = Map.empty"
  using sl_map_chain[OF new_chain_ok, of k v m] by (simp add: pairs_def)

lemma new_sl_simps [simp]: "sl_max_level (new_SkipList k v m) = m"
  by (simp add: new_SkipList_def)

lemma display_levels_spec:
  assumes ok: "chain_ok sl as" and "\<forall>i \<in> set is. i \<le> sl_max_level sl"
  shows "display_levels sl is = Inr (map (\<lambda>i. pairs (sl_heap sl) (on_level (sl_heap sl) i as)) is)"
  using assms(2)
proof (induction "is")
  case (Cons i "is")
  then obtain p where p: "read_forward (sl_heap sl) (sl_header sl) i = Inr p"
    "walk_level (sl_next sl) (sl_heap sl) i p = Inr (pairs (sl_heap sl) (on_level (sl_heap sl) i as))"
    using walk_chain[OF ok, of i] by (auto simp: bindr_eq_Inr)
  then show ?case using Cons by simp
qed simp

lemma display_list_spec:
  assumes "chain_ok sl as"
  shows "display_list sl = Inr (map (\<lambda>i. pairs (sl_heap sl) (on_level (sl_heap sl) i as)) [0..<sl_level sl + 1])"
  unfolding display_list_def
  by (rule display_levels_spec[OF assms]) (use chain_okD(3)[OF assms] in auto)

lemma dump_file_spec:
  assumes "chain_ok sl as"
  shows "dump_file L sl = Inr (lib_dump_out L
    \<lparr>keyDumpVt = map fst (pairs (sl_heap sl) as), valDumpVt = map snd (pairs (sl_heap sl) as)\<rparr>)"
proof -
  obtain p where "read_forward (sl_heap sl) (sl_header sl) 0 = Inr p"
    "walk_level (sl_next sl) (sl_heap sl) 0 p = Inr (pairs (sl_heap sl) as)"
    using walk_chain[OF assms, of 0] by (auto simp: bindr_eq_Inr)
  then show ?thesis by (simp add: dump_file_def)
qed

lemma insert_ok:
  assumes wf: "skip_wf sl" and ev: "0 < evens rs"
  shows "\<exists>ret sl' rs'. insert_element sl k v rs = Inr (ret, sl', rs') \<and> skip_wf sl' \<and> evens rs \<le> Suc (evens rs') \<and>
    sl_max_level sl' = sl_max_level sl \<and>
    (case sl_map sl k of None \<Rightarrow> ret = 0 \<and> sl_map sl' = (sl_map sl)(k \<mapsto> v) \<and> sl_size sl' = sl_size sl + 1
     | Some _ \<Rightarrow> ret = 1 \<and> sl' = sl \<and> rs' = rs)"
proof -
  obtain as where ok: "chain_ok sl as" using wf by (auto simp: skip_wf_def)
  show ?thesis
  proof (cases "sl_map sl k")
    case (Some w)
    then have "sl_map sl k \<noteq> None" by simp
    from insert_element_old[OF ok this] show ?thesis using wf Some by auto
  next
    case None
    obtain l rs' where rl: "get_random_level (sl_max_level sl) rs = Inr (l, rs')" "evens rs = Suc (evens rs')"
      using get_random_level_ok[OF ev] by blast
    obtain sl' where sl': "insert_element sl k v rs = Inr (0, sl', rs')"
      "chain_ok sl' (before (sl_heap sl) k as @ sl_next sl # after (sl_heap sl) k as)"
      "sl_map sl' = (sl_map sl)(k \<mapsto> v)" "sl_max_level sl' = sl_max_level sl"
      using insert_element_new[OF ok None rl(1)] by blast
    have "length (before (sl_heap sl) k as @ after (sl_heap sl) k as) = length as" by (simp only: before_after)
    then have "sl_size sl' = sl_size sl + 1"
      using chain_okD(7)[OF ok] chain_okD(7)[OF sl'(2)] by (simp add: sl_size_def)
    then show ?thesis using sl' rl(2) None by (auto simp: skip_wf_def)
  qed
qed

text \<open>What \<open>load_file\<close> adds: each new key, with itself as the value.\<close>

lemma load_keys_spec:
  "skip_wf sl \<Longrightarrow> length ks \<le> evens rs \<Longrightarrow>
   \<exists>sl' rs'. load_keys sl ks rs = Inr (sl', rs') \<and> skip_wf sl' \<and>
     sl_map sl' = (\<lambda>k. if k \<in> set ks then Some k else None) ++ sl_map sl"
proof (induction ks arbitrary: sl rs)
  case Nil
  then show ?case by (auto simp: map_add_def fun_eq_iff split: option.split)
next
  case (Cons k ks)
  then have "0 < evens rs" by auto
  from insert_ok[OF Cons.prems(1) this, of k k] obtain ret sl1 rs1 where
    1: "insert_element sl k k rs = Inr (ret, sl1, rs1)" "skip_wf sl1" "evens rs \<le> Suc (evens rs1)"
      "sl_map sl1 = [k \<mapsto> k] ++ sl_map sl"
    by (auto simp: map_add_def fun_eq_iff split: option.splits)
  obtain sl' rs' where "load_keys sl1 ks rs1 = Inr (sl', rs')" "skip_wf sl'"
    "sl_map sl' = (\<lambda>k. if k \<in> set ks then Some k else None) ++ sl_map sl1"
    using Cons.IH[OF 1(2), of rs1] 1(3) Cons.prems(2) by force
  then show ?case using 1 by (auto simp: map_add_def fun_eq_iff split: option.split)
qed

lemma clear_from_spec:
  assumes "linked h 0 a xs" and "distinct (a # xs)" and "\<forall>b \<in> set (a # xs). shaped h b" and "length xs < fuel"
  shows "clear_from fuel h a = Inr (h |` (- set (a # xs)))"
  using assms
proof (induction xs arbitrary: a fuel)
  case Nil
  then obtain f where "fuel = Suc f" by (cases fuel) auto
  then show ?case using Nil by (auto simp: read_forward_shaped read_node_shaped restrict_map_def fun_eq_iff)
next
  case (Cons x xs)
  then obtain f where f: "fuel = Suc f" by (cases fuel) auto
  have IH: "clear_from f h x = Inr (h |` (- set (x # xs)))" by (rule Cons.IH) (use Cons.prems f in auto)
  have "(h |` (- set (x # xs))) a = h a" using Cons.prems(2) by (auto simp: restrict_map_def)
  then have "read_node (h |` (- set (x # xs))) a = read_node h a" by (simp add: read_node_def)
  then show ?case using Cons.prems IH
    by (auto simp: f read_forward_shaped read_node_shaped restrict_map_def fun_eq_iff)
qed

lemma pairs_sorted:
  assumes "sorted_wrt (\<lambda>a b. key h a < key h b) xs"
  shows "sorted_wrt (<) (map fst (pairs h xs))"
  using assms by (simp add: pairs_def sorted_wrt_map comp_def)

lemma pairs_subseq: "subseq (pairs h (on_level h (Suc i) as)) (pairs h (on_level h i as))"
proof -
  have "subseq (on_level h (Suc i) (on_level h i as)) (on_level h i as)"
    unfolding on_level_def by (rule subseq_filter_left)
  then show ?thesis using on_level_sub[of i "Suc i" h as] by (auto simp: pairs_def intro: subseq_map)
qed

text \<open>A small list for the examples.\<close>

definition demo_sl :: "(string, string) SkipList" where
  "demo_sl = (case insert_set_element (new_SkipList [] [] 6) ''k'' ''v'' [1, 0] of
     Inl _ \<Rightarrow> new_SkipList [] [] 6 | Inr (sl, _) \<Rightarrow> sl)"

lemma demo_sl_wf: "skip_wf demo_sl" "sl_map demo_sl = [''k'' \<mapsto> ''v'']"
proof -
  have "0 < evens [1, 0]" by (simp add: evens_def)
  from insert_set_ok[OF new_skip_wf this, of "[]" "[]" 6 "''k''" "''v''"]
  show "skip_wf demo_sl" "sl_map demo_sl = [''k'' \<mapsto> ''v'']" by (auto simp: demo_sl_def)
qed

section \<open>Properties\<close>

text \<open>
  On a well-formed list \<open>search_element\<close> ends, follows no dangling pointer and returns
  exactly the value of the abstract map.
\<close>

theorem search_element_refines:
  assumes "skip_wf sl"
  shows "search_element sl k = Inr (sl_map sl k)"
  using assms by (rule sk.lookup_law)

theorem search_element_refines_witness:
  "search_element demo_sl ''k'' = Inr (Some ''v'') \<and> search_element demo_sl ''j'' = Inr None"
  using search_element_refines[OF demo_sl_wf(1), of "''k''"] search_element_refines[OF demo_sl_wf(1), of "''j''"]
  by (simp add: demo_sl_wf(2))

text \<open>
  \<open>insert_element\<close> on a well-formed list ends without a fault as soon as \<open>rand()\<close> still
  returns an even number. A new key is added to the map, the size grows by one and the result
  is 0; a key that is present leaves the list as it is, with result 1.
\<close>

theorem insert_element_refines:
  assumes "skip_wf sl" and "0 < evens rs"
  shows "\<exists>ret sl' rs'. insert_element sl k v rs = Inr (ret, sl', rs') \<and> skip_wf sl' \<and>
    (case sl_map sl k of None \<Rightarrow> ret = 0 \<and> sl_map sl' = (sl_map sl)(k \<mapsto> v) \<and> sl_size sl' = sl_size sl + 1
     | Some _ \<Rightarrow> ret = 1 \<and> sl' = sl \<and> rs' = rs)"
  using insert_ok[OF assms, of k v] by blast

theorem insert_element_refines_witness:
  "\<exists>sl' rs'. insert_element demo_sl ''j'' ''w'' [1, 2] = Inr (0, sl', rs') \<and>
     sl_map sl' = [''k'' \<mapsto> ''v'', ''j'' \<mapsto> ''w'']"
  using insert_element_refines[OF demo_sl_wf(1), of "[1, 2]" "''j''" "''w''"]
  by (auto simp: demo_sl_wf(2) evens_def)

text \<open>
  C24: \<open>insert_set_element\<close> is the update of the map: whatever was stored before, a later search
  finds the new value under the key and the old contents under every other one, and the list
  stays well formed.
\<close>

theorem insert_set_element_refines:
  assumes "skip_wf sl" and "0 < evens rs"
  shows "\<exists>sl' rs'. insert_set_element sl k v rs = Inr (sl', rs') \<and> skip_wf sl' \<and>
    (\<forall>k'. search_element sl' k' = Inr (if k' = k then Some v else sl_map sl k'))"
proof -
  obtain sl' rs' where run: "insert_set_element sl k v rs = Inr (sl', rs')" "skip_wf sl'"
    using sk.put_law[OF assms, of k v] by blast
  then show ?thesis using sk.lookup_after_put[OF assms(1) run(1) assms(2)] by blast
qed

theorem insert_set_element_refines_witness:
  "\<exists>sl' rs'. insert_set_element demo_sl ''k'' ''w'' [0] = Inr (sl', rs') \<and>
     search_element sl' ''k'' = Inr (Some ''w'')"
proof -
  have "0 < evens [0]" by (simp add: evens_def)
  from insert_set_element_refines[OF demo_sl_wf(1) this, of "''k''" "''w''"] show ?thesis by auto
qed

text \<open>
  C25: \<open>delete_element\<close> takes the key out of the map and keeps the list well formed; the node is
  freed, and exactly when the key was there the size shrinks by one.
\<close>

theorem delete_element_refines:
  assumes "skip_wf sl"
  shows "\<exists>sl'. delete_element sl k = Inr sl' \<and> skip_wf sl' \<and> sl_map sl' = (sl_map sl)(k := None) \<and>
    sl_size sl' = sl_size sl - (if sl_map sl k = None then 0 else 1) \<and>
    int (card (dom (sl_heap sl'))) = sl_size sl' + 1"
proof -
  have size: "sl_size s = int (card (dom (sl_map s)))" "int (card (dom (sl_heap s))) = sl_size s + 1"
    if wf: "skip_wf s" for s :: "('a, 'b) SkipList"
  proof -
    obtain as where ok: "chain_ok s as" using wf by (auto simp: skip_wf_def)
    note D = chain_okD[OF ok]
    have "distinct (map fst (pairs (sl_heap s) as))"
      using strict_sorted_iff pairs_sorted[OF D(5)] by blast
    then have "card (dom (sl_map s)) = length as"
      by (simp add: sl_map_chain[OF ok] dom_map_of_conv_image_fst distinct_card pairs_def
          flip: set_map)
    then show "sl_size s = int (card (dom (sl_map s)))" using D(7) by (simp add: sl_size_def)
    show "int (card (dom (sl_heap s))) = sl_size s + 1"
      using D(4,6,7) distinct_card[OF D(4)] by (simp add: sl_size_def)
  qed
  obtain sl' where sl': "delete_element sl k = Inr sl'" "skip_wf sl'" "sl_map sl' = (sl_map sl)(k := None)"
    using sk.remove_law[OF assms] by blast
  obtain as where "chain_ok sl as" using assms by (auto simp: skip_wf_def)
  then have "finite (dom (sl_map sl))" by (simp add: sl_map_chain finite_dom_map_of)
  then have "sl_size sl' = sl_size sl - (if sl_map sl k = None then 0 else 1)"
    using size(1)[OF sl'(2)] size(1)[OF assms] sl'(3) card_gt_0_iff[of "dom (sl_map sl)"]
    by (auto simp: card_Diff_singleton_if int_ops)
  then show ?thesis using sl' size(2)[OF sl'(2)] by blast
qed

theorem delete_element_refines_witness:
  "\<exists>sl'. delete_element demo_sl ''k'' = Inr sl' \<and> sl_map sl' = Map.empty"
  using delete_element_refines[OF demo_sl_wf(1), of "''k''"] by (auto simp: demo_sl_wf(2))

text \<open>
  What \<open>display_list\<close> prints of a well-formed list: level 0 holds every pair of the map,
  the keys of each level increase, and each level is a subsequence of the one below it.
\<close>

theorem display_list_levels:
  assumes "skip_wf sl"
  shows "\<exists>ls. display_list sl = Inr ls \<and> length ls = sl_level sl + 1 \<and> map_of (ls ! 0) = sl_map sl \<and>
    (\<forall>l \<in> set ls. sorted_wrt (<) (map fst l)) \<and> (\<forall>i. i + 1 < length ls \<longrightarrow> subseq (ls ! (i + 1)) (ls ! i))"
proof -
  obtain as where ok: "chain_ok sl as" using assms by (auto simp: skip_wf_def)
  let ?l = "\<lambda>i. pairs (sl_heap sl) (on_level (sl_heap sl) i as)"
  have "sorted_wrt (<) (map fst (?l i))" for i
    using chain_okD(5)[OF ok] by (intro pairs_sorted) (simp add: on_level_def sorted_wrt_filter)
  moreover have "map ?l [0..<sl_level sl + 1] ! i = ?l i" if "i \<le> sl_level sl" for i
    using that by (subst nth_map) (auto simp del: upt_Suc)
  ultimately show ?thesis
    using display_list_spec[OF ok] pairs_subseq[of "sl_heap sl" _ as] sl_map_chain[OF ok]
    by (intro exI[of _ "map ?l [0..<sl_level sl + 1]"]) (auto simp del: upt_Suc)
qed

theorem display_list_levels_witness:
  "\<exists>ls. display_list demo_sl = Inr ls \<and> map_of (ls ! 0) = [''k'' \<mapsto> ''v'']"
  using display_list_levels[OF demo_sl_wf(1)] by (auto simp: demo_sl_wf(2))

text \<open>
  The destructor frees every node of a well-formed list exactly once: no fault, and nothing
  is left allocated.
\<close>

theorem delete_SkipList_frees_all:
  assumes "skip_wf sl"
  shows "delete_SkipList sl = Inr Map.empty"
proof -
  obtain as where ok: "chain_ok sl as" using assms by (auto simp: skip_wf_def)
  let ?h = "sl_heap sl" and ?hd = "sl_header sl"
  note D = chain_okD[OF ok]
  have lk: "linked ?h 0 ?hd as" using D(10)[of 0] by simp
  have first: "read_forward ?h ?hd 0 = Inr (head_of as)" using D(1) linked_head[OF lk] by (simp add: read_forward_shaped)
  have "(case head_of as of None \<Rightarrow> Inr ?h | Some q \<Rightarrow> clear_from (sl_next sl) ?h q) = Inr (?h |` (- set as))"
  proof (cases as)
    case Nil
    then show ?thesis by (simp add: restrict_map_def)
  next
    case (Cons q qs)
    have "clear_from (sl_next sl) ?h q = Inr (?h |` (- set (q # qs)))"
      by (rule clear_from_spec) (use lk D(4,8) chain_length[OF ok] Cons in auto)
    then show ?thesis using Cons by simp
  qed
  moreover have "(?h |` (- set as)) ?hd = ?h ?hd" using D(4) by (auto simp: restrict_map_def)
  moreover have "(?h |` (- set as))(?hd := None) = Map.empty"
    using D(6) by (auto simp: restrict_map_def fun_eq_iff dom_def)
  moreover have "?h ?hd \<noteq> None" using D(1) by (simp add: shaped_def)
  ultimately show ?thesis by (auto simp: delete_SkipList_def first read_node_def)
qed

theorem delete_SkipList_frees_all_witness: "delete_SkipList demo_sl = Inr Map.empty"
  using delete_SkipList_frees_all[OF demo_sl_wf(1)] .

text \<open>
  \<open>load_file\<close> of a \<open>dump_file\<close> does not restore the contents: every key of the dumped list
  comes back, but with the key itself as its value, since \<open>load_file\<close> passes
  \<open>keyDumpVt_\<close> twice.
\<close>

theorem load_file_loses_values:
  assumes "lib_ok L" and "skip_wf sl" and "nat (sl_size sl) \<le> evens rs"
  shows "\<exists>d sl' rs'. dump_file L sl = Inr d \<and> load_file L d (new_SkipList [] [] m) rs = Inr (sl', rs') \<and>
    skip_wf sl' \<and> sl_map sl' = (\<lambda>k. if sl_map sl k = None then None else Some k)"
proof -
  obtain as where ok: "chain_ok sl as" using assms(2) by (auto simp: skip_wf_def)
  let ?ps = "pairs (sl_heap sl) as"
  let ?d = "lib_dump_out L \<lparr>keyDumpVt = map fst ?ps, valDumpVt = map snd ?ps\<rparr>"
  have "length (map fst ?ps) \<le> evens rs" using assms(3) chain_okD(7)[OF ok] by (simp add: sl_size_def pairs_def)
  from load_keys_spec[OF new_skip_wf this] obtain sl' rs' where
    l: "load_keys (new_SkipList [] [] m) (map fst ?ps) rs = Inr (sl', rs')" "skip_wf sl'"
      "sl_map sl' = (\<lambda>k. if k \<in> set (map fst ?ps) then Some k else None) ++ Map.empty"
    by fastforce
  have "load_file L ?d (new_SkipList [] [] m) rs = Inr (sl', rs')"
    using assms(1) l(1) by (simp add: load_file_def lib_ok_def)
  moreover have "sl_map sl' = (\<lambda>k. if sl_map sl k = None then None else Some k)"
    using l(3) by (auto simp: sl_map_chain[OF ok] map_of_eq_None_iff fun_eq_iff)
  ultimately show ?thesis using dump_file_spec[OF ok] l(2) by blast
qed

theorem load_file_loses_values_witness:
  "\<exists>d sl' rs'. dump_file demo_lib demo_sl = Inr d \<and> load_file demo_lib d (new_SkipList [] [] 6) [0] = Inr (sl', rs') \<and>
     sl_map demo_sl = [''k'' \<mapsto> ''v''] \<and> sl_map sl' = [''k'' \<mapsto> ''k'']"
proof -
  have "nat (sl_size demo_sl) \<le> evens [0]" by code_simp
  from load_file_loses_values[OF demo_lib_ok demo_sl_wf(1) this, of 6] show ?thesis
    by (fastforce simp: demo_sl_wf(2) fun_eq_iff)
qed

text \<open>
  \<open>get_key_value_from_string\<close> splits a string \<open>key:value\<close> at its first colon, whatever the
  value contains, and reports every string without a colon.
\<close>

lemma key_value_string:
  "(get_key_value_from_string s = Some (k, v) \<longleftrightarrow> s = k @ delimiter # v \<and> delimiter \<notin> set k) \<and>
   (get_key_value_from_string s = None \<longleftrightarrow> delimiter \<notin> set s)"
proof -
  have split: "s = takeWhile (\<lambda>c. c \<noteq> delimiter) s @ delimiter # tl (dropWhile (\<lambda>c. c \<noteq> delimiter) s)"
    if "delimiter \<in> set s" for s
    using that by (induction s) auto
  have parts: "takeWhile (\<lambda>c. c \<noteq> delimiter) (k @ delimiter # v) = k"
    "dropWhile (\<lambda>c. c \<noteq> delimiter) (k @ delimiter # v) = delimiter # v" if "delimiter \<notin> set k" for k v
    using that by (induction k) auto
  have "delimiter \<notin> set (takeWhile (\<lambda>c. c \<noteq> delimiter) s)" by (auto dest: set_takeWhileD)
  then show ?thesis
    using split[of s] parts[of k v] by (auto simp: get_key_value_from_string_def is_valid_string_def)
qed

end
