(* ===== verification/RpcConfig.thy ===== *)
theory RpcConfig
  imports Util
begin

text \<open>
  The configuration file: \<open>MprpcConfig\<close> (src/src/rpc/mprpcconfig.cpp), the loop that reads
  the node list from it (the constructor of \<open>KvServer\<close> and \<open>Clerk::Init\<close>) and the lines
  \<open>RpcProvider::Run\<close> appends to it (src/src/rpc/rpcprovider.cpp).

  A file is the string of its characters, or \<open>None\<close> if it cannot be opened. \<open>fgets\<close> reads
  at most 511 characters, up to and including a line feed, and meets the end of the file if it
  stops for neither reason; \<open>std::string(buf)\<close> ends at the first zero byte. \<open>find\<close> and its
  relatives return -1 for \<open>npos\<close>, as the code stores them in an \<open>int\<close>.
\<close>

section \<open>Strings and numbers\<close>

definition newline :: char where "newline = CHR 0x0A"

definition str_find :: "char \<Rightarrow> string \<Rightarrow> nat \<Rightarrow> int" where
  "str_find c s from = (let k = length (takeWhile (\<lambda>x. x \<noteq> c) (drop from s)) in
     if from + k < length s then int (from + k) else -1)"

definition substr :: "string \<Rightarrow> nat \<Rightarrow> int \<Rightarrow> string" where
  "substr s pos count = (if count < 0 then drop pos s else take (nat count) (drop pos s))"

definition digit_char :: "nat \<Rightarrow> char" where "digit_char d = char_of (48 + d)"

fun nat_to_string :: "nat \<Rightarrow> string" where
  "nat_to_string n = (if n < 10 then [digit_char n] else nat_to_string (n div 10) @ [digit_char (n mod 10)])"

definition to_string :: "int \<Rightarrow> string" where
  "to_string i = (if i < 0 then CHR ''-'' # nat_to_string (nat (- i)) else nat_to_string (nat i))"

definition is_digit :: "char \<Rightarrow> bool" where
  "is_digit c \<longleftrightarrow> 48 \<le> (of_char c :: nat) \<and> (of_char c :: nat) \<le> 57"

definition is_space :: "char \<Rightarrow> bool" where
  "is_space c \<longleftrightarrow> c = CHR '' '' \<or> 9 \<le> (of_char c :: nat) \<and> (of_char c :: nat) \<le> 13"

definition digits_value :: "string \<Rightarrow> nat" where
  "digits_value s = foldl (\<lambda>n c. 10 * n + (of_char c - 48)) 0 (takeWhile is_digit s)"

text \<open>\<open>atoi\<close> on numbers that fit.\<close>

definition atoi :: "string \<Rightarrow> int" where
  "atoi s = (case dropWhile is_space s of
     [] \<Rightarrow> 0
   | c # cs \<Rightarrow> if c = CHR ''-'' then - int (digits_value cs)
       else if c = CHR ''+'' then int (digits_value cs) else int (digits_value (c # cs)))"

section \<open>MprpcConfig\<close>

type_synonym config = "(string \<times> string) list"

definition Trim :: "string \<Rightarrow> string" where
  "Trim src_buf =
     (let s1 = (if list_all (\<lambda>c. c = CHR '' '') src_buf then src_buf
                else dropWhile (\<lambda>c. c = CHR '' '') src_buf)
      in if list_all (\<lambda>c. c = CHR '' '') s1 then s1
         else rev (dropWhile (\<lambda>c. c = CHR '' '') (rev s1)))"

text \<open>What one \<open>fgets\<close> reads, the rest of the file, and whether the end was met.\<close>

definition fgets :: "string \<Rightarrow> string \<times> string \<times> bool" where
  "fgets s =
     (let pre = takeWhile (\<lambda>c. c \<noteq> newline) (take 511 s);
          n = (if length pre < length (take 511 s) then length pre + 1 else length pre)
      in (take n s, drop n s, length pre = length s \<and> length s < 511))"

text \<open>The body of the loop: one line, added unless it is a comment or has no \<open>=\<close>.\<close>

definition load_line :: "string \<Rightarrow> config \<Rightarrow> config" where
  "load_line buf conf =
     (let read_buf = Trim (takeWhile (\<lambda>c. c \<noteq> CHR 0x00) buf) in
      if read_buf = [] \<or> hd read_buf = CHR ''#'' then conf
      else
        let idx = str_find (CHR ''='') read_buf 0 in
        if idx = -1 then conf
        else
          let key = Trim (substr read_buf 0 idx);
              endidx = str_find newline read_buf (nat idx);
              value = Trim (substr read_buf (nat idx + 1) (endidx - idx - 1))
          in if key \<in> fst ` set conf then conf else conf @ [(key, value)])"

lemma fgets_shorter: "fgets s = (l, r, False) \<Longrightarrow> length r < length s"
proof (cases s)
  case Nil
  then show "fgets s = (l, r, False) \<Longrightarrow> length r < length s" by (simp add: fgets_def)
next
  case (Cons c cs)
  then show "fgets s = (l, r, False) \<Longrightarrow> length r < length s"
    by (auto simp: fgets_def Let_def split: if_splits)
qed

function load_lines :: "string \<Rightarrow> config \<Rightarrow> config" where
  "load_lines s conf = (case fgets s of (l, r, eof) \<Rightarrow>
     if eof then load_line l conf else load_lines r (load_line l conf))"
  by pat_completeness auto
termination
  by (relation "measure (\<lambda>(s, conf). length s)") (auto dest: fgets_shorter[OF sym])

declare load_lines.simps [simp del]

definition LoadConfigFile :: "string option \<Rightarrow> config res" where
  "LoadConfigFile file = (case file of None \<Rightarrow> Inl AssertFail | Some s \<Rightarrow> Inr (load_lines s []))"

definition Load :: "config \<Rightarrow> string \<Rightarrow> string" where
  "Load conf key = (case map_of conf key of None \<Rightarrow> [] | Some v \<Rightarrow> v)"

section \<open>The node list\<close>

text \<open>
  \<open>read_nodes\<close> is the loop over \<open>node0ip\<close>, \<open>node1ip\<close>, \<dots> up to the first empty
  address. Each turn that goes on finds another key of the file, so \<open>length conf\<close> turns are
  enough fuel (\<open>read_nodes_enough\<close>); the bound \<open>INT_MAX - 1\<close> of the loop is beyond every
  file. The port is an \<open>int\<close> stored into a \<open>short\<close>.
\<close>

definition node_name :: "nat \<Rightarrow> string" where
  "node_name i = ''node'' @ to_string (int i)"

fun read_nodes :: "nat \<Rightarrow> config \<Rightarrow> nat \<Rightarrow> (string \<times> 16 word) list" where
  "read_nodes 0 conf i = []"
| "read_nodes (Suc fuel) conf i =
     (let nodeIp = Load conf (node_name i @ ''ip''); nodePortStr = Load conf (node_name i @ ''port'') in
      if nodeIp = [] then []
      else (nodeIp, word_of_int (atoi nodePortStr)) # read_nodes fuel conf (i + 1))"

definition read_node_list :: "config \<Rightarrow> (string \<times> 16 word) list" where
  "read_node_list conf = read_nodes (length conf) conf 0"

text \<open>What \<open>RpcProvider::Run\<close> appends for a node.\<close>

definition node_lines :: "nat \<Rightarrow> string \<Rightarrow> 16 word \<Rightarrow> string" where
  "node_lines nodeIndex ip port =
     node_name nodeIndex @ ''ip='' @ ip @ [newline] @
     node_name nodeIndex @ ''port='' @ to_string (sint port) @ [newline]"

section \<open>Lemmas\<close>

declare nat_to_string.simps [simp del]

lemma of_digit_char [simp]: "d < 10 \<Longrightarrow> (of_char (digit_char d) :: nat) = 48 + d"
  by (simp add: digit_char_def)

lemma nat_to_string_digits: "list_all is_digit (nat_to_string n) \<and> nat_to_string n \<noteq> []"
proof (induction n rule: nat_to_string.induct)
  case (1 n)
  have "is_digit (digit_char d)" if "d < 10" for d using that by (simp add: is_digit_def)
  then show ?case using 1 by (subst (1 2) nat_to_string.simps) auto
qed

lemma takeWhile_digits: "list_all is_digit s \<Longrightarrow> takeWhile is_digit s = s"
  by (induction s) auto

lemma digits_value_nat [simp]: "digits_value (nat_to_string n) = n"
proof (induction n rule: nat_to_string.induct)
  case (1 n)
  have app: "digits_value (s @ [digit_char d]) = 10 * digits_value s + d" if "list_all is_digit s" "d < 10" for s d
  proof -
    have "is_digit (digit_char d)" using that(2) by (simp add: is_digit_def)
    then have "takeWhile is_digit (s @ [digit_char d]) = s @ [digit_char d]" "takeWhile is_digit s = s"
      using that takeWhile_digits by auto
    then show ?thesis using that by (simp add: digits_value_def del: takeWhile_append takeWhile_eq_all_conv)
  qed
  show ?case
  proof (cases "n < 10")
    case True
    then show ?thesis using app[of "[]" n] by (subst nat_to_string.simps) (simp add: digits_value_def)
  next
    case False
    then show ?thesis using 1[OF False] app[of "nat_to_string (n div 10)" "n mod 10"] nat_to_string_digits[of "n div 10"]
      by (subst nat_to_string.simps) simp
  qed
qed

lemma digit_facts: "is_digit c \<Longrightarrow> \<not> is_space c \<and> c \<noteq> CHR ''-'' \<and> c \<noteq> CHR ''+'' \<and> c \<noteq> newline \<and> c \<noteq> CHR '' '' \<and> c \<noteq> CHR 0x00 \<and> c \<noteq> CHR ''=''"
  by (auto simp: is_digit_def is_space_def newline_def)

lemma atoi_to_string [simp]: "atoi (to_string i) = i"
proof (cases "i < 0")
  case True
  then show ?thesis by (simp add: atoi_def to_string_def is_space_def)
next
  case False
  obtain c cs where c: "nat_to_string (nat i) = c # cs" "is_digit c"
    using nat_to_string_digits[of "nat i"] by (cases "nat_to_string (nat i)") auto
  moreover have "digits_value (c # cs) = nat i" using digits_value_nat[of "nat i"] c(1) by simp
  ultimately show ?thesis using False digit_facts[OF c(2)] by (simp add: atoi_def to_string_def)
qed

lemma to_string_inj: "to_string i = to_string j \<longleftrightarrow> i = j"
  by (metis atoi_to_string)

lemma node_name_inj [simp]: "node_name i = node_name j \<longleftrightarrow> i = j"
  by (simp add: node_name_def to_string_inj)

text \<open>Strings a line may be made of.\<close>

definition plain :: "string \<Rightarrow> bool" where
  "plain s \<longleftrightarrow> list_all (\<lambda>c. c \<noteq> CHR '' '' \<and> c \<noteq> newline \<and> c \<noteq> CHR 0x00) s"

lemma plain_append [simp]: "plain (s @ t) \<longleftrightarrow> plain s \<and> plain t"
  by (simp add: plain_def)

lemma plain_to_string [simp]: "plain (to_string i)"
proof -
  have "plain (nat_to_string n)" for n
    using nat_to_string_digits[of n] digit_facts by (auto simp: plain_def list_all_iff)
  then show ?thesis by (simp add: to_string_def plain_def newline_def)
qed

lemma plain_node_name [simp]: "plain (node_name i)"
proof -
  have "plain ''node''" by code_simp
  then show ?thesis by (simp only: node_name_def plain_append plain_to_string simp_thms)
qed

lemma no_eq_node_name: "CHR ''='' \<notin> set (node_name i)"
proof -
  have "CHR ''='' \<notin> set (nat_to_string n)" for n
    using nat_to_string_digits[of n] digit_facts by (auto simp: list_all_iff)
  then show ?thesis by (simp add: node_name_def to_string_def)
qed

lemma Trim_plain [simp]: "plain s \<Longrightarrow> Trim s = s"
proof -
  assume p: "plain s"
  have d: "dropWhile (\<lambda>c. c = CHR '' '') t = t" if "plain t" for t
    using that by (cases t) (auto simp: plain_def)
  have "plain (rev s)" using p by (simp add: plain_def)
  then show ?thesis using d[OF p] d[of "rev s"] by (simp add: Trim_def Let_def)
qed

lemma Trim_line: "plain s \<Longrightarrow> Trim (s @ [newline]) = s @ [newline]"
proof -
  assume p: "plain s"
  have "dropWhile (\<lambda>c. c = CHR '' '') (s @ [newline]) = s @ [newline]"
    using p by (cases s) (auto simp: plain_def newline_def)
  then show ?thesis by (simp add: Trim_def Let_def newline_def)
qed

lemma takeWhile_all: "(\<And>x. x \<in> set s \<Longrightarrow> P x) \<Longrightarrow> takeWhile P s = s"
  by (induction s) auto

lemma fgets_line: "newline \<notin> set l \<Longrightarrow> length l < 511 \<Longrightarrow> fgets (l @ newline # r) = (l @ [newline], r, False)"
proof -
  assume l: "newline \<notin> set l" "length l < 511"
  have "take 511 (l @ newline # r) = l @ newline # take (510 - length l) r"
    using l(2) by (simp add: take_Cons' numeral_eq_Suc)
  moreover have "takeWhile (\<lambda>c. c \<noteq> newline) (l @ newline # q) = l" for q
    using l(1) by (subst takeWhile_append2) auto
  ultimately show ?thesis by (simp add: fgets_def Let_def)
qed

definition conf_line :: "string \<times> string \<Rightarrow> string" where
  "conf_line kv = fst kv @ ''='' @ snd kv @ [newline]"

definition line_ok :: "string \<times> string \<Rightarrow> bool" where
  "line_ok kv \<longleftrightarrow> fst kv \<noteq> [] \<and> hd (fst kv) \<noteq> CHR ''#'' \<and> CHR ''='' \<notin> set (fst kv) \<and>
     plain (fst kv) \<and> plain (snd kv) \<and> length (fst kv) + length (snd kv) < 510"

lemma load_line_conf:
  assumes "line_ok kv"
  shows "load_line (conf_line kv) conf = (if fst kv \<in> fst ` set conf then conf else conf @ [kv])"
proof -
  obtain k v where kv: "kv = (k, v)" by (cases kv)
  let ?l = "k @ CHR ''='' # v"
  have ok: "k \<noteq> []" "hd k \<noteq> CHR ''#''" "CHR ''='' \<notin> set k" "plain k" "plain v" using assms kv by (auto simp: line_ok_def)
  have pl: "plain ?l" using ok by (simp add: plain_def newline_def)
  have "takeWhile (\<lambda>c. c \<noteq> CHR 0x00) (?l @ [newline]) = ?l @ [newline]"
    by (rule takeWhile_all) (use pl in \<open>auto simp: plain_def list_all_iff newline_def\<close>)
  then have buf: "Trim (takeWhile (\<lambda>c. c \<noteq> CHR 0x00) (conf_line kv)) = ?l @ [newline]"
    using Trim_line[OF pl] by (simp add: conf_line_def kv)
  have tk: "takeWhile (\<lambda>x. x \<noteq> CHR ''='') (k @ CHR ''='' # s) = k" for s
    using ok(3) by (subst takeWhile_append2) auto
  have idx: "str_find (CHR ''='') (?l @ [newline]) 0 = int (length k)"
    by (simp add: str_find_def tk)
  have "newline \<notin> set v" using ok(5) by (auto simp: plain_def list_all_iff)
  then have "takeWhile (\<lambda>x. x \<noteq> newline) (CHR ''='' # v @ [newline]) = CHR ''='' # v"
    by (subst append_Cons[symmetric], subst takeWhile_append2) (auto simp: newline_def)
  then have nl: "str_find newline (?l @ [newline]) (length k) = int (length k + length v + 1)"
    by (simp add: str_find_def)
  have "hd (?l @ [newline]) = hd k" using ok(1) by simp
  then show ?thesis
    unfolding load_line_def buf Let_def idx
    using ok(1,2,4,5) nl by (simp add: substr_def kv)
qed

lemma conf_line_plain: "line_ok kv \<Longrightarrow> fgets (conf_line kv @ r) = (conf_line kv, r, False)"
  using fgets_line[of "fst kv @ ''='' @ snd kv" r]
  by (auto simp: line_ok_def conf_line_def plain_def list_all_iff newline_def)

lemma load_lines_file:
  "list_all line_ok kvs \<Longrightarrow> distinct (map fst (conf @ kvs)) \<Longrightarrow>
   load_lines (concat (map conf_line kvs)) conf = conf @ kvs"
proof (induction kvs arbitrary: conf)
  case Nil
  have "load_line [] conf = conf" by (simp add: load_line_def Trim_def)
  then show ?case by (subst load_lines.simps) (simp add: fgets_def)
next
  case (Cons kv kvs)
  have "load_line (conf_line kv) conf = conf @ [kv]"
    using load_line_conf[of kv conf] Cons.prems by auto
  then show ?case
    using Cons.IH[of "conf @ [kv]"] Cons.prems conf_line_plain[of kv]
    by (subst load_lines.simps) simp
qed

text \<open>Once the fuel covers the remaining nodes, more of it changes nothing.\<close>

lemma Load_nonempty: "Load conf k \<noteq> [] \<Longrightarrow> k \<in> fst ` set conf"
  by (auto simp: Load_def split: option.splits dest: map_of_SomeD intro: rev_image_eqI)

definition nodes_from :: "config \<Rightarrow> nat \<Rightarrow> nat set" where
  "nodes_from conf i = {j. i \<le> j \<and> node_name j @ ''ip'' \<in> fst ` set conf}"

lemma finite_nodes_from: "finite (nodes_from conf i)" "card (nodes_from conf i) \<le> length conf"
proof -
  have inj: "inj_on (\<lambda>j. node_name j @ ''ip'') (nodes_from conf i)" by (auto simp: inj_on_def)
  have sub: "(\<lambda>j. node_name j @ ''ip'') ` nodes_from conf i \<subseteq> fst ` set conf" by (auto simp: nodes_from_def)
  show "finite (nodes_from conf i)" using finite_imageD[OF finite_subset[OF sub] inj] by simp
  have "card (nodes_from conf i) \<le> card (fst ` set conf)" using card_inj_on_le[OF inj sub] by simp
  also have "\<dots> \<le> length conf" by (metis card_image_le card_length finite_set le_trans)
  finally show "card (nodes_from conf i) \<le> length conf" .
qed

lemma read_nodes_fuel:
  "card (nodes_from conf i) \<le> fuel \<Longrightarrow> read_nodes (fuel + n) conf i = read_nodes fuel conf i"
proof (induction fuel arbitrary: i)
  case 0
  then have "nodes_from conf i = {}" using finite_nodes_from by auto
  then have "Load conf (node_name i @ ''ip'') = []" using Load_nonempty[of conf "node_name i @ ''ip''"] by (auto simp: nodes_from_def)
  then show ?case by (cases n) auto
next
  case (Suc fuel)
  show ?case
  proof (cases "Load conf (node_name i @ ''ip'') = []")
    case False
    then have "i \<in> nodes_from conf i" using Load_nonempty by (auto simp: nodes_from_def)
    moreover have "nodes_from conf (i + 1) = nodes_from conf i - {i}" by (auto simp: nodes_from_def)
    ultimately have "card (nodes_from conf (i + 1)) \<le> fuel" using Suc.prems finite_nodes_from(1)[of conf i] by simp
    then show ?thesis using Suc.IH[of "i + 1"] by (simp add: Let_def)
  qed simp
qed

lemma read_nodes_enough: "length conf \<le> fuel \<Longrightarrow> read_nodes fuel conf 0 = read_node_list conf"
  using read_nodes_fuel[OF finite_nodes_from(2)[of conf 0], of "fuel - length conf"] by (simp add: read_node_list_def)

text \<open>The entries of the lines that the nodes \<open>is\<close> append.\<close>

definition node_entries :: "(nat \<Rightarrow> string) \<Rightarrow> (nat \<Rightarrow> 16 word) \<Rightarrow> nat list \<Rightarrow> config" where
  "node_entries ip port is =
     concat (map (\<lambda>i. [(node_name i @ ''ip'', ip i), (node_name i @ ''port'', to_string (sint (port i)))]) is)"

lemma node_lines_entries:
  "concat (map (\<lambda>i. node_lines i (ip i) (port i)) is) = concat (map conf_line (node_entries ip port is))"
  by (induction "is") (simp_all add: node_lines_def node_entries_def conf_line_def)

lemma ip_not_port: "node_name i @ ''ip'' \<noteq> node_name j @ ''port''"
proof
  assume "node_name i @ ''ip'' = node_name j @ ''port''"
  then have "last (node_name i @ ''ip'') = last (node_name j @ ''port'')" by simp
  then show False by simp
qed

lemma node_entries_keys:
  "fst ` set (node_entries ip port is) = (\<lambda>i. node_name i @ ''ip'') ` set is \<union> (\<lambda>i. node_name i @ ''port'') ` set is"
  by (auto simp: node_entries_def image_iff)

lemma distinct_node_entries: "distinct is \<Longrightarrow> distinct (map fst (node_entries ip port is))"
proof (induction "is")
  case (Cons i "is")
  have "node_name i @ s \<notin> fst ` set (node_entries ip port is)" if "s = ''ip'' \<or> s = ''port''" for s
    using that Cons.prems ip_not_port by (auto simp: node_entries_keys)
  moreover have "node_entries ip port (i # is) =
      [(node_name i @ ''ip'', ip i), (node_name i @ ''port'', to_string (sint (port i)))] @ node_entries ip port is"
    by (simp add: node_entries_def)
  ultimately show ?case using Cons ip_not_port[of i i] by auto
qed (simp add: node_entries_def)

lemma length_nat_to_string: "n < 10 ^ Suc k \<Longrightarrow> length (nat_to_string n) \<le> Suc k"
proof (induction k arbitrary: n)
  case 0
  then show ?case by (subst nat_to_string.simps) simp
next
  case (Suc k)
  have "n div 10 < 10 ^ Suc k" using Suc.prems by (simp add: less_mult_imp_div_less)
  then show ?case using Suc.IH[of "n div 10"] by (subst nat_to_string.simps) auto
qed

lemma length_port: "length (to_string (sint (port :: 16 word))) \<le> 6"
proof -
  have "- (2 ^ 15) \<le> sint port" "sint port < 2 ^ 15"
    using sint_range_size[of port] by (simp_all add: word_size)
  then have "nat (sint port) < 10 ^ Suc 4" "nat (- sint port) < 10 ^ Suc 4" by simp_all
  then have "length (nat_to_string (nat (sint port))) \<le> 5" "length (nat_to_string (nat (- sint port))) \<le> 5"
    using length_nat_to_string by fastforce+
  then show ?thesis by (simp add: to_string_def)
qed

lemma line_ok_node:
  assumes "i < 2147483647" and "plain s" and "length s < 400" and "k = ''ip'' \<or> k = ''port''"
  shows "line_ok (node_name i @ k, s)"
proof -
  have "length (node_name i) \<le> 14"
    using length_nat_to_string[of i 9] assms(1) by (simp add: node_name_def to_string_def)
  moreover have "plain ''ip''" "plain ''port''" by code_simp+
  moreover have "node_name i \<noteq> []" "hd (node_name i @ k) = CHR ''n''" by (simp_all add: node_name_def)
  ultimately show ?thesis using assms no_eq_node_name[of i] by (auto simp: line_ok_def)
qed

lemma node_entries_ok:
  assumes "set is \<subseteq> {..<n}" and "n \<le> 2147483647" and "\<And>i. i < n \<Longrightarrow> plain (ip i) \<and> length (ip i) < 400"
  shows "list_all line_ok (node_entries ip port is)"
  using assms(1)
proof (induction "is")
  case (Cons i "is")
  then have "i < 2147483647" "plain (ip i)" "length (ip i) < 400" using assms(2) assms(3)[of i] by auto
  moreover have "length (to_string (sint (port i))) < 400" using length_port[of "port i"] by simp
  ultimately show ?case using Cons line_ok_node by (simp add: node_entries_def)
qed (simp add: node_entries_def)

lemma Load_node_entries:
  assumes "distinct is"
  shows "Load (node_entries ip port is) (node_name i @ ''ip'') = (if i \<in> set is then ip i else [])"
    and "Load (node_entries ip port is) (node_name i @ ''port'') = (if i \<in> set is then to_string (sint (port i)) else [])"
proof -
  let ?c = "node_entries ip port is"
  note d = distinct_node_entries[OF assms, of ip port]
  have "map_of ?c (node_name i @ ''ip'') = (if i \<in> set is then Some (ip i) else None)"
    using d ip_not_port by (auto simp: map_of_eq_None_iff node_entries_keys map_of_eq_Some_iff) (auto simp: node_entries_def)
  then show "Load ?c (node_name i @ ''ip'') = (if i \<in> set is then ip i else [])" by (simp add: Load_def)
  have "map_of ?c (node_name i @ ''port'') = (if i \<in> set is then Some (to_string (sint (port i))) else None)"
    using d ip_not_port[THEN not_sym] by (auto simp: map_of_eq_None_iff node_entries_keys map_of_eq_Some_iff) (auto simp: node_entries_def)
  then show "Load ?c (node_name i @ ''port'') = (if i \<in> set is then to_string (sint (port i)) else [])" by (simp add: Load_def)
qed

lemma read_nodes_entries:
  assumes "distinct is" and "set is = {..<n}" and "\<And>i. i < n \<Longrightarrow> ip i \<noteq> []"
  shows "n < i + fuel \<Longrightarrow> read_nodes fuel (node_entries ip port is) i = map (\<lambda>i. (ip i, port i)) [i..<n]"
proof (induction fuel arbitrary: i)
  case (Suc fuel)
  show ?case
  proof (cases "i < n")
    case True
    then show ?thesis
      using Suc.IH[of "i + 1"] Suc.prems assms(2,3) Load_node_entries[OF assms(1)] by (simp add: upt_conv_Cons)
  next
    case False
    then show ?thesis using assms(2) Load_node_entries(1)[OF assms(1)] by simp
  qed
qed simp

text \<open>
  The nodes of a cluster append their lines to the configuration file in any order; loading
  the file and reading the node list gives every node's address and port, in the order of the
  node numbers. Negative \<open>short\<close> ports survive the conversion to text and back.
\<close>

theorem node_list_roundtrip:
  assumes "distinct is" and "set is = {..<n}" and "n \<le> 2147483647"
    and "\<forall>i < n. ip i \<noteq> [] \<and> plain (ip i) \<and> length (ip i) < 400"
  shows "\<exists>conf. LoadConfigFile (Some (concat (map (\<lambda>i. node_lines i (ip i) (port i)) is))) = Inr conf \<and>
    read_node_list conf = map (\<lambda>i. (ip i, port i)) [0..<n]"
proof -
  let ?conf = "node_entries ip port is"
  have "distinct (map fst ?conf)" by (rule distinct_node_entries[OF assms(1)])
  moreover have "list_all line_ok ?conf" by (rule node_entries_ok[of _ n]) (use assms in auto)
  ultimately have "LoadConfigFile (Some (concat (map (\<lambda>i. node_lines i (ip i) (port i)) is))) = Inr ?conf"
    using load_lines_file[of ?conf "[]"] by (simp add: LoadConfigFile_def node_lines_entries)
  moreover have "read_node_list ?conf = read_nodes (length ?conf + n + 1) ?conf 0"
    using read_nodes_enough[of ?conf "length ?conf + n + 1"] by simp
  moreover have "\<dots> = map (\<lambda>i. (ip i, port i)) [0..<n]"
    by (rule read_nodes_entries[OF assms(1,2)]) (use assms(4) in auto)
  ultimately show ?thesis by simp
qed

end
