(* ===== verification/KvServer.thy ===== *)
theory KvServer
  imports RaftSnapshot SkipListCorrect RpcConfig "HOL-Library.AList"
begin

text \<open>
  The key-value server src/src/raftCore/kvServer.cpp and include/kvServer.h.

  The record \<open>KvServer\<close> holds the fields of the class. The apply channel is shared with the
  Raft node and lives there. \<open>waitApplyCh\<close> maps log indices to addresses of the queues in
  \<open>chans\<close>, which are allocated and freed explicitly; \<open>rand_src\<close> is what \<open>rand()\<close> will
  return in this process. \<open>m_kvDB\<close> is not used by the code.

  A handler that waits for its operation is split at the wait: \<open>Get_begin\<close> and
  \<open>PutAppend_begin\<close> run up to \<open>timeOutPop\<close>, \<open>Get_end\<close> and \<open>PutAppend_end\<close> from
  its return on; \<open>None\<close> is a call that is still blocked. Touching a freed queue is the fault
  \<open>NullDeref\<close>. \<open>GetCommandFromRaft\<close> is the sequence of the four sections the mutex makes
  atomic.
\<close>

section \<open>State\<close>

definition Debug :: bool where "Debug = True"

record KvServer =
  kv_me :: int
  m_raftNode :: Raft
  m_maxRaftState :: int
  m_serializedKVData :: string
  m_skipList :: "(string, string) SkipList"
  waitApplyCh :: "int \<Rightarrow> nat option"
  chans :: "nat \<Rightarrow> Op LockQueue option"
  next_chan :: nat
  m_lastRequestId :: "(string \<times> int) list"
  m_lastSnapShotRaftLogIndex :: int
  rand_src :: "int list"

section \<open>Operations on the store\<close>

definition DprintfKVDB :: "KvServer \<Rightarrow> unit res" where
  "DprintfKVDB k = (if \<not> Debug then Inr () else bindr (display_list (m_skipList k)) (\<lambda>_. Inr ()))"

definition set_lastRequestId :: "Op \<Rightarrow> KvServer \<Rightarrow> KvServer" where
  "set_lastRequestId op k = k\<lparr>m_lastRequestId := AList.update (ClientId op) (RequestId op) (m_lastRequestId k)\<rparr>"

definition ExecuteAppendOpOnKVDB :: "Op \<Rightarrow> KvServer \<Rightarrow> KvServer res" where
  "ExecuteAppendOpOnKVDB op k =
     bindr (insert_set_element (m_skipList k) (Key op) (Value op) (rand_src k)) (\<lambda>(sl, rs).
     let k1 = set_lastRequestId op (k\<lparr>m_skipList := sl, rand_src := rs\<rparr>) in
     bindr (DprintfKVDB k1) (\<lambda>_. Inr k1))"

definition ExecuteGetOpOnKVDB :: "Op \<Rightarrow> KvServer \<Rightarrow> (string \<times> bool \<times> KvServer) res" where
  "ExecuteGetOpOnKVDB op k =
     bindr (search_element (m_skipList k) (Key op)) (\<lambda>found.
     let (value, exist) = (case found of None \<Rightarrow> ([], False) | Some v \<Rightarrow> (v, True));
         k1 = set_lastRequestId op k in
     bindr (DprintfKVDB k1) (\<lambda>_. Inr (value, exist, k1)))"

definition ExecutePutOpOnKVDB :: "Op \<Rightarrow> KvServer \<Rightarrow> KvServer res" where
  "ExecutePutOpOnKVDB op k =
     bindr (insert_set_element (m_skipList k) (Key op) (Value op) (rand_src k)) (\<lambda>(sl, rs).
     let k1 = set_lastRequestId op (k\<lparr>m_skipList := sl, rand_src := rs\<rparr>) in
     bindr (DprintfKVDB k1) (\<lambda>_. Inr k1))"

definition ifRequestDuplicate :: "string \<Rightarrow> int \<Rightarrow> KvServer \<Rightarrow> bool" where
  "ifRequestDuplicate client request k =
     (case map_of (m_lastRequestId k) client of None \<Rightarrow> False | Some r \<Rightarrow> request \<le> r)"

section \<open>Wait channels\<close>

text \<open>The queue of a log index, created if there is none.\<close>

definition open_chan :: "int \<Rightarrow> KvServer \<Rightarrow> nat \<times> KvServer" where
  "open_chan raftIndex k =
     (case waitApplyCh k raftIndex of
        Some ch \<Rightarrow> (ch, k)
      | None \<Rightarrow> (next_chan k,
          k\<lparr>waitApplyCh := (waitApplyCh k)(raftIndex \<mapsto> next_chan k),
            chans := (chans k)(next_chan k \<mapsto> empty_queue), next_chan := next_chan k + 1\<rparr>))"

text \<open>The last section of both handlers: the queue is taken out of the table and freed.\<close>

definition close_chan :: "int \<Rightarrow> KvServer \<Rightarrow> KvServer res" where
  "close_chan raftIndex k =
     (case waitApplyCh k raftIndex of
        None \<Rightarrow> Inr k
      | Some ch \<Rightarrow>
          if chans k ch = None then Inl NullDeref
          else Inr (k\<lparr>waitApplyCh := (waitApplyCh k)(raftIndex := None), chans := (chans k)(ch := None)\<rparr>))"

text \<open>
  How the wait of a handler ends: the queue had an element when it was first looked at, the
  thread was notified, or the time-out passed.
\<close>

datatype wakeup = NoWait | Notified | TimeOut

fun chan_pop :: "wakeup \<Rightarrow> 'a LockQueue \<Rightarrow> ('a option \<times> 'a LockQueue) option" where
  "chan_pop NoWait q = timeOutPop q []"
| "chan_pop Notified q = timeOutPop empty_queue [Woken q]"
| "chan_pop TimeOut q = timeOutPop empty_queue [TimedOut q]"

definition SendMessageToWaitChan :: "Op \<Rightarrow> int \<Rightarrow> KvServer \<Rightarrow> (bool \<times> KvServer) res" where
  "SendMessageToWaitChan op raftIndex k =
     (case waitApplyCh k raftIndex of
        None \<Rightarrow> Inr (False, k)
      | Some ch \<Rightarrow>
          (case chans k ch of
             None \<Rightarrow> Inl NullDeref
           | Some q \<Rightarrow> Inr (True, k\<lparr>chans := (chans k)(ch \<mapsto> Push op q)\<rparr>)))"

section \<open>Requests\<close>

definition get_op :: "GetArgs \<Rightarrow> Op" where
  "get_op args = \<lparr>Operation = ''Get'', Key = ga_key args, Value = [], ClientId = ga_clientid args,
     RequestId = ga_requestid args\<rparr>"

definition put_op :: "PutAppendArgs \<Rightarrow> Op" where
  "put_op args = \<lparr>Operation = pa_op args, Key = pa_key args, Value = pa_value args,
     ClientId = pa_clientid args, RequestId = pa_requestid args\<rparr>"

text \<open>The common beginning: \<open>Inl\<close> the refusal of a node that is not leader, \<open>Inr\<close> the wait.\<close>

definition begin_wait :: "lib \<Rightarrow> Op \<Rightarrow> KvServer \<Rightarrow> (int \<times> nat) option \<times> KvServer" where
  "begin_wait L op k =
     (let (raftIndex, tm, isLeader, r) = Start L op (m_raftNode k);
          k1 = k\<lparr>m_raftNode := r\<rparr> in
      if \<not> isLeader then (None, k1)
      else let (ch, k2) = open_chan raftIndex k1 in (Some (raftIndex, ch), k2))"

definition Get_begin :: "lib \<Rightarrow> GetArgs \<Rightarrow> KvServer \<Rightarrow> (GetReply + int \<times> nat) \<times> KvServer" where
  "Get_begin L args k =
     (case begin_wait L (get_op args) k of
        (None, k1) \<Rightarrow> (Inl (new_GetReply\<lparr>gr_err := ErrWrongLeader\<rparr>), k1)
      | (Some w, k1) \<Rightarrow> (Inr w, k1))"

definition PutAppend_begin :: "lib \<Rightarrow> PutAppendArgs \<Rightarrow> KvServer \<Rightarrow> (PutAppendReply + int \<times> nat) \<times> KvServer" where
  "PutAppend_begin L args k =
     (case begin_wait L (put_op args) k of
        (None, k1) \<Rightarrow> (Inl (new_PutAppendReply\<lparr>pr_err := ErrWrongLeader\<rparr>), k1)
      | (Some w, k1) \<Rightarrow> (Inr w, k1))"

text \<open>The answer to a \<open>Get\<close> from the store.\<close>

definition get_answer :: "Op \<Rightarrow> KvServer \<Rightarrow> (GetReply \<times> KvServer) res" where
  "get_answer op k =
     bindr (ExecuteGetOpOnKVDB op k) (\<lambda>(value, exist, k1).
     Inr (if exist then (new_GetReply\<lparr>gr_err := OK, gr_value := value\<rparr>, k1)
          else (new_GetReply\<lparr>gr_err := ErrNoKey, gr_value := []\<rparr>, k1)))"

definition same_request :: "Op \<Rightarrow> Op \<Rightarrow> bool" where
  "same_request raftCommitOp op \<longleftrightarrow> ClientId raftCommitOp = ClientId op \<and> RequestId raftCommitOp = RequestId op"

text \<open>The return of \<open>timeOutPop\<close> on the queue at address \<open>ch\<close>.\<close>

definition wait_end :: "wakeup \<Rightarrow> nat \<Rightarrow> KvServer \<Rightarrow> (Op option \<times> KvServer) res option" where
  "wait_end w ch k =
     (case chans k ch of
        None \<Rightarrow> Some (Inl NullDeref)
      | Some q \<Rightarrow>
          (case chan_pop w q of
             None \<Rightarrow> None
           | Some (x, q') \<Rightarrow> Some (Inr (x, k\<lparr>chans := (chans k)(ch \<mapsto> q')\<rparr>))))"

definition Get_finish :: "Op \<Rightarrow> int \<Rightarrow> Op option \<Rightarrow> KvServer \<Rightarrow> (GetReply \<times> KvServer) res" where
  "Get_finish op raftIndex popped k =
     bindr (case popped of
        None \<Rightarrow>
          if ifRequestDuplicate (ClientId op) (RequestId op) k \<and> snd (GetState (m_raftNode k)) then get_answer op k
          else Inr (new_GetReply\<lparr>gr_err := ErrWrongLeader\<rparr>, k)
      | Some raftCommitOp \<Rightarrow>
          if same_request raftCommitOp op then get_answer op k
          else Inr (new_GetReply\<lparr>gr_err := ErrWrongLeader\<rparr>, k)) (\<lambda>(reply, k1).
     bindr (close_chan raftIndex k1) (\<lambda>k2. Inr (reply, k2)))"

definition Get_end :: "wakeup \<Rightarrow> Op \<Rightarrow> int \<Rightarrow> nat \<Rightarrow> KvServer \<Rightarrow> (GetReply \<times> KvServer) res option" where
  "Get_end w op raftIndex ch k =
     map_option (\<lambda>m. bindr m (\<lambda>(popped, k1). Get_finish op raftIndex popped k1)) (wait_end w ch k)"

definition PutAppend_finish :: "Op \<Rightarrow> int \<Rightarrow> Op option \<Rightarrow> KvServer \<Rightarrow> (PutAppendReply \<times> KvServer) res" where
  "PutAppend_finish op raftIndex popped k =
     (let err = (case popped of
            None \<Rightarrow> if ifRequestDuplicate (ClientId op) (RequestId op) k then OK else ErrWrongLeader
          | Some raftCommitOp \<Rightarrow> if same_request raftCommitOp op then OK else ErrWrongLeader) in
      bindr (close_chan raftIndex k) (\<lambda>k2. Inr (new_PutAppendReply\<lparr>pr_err := err\<rparr>, k2)))"

definition PutAppend_end :: "wakeup \<Rightarrow> Op \<Rightarrow> int \<Rightarrow> nat \<Rightarrow> KvServer \<Rightarrow> (PutAppendReply \<times> KvServer) res option" where
  "PutAppend_end w op raftIndex ch k =
     map_option (\<lambda>m. bindr m (\<lambda>(popped, k1). PutAppend_finish op raftIndex popped k1)) (wait_end w ch k)"

section \<open>Snapshots\<close>

definition getSnapshotData :: "lib \<Rightarrow> KvServer \<Rightarrow> (string \<times> KvServer) res" where
  "getSnapshotData L k =
     bindr (dump_file L (m_skipList k)) (\<lambda>d.
     let k1 = k\<lparr>m_serializedKVData := d\<rparr>;
         s = lib_kv_out L \<lparr>ka_serializedKVData = m_serializedKVData k1, ka_lastRequestId = m_lastRequestId k1\<rparr>
     in Inr (s, k1\<lparr>m_serializedKVData := []\<rparr>))"

definition kv_parseFromString :: "lib \<Rightarrow> string \<Rightarrow> KvServer \<Rightarrow> KvServer res" where
  "kv_parseFromString L str k =
     (case lib_kv_in L str of
        None \<Rightarrow> Inl BadParse
      | Some a \<Rightarrow>
          let k1 = k\<lparr>m_serializedKVData := ka_serializedKVData a, m_lastRequestId := ka_lastRequestId a\<rparr> in
          bindr (load_file L (m_serializedKVData k1) (m_skipList k1) (rand_src k1)) (\<lambda>(sl, rs).
          Inr (k1\<lparr>m_skipList := sl, rand_src := rs, m_serializedKVData := []\<rparr>)))"

definition MakeSnapShot :: "lib \<Rightarrow> KvServer \<Rightarrow> (string \<times> KvServer) res" where
  "MakeSnapShot L k = getSnapshotData L k"

definition ReadSnapShotToInstall :: "lib \<Rightarrow> string \<Rightarrow> KvServer \<Rightarrow> KvServer res" where
  "ReadSnapShotToInstall L snapshot k = (if snapshot = [] then Inr k else kv_parseFromString L snapshot k)"

text \<open>The comparison is with \<open>m_maxRaftState / 10.0\<close>; \<open>proportion\<close> is not used.\<close>

definition IfNeedToSendSnapShotCommand :: "lib \<Rightarrow> int \<Rightarrow> int \<Rightarrow> KvServer \<Rightarrow> KvServer res" where
  "IfNeedToSendSnapShotCommand L raftIndex proportion k =
     (if 10 * GetRaftStateSize (m_raftNode k) > m_maxRaftState k
      then bindr (MakeSnapShot L k) (\<lambda>(snapshot, k1).
           bindr (Raft_Snapshot L raftIndex snapshot (m_raftNode k1)) (\<lambda>r. Inr (k1\<lparr>m_raftNode := r\<rparr>)))
      else Inr k)"

definition GetSnapShotFromRaft :: "lib \<Rightarrow> ApplyMsg \<Rightarrow> KvServer \<Rightarrow> KvServer res" where
  "GetSnapShotFromRaft L message k =
     (if CondInstallSnapshot (SnapshotTerm message) (SnapshotIndex message) (Snapshot message)
      then bindr (ReadSnapShotToInstall L (Snapshot message) k) (\<lambda>k1.
           Inr (k1\<lparr>m_lastSnapShotRaftLogIndex := SnapshotIndex message\<rparr>))
      else Inr k)"

section \<open>Applying the log\<close>

definition execute_op :: "Op \<Rightarrow> KvServer \<Rightarrow> KvServer res" where
  "execute_op op k =
     bindr (if Operation op = ''Put'' then ExecutePutOpOnKVDB op k else Inr k) (\<lambda>k1.
     if Operation op = ''Append'' then ExecuteAppendOpOnKVDB op k1 else Inr k1)"

definition GetCommandFromRaft :: "lib \<Rightarrow> ApplyMsg \<Rightarrow> KvServer \<Rightarrow> KvServer res" where
  "GetCommandFromRaft L message k =
     bindr (op_parseFromString L (Command message)) (\<lambda>op.
     if CommandIndex message \<le> m_lastSnapShotRaftLogIndex k then Inr k
     else
       bindr (if \<not> ifRequestDuplicate (ClientId op) (RequestId op) k then execute_op op k else Inr k) (\<lambda>k1.
       bindr (if m_maxRaftState k1 \<noteq> -1
              then IfNeedToSendSnapShotCommand L (CommandIndex message) 9 k1 else Inr k1) (\<lambda>k2.
       bindr (SendMessageToWaitChan op (CommandIndex message) k2) (\<lambda>(b, k3). Inr k3))))"

definition handle_message :: "lib \<Rightarrow> ApplyMsg \<Rightarrow> KvServer \<Rightarrow> KvServer res" where
  "handle_message L message k =
     bindr (if CommandValid message then GetCommandFromRaft L message k else Inr k) (\<lambda>k1.
     if SnapshotValid message then GetSnapShotFromRaft L message k1 else Inr k1)"

text \<open>\<open>n\<close> turns of the endless loop; a turn that finds the channel empty blocks.\<close>

fun ReadRaftApplyCommandLoop :: "lib \<Rightarrow> nat \<Rightarrow> KvServer \<Rightarrow> KvServer res" where
  "ReadRaftApplyCommandLoop L 0 k = Inr k"
| "ReadRaftApplyCommandLoop L (Suc n) k =
     (case pop_now (applyChan (m_raftNode k)) of
        None \<Rightarrow> Inr k
      | Some (message, q) \<Rightarrow>
          bindr (handle_message L message (k\<lparr>m_raftNode := (m_raftNode k)\<lparr>applyChan := q\<rparr>\<rparr>))
            (ReadRaftApplyCommandLoop L n))"

section \<open>Start-up\<close>

definition peers_of :: "int \<Rightarrow> (string \<times> 16 word) list \<Rightarrow> (string \<times> 16 word) option list" where
  "peers_of me ipPortVt = map (\<lambda>(i, a). if int i = me then None else Some a) (enumerate 0 ipPortVt)"

text \<open>
  The constructor: node list from the configuration file, Raft node, last snapshot. The three
  external inputs are the file, the two files of the persister and the clock.
\<close>

definition new_KvServer ::
  "lib \<Rightarrow> int \<Rightarrow> int \<Rightarrow> int \<Rightarrow> string option \<Rightarrow> disk_file \<Rightarrow> disk_file \<Rightarrow> int list \<Rightarrow> KvServer res" where
  "new_KvServer L now me maxraftstate nodeInforFile rf sf rs =
     (let persister = new_Persister rf sf in
      bindr (LoadConfigFile nodeInforFile) (\<lambda>config.
      bindr (raft_init L now (peers_of me (read_node_list config)) me persister empty_queue) (\<lambda>r.
      let (snapshot, p) = ReadSnapshot (m_persister r);
          k = \<lparr>kv_me = me, m_raftNode = r\<lparr>m_persister := p\<rparr>, m_maxRaftState = maxraftstate,
               m_serializedKVData = [], m_skipList = new_SkipList [] [] 6, waitApplyCh = Map.empty,
               chans = Map.empty, next_chan = 0, m_lastRequestId = [], m_lastSnapShotRaftLogIndex = 0,
               rand_src = rs\<rparr>
      in if snapshot \<noteq> [] then ReadSnapShotToInstall L snapshot k else Inr k)))"

end
