(* ===== verification/KvCorrect.thy ===== *)
theory KvCorrect
  imports KvServer
begin

text \<open>
  Correctness of the key-value server.

  \<open>kv_abs\<close> maps a server to its abstract state, a partial map from keys to values and the
  last request number of each client; \<open>spec_apply\<close> is the state machine the cluster
  replicates. \<open>kv_wf\<close> is the invariant of the server. The locale \<open>replicated\<close> states what
  it means for a fallible implementation to simulate such a machine and carries the run lemmas.
\<close>

section \<open>The abstract machine\<close>

type_synonym kv_state = "(string \<Rightarrow> string option) \<times> (string \<Rightarrow> int option)"

definition kv_abs :: "KvServer \<Rightarrow> kv_state" where
  "kv_abs k = (sl_map (m_skipList k), map_of (m_lastRequestId k))"

definition is_write :: "Op \<Rightarrow> bool" where
  "is_write op \<longleftrightarrow> Operation op = ''Put'' \<or> Operation op = ''Append''"

definition seen :: "Op \<Rightarrow> kv_state \<Rightarrow> bool" where
  "seen op s \<longleftrightarrow> (case snd s (ClientId op) of None \<Rightarrow> False | Some r \<Rightarrow> RequestId op \<le> r)"

definition spec_apply :: "Op \<Rightarrow> kv_state \<Rightarrow> kv_state" where
  "spec_apply op s =
     (if is_write op \<and> \<not> seen op s
      then ((fst s)(Key op \<mapsto> Value op), (snd s)(ClientId op \<mapsto> RequestId op)) else s)"

text \<open>A write that has been applied counts as seen for ever, so repeating it changes nothing.\<close>

lemma spec_apply_seen: "seen op s \<Longrightarrow> spec_apply op s = s"
  by (simp add: spec_apply_def)

lemma spec_apply_marks: "is_write op \<Longrightarrow> seen op (spec_apply op s)"
  by (simp add: spec_apply_def seen_def)

lemma seen_mono: "seen op s \<Longrightarrow> seen op (spec_apply op' s)"
  by (auto simp: spec_apply_def seen_def split: option.splits if_splits)

lemma seen_fold: "seen op s \<Longrightarrow> seen op (fold spec_apply ops s)"
  by (induction ops arbitrary: s) (auto simp: seen_mono)

lemma fold_marks: "op \<in> set ops \<Longrightarrow> is_write op \<Longrightarrow> seen op (fold spec_apply ops s)"
proof (induction ops arbitrary: s)
  case (Cons a ops)
  then show ?case by (cases "a = op") (simp_all add: seen_fold spec_apply_marks)
qed simp

section \<open>Simulating a state machine\<close>

locale replicated =
  fixes inv :: "'s \<Rightarrow> bool"
    and abs :: "'s \<Rightarrow> 'a"
    and budget :: "'s \<Rightarrow> nat"
    and exec :: "'m \<Rightarrow> 's \<Rightarrow> 's res"
    and means :: "'s \<Rightarrow> 'm \<Rightarrow> 'o \<Rightarrow> bool"
    and spec :: "'o \<Rightarrow> 'a \<Rightarrow> 'a"
  assumes sim: "inv s \<Longrightarrow> 0 < budget s \<Longrightarrow> means s m x \<Longrightarrow>
      \<exists>s'. exec m s = Inr s' \<and> inv s' \<and> abs s' = spec x (abs s) \<and> budget s \<le> Suc (budget s') \<and>
        (\<forall>m' x'. means s m' x' \<longrightarrow> means s' m' x')"
begin

fun exec_all :: "'m list \<Rightarrow> 's \<Rightarrow> 's res" where
  "exec_all [] s = Inr s"
| "exec_all (m # ms) s = bindr (exec m s) (exec_all ms)"

lemma run_sim:
  "inv s \<Longrightarrow> length ms \<le> budget s \<Longrightarrow> list_all2 (means s) ms xs \<Longrightarrow>
   \<exists>s'. exec_all ms s = Inr s' \<and> inv s' \<and> abs s' = fold spec xs (abs s)"
proof (induction ms arbitrary: s xs)
  case Nil
  then show ?case by auto
next
  case (Cons m ms)
  obtain x ys where xs: "xs = x # ys" "means s m x" "list_all2 (means s) ms ys"
    using Cons.prems(3) by (auto simp: list_all2_Cons1)
  from sim[OF Cons.prems(1) _ xs(2)] Cons.prems(2) obtain s1 where
    1: "exec m s = Inr s1" "inv s1" "abs s1 = spec x (abs s)" "budget s \<le> Suc (budget s1)"
      "\<forall>m' x'. means s m' x' \<longrightarrow> means s1 m' x'"
    by (metis Suc_le_lessD length_Cons zero_less_Suc less_le_trans)
  have "list_all2 (means s1) ms ys" using xs(3) 1(5) by (auto elim: list.rel_mono_strong)
  from Cons.IH[OF 1(2) _ this] 1(1,3,4) Cons.prems(2) show ?case by (auto simp: xs(1))
qed

text \<open>Two implementations that agree at the start and execute the same operations agree at the end.\<close>

lemma runs_agree:
  assumes "inv s" and "inv t" and "abs s = abs t" and "length ms \<le> budget s" and "length ns \<le> budget t"
    and "list_all2 (means s) ms xs" and "list_all2 (means t) ns xs"
  shows "\<exists>s' t'. exec_all ms s = Inr s' \<and> exec_all ns t = Inr t' \<and> abs s' = abs t'"
  using run_sim[OF assms(1,4,6)] run_sim[OF assms(2,5,7)] assms(3) by auto

end

section \<open>The invariant\<close>

definition kv_wf :: "KvServer \<Rightarrow> bool" where
  "kv_wf k \<longleftrightarrow> skip_wf (m_skipList k) \<and> raft_wf (m_raftNode k) \<and>
     (\<forall>i ch. waitApplyCh k i = Some ch \<longrightarrow> chans k ch \<noteq> None)"

lemma kv_wfD:
  assumes "kv_wf k"
  shows "skip_wf (m_skipList k)" "raft_wf (m_raftNode k)"
    "\<And>i ch. waitApplyCh k i = Some ch \<Longrightarrow> chans k ch \<noteq> None"
  using assms by (auto simp: kv_wf_def)

lemma display_ok: "skip_wf (m_skipList k) \<Longrightarrow> DprintfKVDB k = Inr ()"
proof -
  assume "skip_wf (m_skipList k)"
  then obtain as where "chain_ok (m_skipList k) as" by (auto simp: skip_wf_def)
  from display_list_spec[OF this] show ?thesis by (simp add: DprintfKVDB_def)
qed

lemma set_lastRequestId_simps [simp]:
  "m_skipList (set_lastRequestId op k) = m_skipList k" "m_raftNode (set_lastRequestId op k) = m_raftNode k"
  "waitApplyCh (set_lastRequestId op k) = waitApplyCh k" "chans (set_lastRequestId op k) = chans k"
  "m_maxRaftState (set_lastRequestId op k) = m_maxRaftState k" "rand_src (set_lastRequestId op k) = rand_src k"
  "m_lastSnapShotRaftLogIndex (set_lastRequestId op k) = m_lastSnapShotRaftLogIndex k"
  "next_chan (set_lastRequestId op k) = next_chan k"
  "map_of (m_lastRequestId (set_lastRequestId op k)) = (map_of (m_lastRequestId k))(ClientId op \<mapsto> RequestId op)"
  by (simp_all add: set_lastRequestId_def update_conv')

text \<open>What a section on the store leaves alone.\<close>

definition store_frame :: "KvServer \<Rightarrow> KvServer \<Rightarrow> bool" where
  "store_frame k k' \<longleftrightarrow> m_raftNode k' = m_raftNode k \<and> waitApplyCh k' = waitApplyCh k \<and> chans k' = chans k \<and>
     next_chan k' = next_chan k \<and> m_maxRaftState k' = m_maxRaftState k \<and>
     m_lastSnapShotRaftLogIndex k' = m_lastSnapShotRaftLogIndex k"

lemma ExecutePut_spec:
  assumes wf: "skip_wf (m_skipList k)" and ev: "0 < evens (rand_src k)"
  shows "\<exists>k'. ExecutePutOpOnKVDB op k = Inr k' \<and> skip_wf (m_skipList k') \<and> store_frame k k' \<and>
    kv_abs k' = ((fst (kv_abs k))(Key op \<mapsto> Value op), (snd (kv_abs k))(ClientId op \<mapsto> RequestId op)) \<and>
    evens (rand_src k) = Suc (evens (rand_src k'))"
proof -
  obtain sl rs where put: "insert_set_element (m_skipList k) (Key op) (Value op) (rand_src k) = Inr (sl, rs)"
    "skip_wf sl" "sl_map sl = (sl_map (m_skipList k))(Key op \<mapsto> Value op)" "evens (rand_src k) = Suc (evens rs)"
    using sk.put_law[OF wf ev] by blast
  let ?k = "set_lastRequestId op (k\<lparr>m_skipList := sl, rand_src := rs\<rparr>)"
  have "ExecutePutOpOnKVDB op k = Inr ?k"
    using put(1,2) display_ok[of ?k] by (simp add: ExecutePutOpOnKVDB_def)
  then show ?thesis using put by (auto simp: store_frame_def kv_abs_def)
qed

lemma ExecuteAppend_eq: "ExecuteAppendOpOnKVDB = ExecutePutOpOnKVDB"
  by (auto simp: ExecuteAppendOpOnKVDB_def ExecutePutOpOnKVDB_def fun_eq_iff)

lemma ExecuteGet_spec:
  assumes wf: "skip_wf (m_skipList k)"
  shows "ExecuteGetOpOnKVDB op k =
    Inr (case sl_map (m_skipList k) (Key op) of None \<Rightarrow> [] | Some v \<Rightarrow> v,
         sl_map (m_skipList k) (Key op) \<noteq> None, set_lastRequestId op k)"
  using sk.lookup_law[OF wf, of "Key op"] display_ok[of "set_lastRequestId op k"] wf
  by (cases "sl_map (m_skipList k) (Key op)") (simp_all add: ExecuteGetOpOnKVDB_def)

lemma duplicate_seen: "ifRequestDuplicate (ClientId op) (RequestId op) k \<longleftrightarrow> seen op (kv_abs k)"
  by (auto simp: ifRequestDuplicate_def seen_def kv_abs_def split: option.splits)

lemma execute_op_spec:
  assumes wf: "skip_wf (m_skipList k)" and ev: "0 < evens (rand_src k)"
  shows "\<exists>k'. (if \<not> ifRequestDuplicate (ClientId op) (RequestId op) k then execute_op op k else Inr k) = Inr k' \<and>
    skip_wf (m_skipList k') \<and> store_frame k k' \<and> kv_abs k' = spec_apply op (kv_abs k) \<and>
    evens (rand_src k) \<le> Suc (evens (rand_src k'))"
proof (cases "is_write op \<and> \<not> ifRequestDuplicate (ClientId op) (RequestId op) k")
  case True
  then have "execute_op op k = ExecutePutOpOnKVDB op k"
    by (auto simp: execute_op_def is_write_def ExecuteAppend_eq bindr_def split: sum.splits)
  then show ?thesis
    using True ExecutePut_spec[OF assms, of op] by (auto simp: spec_apply_def duplicate_seen)
next
  case False
  then have "(if \<not> ifRequestDuplicate (ClientId op) (RequestId op) k then execute_op op k else Inr k) = Inr k"
    by (auto simp: execute_op_def is_write_def)
  moreover have "spec_apply op (kv_abs k) = kv_abs k" using False by (auto simp: spec_apply_def duplicate_seen)
  ultimately show ?thesis using wf by (auto simp: store_frame_def)
qed

section \<open>Snapshots and wait channels\<close>

lemma dump_ok: "skip_wf sl \<Longrightarrow> \<exists>d. dump_file L sl = Inr d"
  using dump_file_spec by (auto simp: skip_wf_def)

lemma MakeSnapShot_spec:
  assumes "skip_wf (m_skipList k)"
  shows "\<exists>d. dump_file L (m_skipList k) = Inr d \<and>
    MakeSnapShot L k = Inr (lib_kv_out L \<lparr>ka_serializedKVData = d, ka_lastRequestId = m_lastRequestId k\<rparr>,
      k\<lparr>m_serializedKVData := []\<rparr>)"
  using dump_ok[OF assms, of L] by (auto simp: MakeSnapShot_def getSnapshotData_def)

lemma Raft_Snapshot_total:
  assumes "raft_wf r"
  shows "\<exists>r'. Raft_Snapshot L i s r = Inr r' \<and> raft_wf r' \<and> applyChan r' = applyChan r"
proof -
  obtain r' where r': "Raft_Snapshot L i s r = Inr r'" "raft_wf r'"
  proof (cases "m_lastSnapshotIncludeIndex r < i \<and> i \<le> m_commitIndex r")
    case True
    then show ?thesis using that Raft_Snapshot_spec[OF assms, of i L s] by auto
  next
    case False
    then have "Raft_Snapshot L i s r = Inr r" by (intro Raft_Snapshot_ignored) auto
    then show ?thesis using that assms by blast
  qed
  moreover have "applyChan r' = applyChan r"
    using r'(1) by (auto simp: Raft_Snapshot_def Let_def bindr_eq_Inr split: if_splits)
  ultimately show ?thesis by blast
qed

text \<open>What a snapshot in between leaves alone.\<close>

definition raft_frame :: "KvServer \<Rightarrow> KvServer \<Rightarrow> bool" where
  "raft_frame k k' \<longleftrightarrow> m_skipList k' = m_skipList k \<and> m_lastRequestId k' = m_lastRequestId k \<and>
     rand_src k' = rand_src k \<and> waitApplyCh k' = waitApplyCh k \<and> chans k' = chans k \<and>
     next_chan k' = next_chan k \<and> m_maxRaftState k' = m_maxRaftState k \<and>
     m_lastSnapShotRaftLogIndex k' = m_lastSnapShotRaftLogIndex k \<and>
     applyChan (m_raftNode k') = applyChan (m_raftNode k)"

lemma snapshot_section:
  assumes sl: "skip_wf (m_skipList k)" and r: "raft_wf (m_raftNode k)"
  shows "\<exists>k'. IfNeedToSendSnapShotCommand L i p k = Inr k' \<and> raft_wf (m_raftNode k') \<and> raft_frame k k'"
proof (cases "10 * GetRaftStateSize (m_raftNode k) > m_maxRaftState k")
  case True
  obtain s where s: "MakeSnapShot L k = Inr (s, k\<lparr>m_serializedKVData := []\<rparr>)"
    using MakeSnapShot_spec[OF sl, of L] by blast
  obtain r' where "Raft_Snapshot L i s (m_raftNode k) = Inr r'" "raft_wf r'" "applyChan r' = applyChan (m_raftNode k)"
    using Raft_Snapshot_total[OF r] by blast
  then show ?thesis using True s by (simp add: IfNeedToSendSnapShotCommand_def raft_frame_def)
next
  case False
  then show ?thesis using r by (simp add: IfNeedToSendSnapShotCommand_def raft_frame_def)
qed

text \<open>The queue of an index, if a request waits for it.\<close>

definition chan_at :: "KvServer \<Rightarrow> int \<Rightarrow> Op list option" where
  "chan_at k i = (case waitApplyCh k i of None \<Rightarrow> None | Some ch \<Rightarrow> map_option m_queue (chans k ch))"

lemma Send_spec:
  assumes "\<And>i ch. waitApplyCh k i = Some ch \<Longrightarrow> chans k ch \<noteq> None"
  shows "\<exists>k'. SendMessageToWaitChan op i k = Inr (waitApplyCh k i \<noteq> None, k') \<and>
    (\<forall>j ch. waitApplyCh k' j = Some ch \<longrightarrow> chans k' ch \<noteq> None) \<and>
    chan_at k' i = map_option (\<lambda>q. q @ [op]) (chan_at k i) \<and>
    k' = k\<lparr>chans := chans k'\<rparr>"
proof (cases "waitApplyCh k i")
  case None
  then show ?thesis using assms by (auto simp: SendMessageToWaitChan_def chan_at_def)
next
  case (Some ch)
  then obtain q where "chans k ch = Some q" using assms by blast
  then show ?thesis using assms Some by (auto simp: SendMessageToWaitChan_def chan_at_def)
qed

section \<open>One command\<close>

text \<open>A message that carries operation \<open>op\<close> and is not covered by an installed snapshot.\<close>

definition carries :: "lib \<Rightarrow> KvServer \<Rightarrow> ApplyMsg \<Rightarrow> Op \<Rightarrow> bool" where
  "carries L k msg op \<longleftrightarrow> CommandValid msg \<and> \<not> SnapshotValid msg \<and> Command msg = asString L op \<and>
     m_lastSnapShotRaftLogIndex k < CommandIndex msg"

lemma GetCommandFromRaft_spec:
  assumes L: "lib_ok L" and wf: "kv_wf k" and ev: "0 < evens (rand_src k)" and c: "carries L k msg op"
  shows "\<exists>k'. GetCommandFromRaft L msg k = Inr k' \<and> kv_wf k' \<and> kv_abs k' = spec_apply op (kv_abs k) \<and>
    evens (rand_src k) \<le> Suc (evens (rand_src k')) \<and> waitApplyCh k' = waitApplyCh k \<and>
    chan_at k' (CommandIndex msg) = map_option (\<lambda>q. q @ [op]) (chan_at k (CommandIndex msg)) \<and>
    m_lastSnapShotRaftLogIndex k' = m_lastSnapShotRaftLogIndex k \<and>
    applyChan (m_raftNode k') = applyChan (m_raftNode k)"
proof -
  note D = kv_wfD[OF wf]
  have parse: "op_parseFromString L (Command msg) = Inr op" "\<not> CommandIndex msg \<le> m_lastSnapShotRaftLogIndex k"
    using c op_roundtrip[OF L] by (auto simp: carries_def)
  obtain k1 where 1: "(if \<not> ifRequestDuplicate (ClientId op) (RequestId op) k then execute_op op k else Inr k) = Inr k1"
    "skip_wf (m_skipList k1)" "store_frame k k1" "kv_abs k1 = spec_apply op (kv_abs k)"
    "evens (rand_src k) \<le> Suc (evens (rand_src k1))"
    using execute_op_spec[OF D(1) ev, of op] by blast
  note F1 = 1(3)[unfolded store_frame_def]
  obtain k2 where 2: "(if m_maxRaftState k1 \<noteq> -1 then IfNeedToSendSnapShotCommand L (CommandIndex msg) 9 k1 else Inr k1) = Inr k2"
    "raft_wf (m_raftNode k2)" "raft_frame k1 k2"
  proof (cases "m_maxRaftState k1 \<noteq> -1")
    case True
    then show ?thesis using that snapshot_section[OF 1(2), of L "CommandIndex msg" 9] D(2) F1 by auto
  next
    case False
    then show ?thesis using that[of k1] D(2) F1 by (simp add: raft_frame_def)
  qed
  note F2 = 2(3)[unfolded raft_frame_def]
  have w2: "waitApplyCh k2 i = Some ch \<Longrightarrow> chans k2 ch \<noteq> None" for i ch using D(3) F1 F2 by simp
  obtain k3 where 3: "SendMessageToWaitChan op (CommandIndex msg) k2 = Inr (waitApplyCh k2 (CommandIndex msg) \<noteq> None, k3)"
    "\<forall>j ch. waitApplyCh k3 j = Some ch \<longrightarrow> chans k3 ch \<noteq> None"
    "chan_at k3 (CommandIndex msg) = map_option (\<lambda>q. q @ [op]) (chan_at k2 (CommandIndex msg))" "k3 = k2\<lparr>chans := chans k3\<rparr>"
    using Send_spec[of k2 op "CommandIndex msg"] w2 by blast
  have "GetCommandFromRaft L msg k = Inr k3"
    using parse 1(1) 2(1) 3(1) by (simp add: GetCommandFromRaft_def)
  moreover have "m_skipList k3 = m_skipList k2" "m_raftNode k3 = m_raftNode k2" "m_lastRequestId k3 = m_lastRequestId k2"
    "rand_src k3 = rand_src k2" "waitApplyCh k3 = waitApplyCh k2"
    "m_lastSnapShotRaftLogIndex k3 = m_lastSnapShotRaftLogIndex k2"
    by (subst 3(4); simp)+
  moreover have "chan_at k2 = chan_at k" using F1 F2 by (auto simp: chan_at_def split: option.split)
  ultimately show ?thesis
    using 1 2(2) 3(2,3) F1 F2 by (simp add: kv_wf_def kv_abs_def)
qed

section \<open>The apply loop\<close>

lemma handle_command:
  assumes "lib_ok L" and "kv_wf k" and "0 < evens (rand_src k)" and "carries L k msg op"
  shows "handle_message L msg k = GetCommandFromRaft L msg k"
  using assms(4) GetCommandFromRaft_spec[OF assms] by (auto simp: handle_message_def carries_def)

definition take_msg :: "KvServer \<Rightarrow> KvServer" where
  "take_msg k = k\<lparr>m_raftNode := (m_raftNode k)\<lparr>applyChan := (applyChan (m_raftNode k))\<lparr>m_queue := tl (m_queue (applyChan (m_raftNode k)))\<rparr>\<rparr>\<rparr>"

lemma take_msg_simps [simp]:
  "m_skipList (take_msg k) = m_skipList k" "waitApplyCh (take_msg k) = waitApplyCh k" "chans (take_msg k) = chans k"
  "m_lastRequestId (take_msg k) = m_lastRequestId k" "rand_src (take_msg k) = rand_src k"
  "m_lastSnapShotRaftLogIndex (take_msg k) = m_lastSnapShotRaftLogIndex k"
  "m_queue (applyChan (m_raftNode (take_msg k))) = tl (m_queue (applyChan (m_raftNode k)))"
  "raft_wf (m_raftNode (take_msg k)) = raft_wf (m_raftNode k)"
  "kv_abs (take_msg k) = kv_abs k"
  by (simp_all add: take_msg_def raft_wf_def kv_abs_def)

lemma take_msg_wf [simp]: "kv_wf (take_msg k) = kv_wf k"
  by (simp add: kv_wf_def)

lemma carries_take [simp]: "carries L (take_msg k) = carries L k"
  by (simp add: carries_def fun_eq_iff)

lemma turn_spec:
  assumes "lib_ok L" and "kv_wf k" and "0 < evens (rand_src k)" and "carries L k msg op"
  shows "\<exists>k'. handle_message L msg (take_msg k) = Inr k' \<and> kv_wf k' \<and> kv_abs k' = spec_apply op (kv_abs k) \<and>
    evens (rand_src k) \<le> Suc (evens (rand_src k')) \<and> carries L k' = carries L k \<and>
    m_queue (applyChan (m_raftNode k')) = tl (m_queue (applyChan (m_raftNode k)))"
proof -
  have a: "kv_wf (take_msg k)" "0 < evens (rand_src (take_msg k))" "carries L (take_msg k) msg op" using assms by simp_all
  from GetCommandFromRaft_spec[OF assms(1) a] handle_command[OF assms(1) a] show ?thesis
    by (fastforce simp: carries_def fun_eq_iff)
qed

interpretation kvm: replicated
  "\<lambda>k. lib_ok L \<and> kv_wf k" kv_abs "\<lambda>k. evens (rand_src k)" "\<lambda>msg k. handle_message L msg (take_msg k)"
  "carries L" spec_apply for L
proof unfold_locales
  fix s m x
  assume "lib_ok L \<and> kv_wf s" "0 < evens (rand_src s)" "carries L s m x"
  then show "\<exists>s'. handle_message L m (take_msg s) = Inr s' \<and> (lib_ok L \<and> kv_wf s') \<and> kv_abs s' = spec_apply x (kv_abs s) \<and>
      evens (rand_src s) \<le> Suc (evens (rand_src s')) \<and> (\<forall>m' x'. carries L s m' x' \<longrightarrow> carries L s' m' x')"
    using turn_spec[of L s m x] by auto
qed

lemma loop_exec_all:
  "lib_ok L \<Longrightarrow> kv_wf k \<Longrightarrow> length msgs \<le> evens (rand_src k) \<Longrightarrow> list_all2 (carries L k) msgs ops \<Longrightarrow>
   m_queue (applyChan (m_raftNode k)) = msgs @ rest \<Longrightarrow>
   ReadRaftApplyCommandLoop L (length msgs) k = kvm.exec_all L msgs k \<and>
   (\<forall>k'. kvm.exec_all L msgs k = Inr k' \<longrightarrow> m_queue (applyChan (m_raftNode k')) = rest)"
proof (induction msgs arbitrary: k ops)
  case (Cons msg msgs)
  obtain op ops' where ops: "carries L k msg op" "list_all2 (carries L k) msgs ops'"
    using Cons.prems(4) by (auto simp: list_all2_Cons1)
  have "0 < evens (rand_src k)" using Cons.prems(3) by auto
  from turn_spec[OF Cons.prems(1,2) this ops(1)] obtain k1 where
    1: "handle_message L msg (take_msg k) = Inr k1" "kv_wf k1" "evens (rand_src k) \<le> Suc (evens (rand_src k1))"
      "carries L k1 = carries L k" "m_queue (applyChan (m_raftNode k1)) = msgs @ rest"
    using Cons.prems(5) by auto
  have pop: "pop_now (applyChan (m_raftNode k)) = Some (msg, (applyChan (m_raftNode k))\<lparr>m_queue := msgs @ rest\<rparr>)"
    "k\<lparr>m_raftNode := (m_raftNode k)\<lparr>applyChan := (applyChan (m_raftNode k))\<lparr>m_queue := msgs @ rest\<rparr>\<rparr>\<rparr> = take_msg k"
    using Cons.prems(5) by (simp_all add: pop_now_eq take_msg_def)
  have "ReadRaftApplyCommandLoop L (length msgs) k1 = kvm.exec_all L msgs k1 \<and>
     (\<forall>k'. kvm.exec_all L msgs k1 = Inr k' \<longrightarrow> m_queue (applyChan (m_raftNode k')) = rest)"
    using Cons.IH[OF Cons.prems(1) 1(2) _ _ 1(5), of ops'] 1(3,4) ops(2) Cons.prems(3) by simp
  then show ?case using pop 1(1) by simp
qed simp

lemma loop_refines:
  assumes "lib_ok L" and "kv_wf k" and "length msgs \<le> evens (rand_src k)" and "list_all2 (carries L k) msgs ops"
    and "m_queue (applyChan (m_raftNode k)) = msgs @ rest"
  shows "\<exists>k'. ReadRaftApplyCommandLoop L (length msgs) k = Inr k' \<and> kv_wf k' \<and>
    m_queue (applyChan (m_raftNode k')) = rest \<and> kv_abs k' = fold spec_apply ops (kv_abs k)"
  using loop_exec_all[OF assms] kvm.run_sim[of L k msgs ops] assms(1-4) by auto

section \<open>A small server\<close>

definition demo_op :: "string \<Rightarrow> string \<Rightarrow> int \<Rightarrow> Op" where
  "demo_op operation v i = \<lparr>Operation = operation, Key = ''k'', Value = v, ClientId = ''c'', RequestId = i\<rparr>"

definition demo_msg :: "Op \<Rightarrow> int \<Rightarrow> ApplyMsg" where
  "demo_msg op i = new_ApplyMsg\<lparr>CommandValid := True, Command := asString demo_lib op, CommandIndex := i\<rparr>"

definition demo_kv :: "ApplyMsg list \<Rightarrow> KvServer" where
  "demo_kv msgs = \<lparr>kv_me = 0, m_raftNode = demo_node\<lparr>applyChan := \<lparr>m_queue = msgs\<rparr>\<rparr>, m_maxRaftState = 500,
     m_serializedKVData = [], m_skipList = demo_sl, waitApplyCh = [3 \<mapsto> 0], chans = [0 \<mapsto> empty_queue],
     next_chan = 1, m_lastRequestId = [], m_lastSnapShotRaftLogIndex = 0, rand_src = [0, 0, 0, 0]\<rparr>"

lemma demo_kv_wf: "kv_wf (demo_kv msgs)"
  using demo_sl_wf(1) demo_wf(1) by (simp add: kv_wf_def demo_kv_def raft_wf_def)

lemma demo_kv_simps:
  "m_queue (applyChan (m_raftNode (demo_kv msgs))) = msgs" "evens (rand_src (demo_kv msgs)) = 4"
  "kv_abs (demo_kv msgs) = ([''k'' \<mapsto> ''v''], Map.empty)"
  by (simp_all add: demo_kv_def evens_def kv_abs_def demo_sl_wf(2))

lemma demo_carries: "1 \<le> i \<Longrightarrow> carries demo_lib (demo_kv msgs) (demo_msg op i) op"
  by (simp add: carries_def demo_msg_def demo_kv_def new_ApplyMsg_def)

section \<open>Properties\<close>

text \<open>
  C8: The apply loop of a server refines the replicated state machine: on any sequence of
  committed operations it ends without a fault, has emptied the channel, keeps its invariant,
  and its contents and request table are those of \<open>spec_apply\<close> folded over the operations,
  whatever levels the skip list draws and whenever it compacts the log in between.
\<close>

theorem apply_loop_refines:
  assumes "lib_ok L" and "kv_wf k" and "m_queue (applyChan (m_raftNode k)) = msgs"
    and "list_all2 (carries L k) msgs ops" and "length msgs \<le> evens (rand_src k)"
  shows "\<exists>k'. ReadRaftApplyCommandLoop L (length msgs) k = Inr k' \<and> kv_wf k' \<and>
    m_queue (applyChan (m_raftNode k')) = [] \<and> kv_abs k' = fold spec_apply ops (kv_abs k)"
  using loop_refines[OF assms(1,2,5,4), of "[]"] assms(3) by simp

theorem apply_loop_refines_witness:
  "\<exists>k'. ReadRaftApplyCommandLoop demo_lib 2
       (demo_kv [demo_msg (demo_op ''Put'' ''a'' 1) 3, demo_msg (demo_op ''Append'' ''b'' 2) 4]) = Inr k' \<and>
     kv_abs k' = ([''k'' \<mapsto> ''b''], [''c'' \<mapsto> 2])"
proof -
  let ?o1 = "demo_op ''Put'' ''a'' 1" and ?o2 = "demo_op ''Append'' ''b'' 2"
  let ?ms = "[demo_msg ?o1 3, demo_msg ?o2 4]"
  have "list_all2 (carries demo_lib (demo_kv ?ms)) ?ms [?o1, ?o2]" by (simp add: demo_carries)
  from apply_loop_refines[OF demo_lib_ok demo_kv_wf demo_kv_simps(1) this] show ?thesis
    by (auto simp: demo_kv_simps spec_apply_def is_write_def seen_def demo_op_def numeral_2_eq_2)
qed





text \<open>
  C31: Installing the snapshot of another server restores its request table but not its
  contents: every key of the snapshot that the receiver lacks is stored with itself as its
  value, and every key it has keeps its own, possibly outdated, value.
\<close>

theorem snapshot_install_contents:
  assumes "lib_ok L" and "skip_wf (m_skipList k)" and "skip_wf (m_skipList k2)"
    and "nat (sl_size (m_skipList k)) \<le> evens (rand_src k2)"
  shows "\<exists>s k1 k3. MakeSnapShot L k = Inr (s, k1) \<and> ReadSnapShotToInstall L s k2 = Inr k3 \<and>
    m_lastRequestId k3 = m_lastRequestId k \<and> skip_wf (m_skipList k3) \<and>
    sl_map (m_skipList k3) = (\<lambda>x. map_option (\<lambda>_. x) (sl_map (m_skipList k) x)) ++ sl_map (m_skipList k2)"
proof -
  obtain as where ok: "chain_ok (m_skipList k) as" using assms(2) by (auto simp: skip_wf_def)
  let ?ps = "pairs (sl_heap (m_skipList k)) as"
  let ?d = "lib_dump_out L \<lparr>keyDumpVt = map fst ?ps, valDumpVt = map snd ?ps\<rparr>"
  let ?s = "lib_kv_out L \<lparr>ka_serializedKVData = ?d, ka_lastRequestId = m_lastRequestId k\<rparr>"
  have mk: "MakeSnapShot L k = Inr (?s, k\<lparr>m_serializedKVData := []\<rparr>)"
    by (simp add: MakeSnapShot_def getSnapshotData_def dump_file_spec[OF ok])
  have "length (map fst ?ps) \<le> evens (rand_src k2)"
    using assms(4) chain_okD(7)[OF ok] by (simp add: sl_size_def pairs_def)
  from load_keys_spec[OF assms(3) this] obtain sl rs where
    l: "load_keys (m_skipList k2) (map fst ?ps) (rand_src k2) = Inr (sl, rs)" "skip_wf sl"
      "sl_map sl = (\<lambda>x. if x \<in> set (map fst ?ps) then Some x else None) ++ sl_map (m_skipList k2)"
    by blast
  have "load_file L ?d (m_skipList k2) (rand_src k2) = Inr (sl, rs)"
    using assms(1) l(1) by (simp add: load_file_def lib_ok_def)
  then have "\<exists>k3. ReadSnapShotToInstall L ?s k2 = Inr k3 \<and> m_lastRequestId k3 = m_lastRequestId k \<and> m_skipList k3 = sl"
    using assms(1) by (simp add: ReadSnapShotToInstall_def kv_parseFromString_def lib_ok_def)
  moreover have "(\<lambda>x. if x \<in> set (map fst ?ps) then Some x else None) = (\<lambda>x. map_option (\<lambda>_. x) (sl_map (m_skipList k) x))"
  proof
    fix x
    show "(if x \<in> set (map fst ?ps) then Some x else None) = map_option (\<lambda>_. x) (sl_map (m_skipList k) x)"
      by (cases "map_of ?ps x") (auto simp: sl_map_chain[OF ok] map_of_eq_None_iff dest: map_of_SomeD intro: rev_image_eqI)
  qed
  ultimately show ?thesis using mk l(2,3) by auto
qed

theorem snapshot_install_contents_witness:
  "\<exists>s k1 k3. MakeSnapShot demo_lib (demo_kv []) = Inr (s, k1) \<and>
     ReadSnapShotToInstall demo_lib s ((demo_kv [])\<lparr>m_skipList := new_SkipList [] [] 6\<rparr>) = Inr k3 \<and>
     sl_map (m_skipList (demo_kv [])) = [''k'' \<mapsto> ''v''] \<and> sl_map (m_skipList k3) = [''k'' \<mapsto> ''k'']"
proof -
  let ?k2 = "(demo_kv [])\<lparr>m_skipList := new_SkipList [] [] 6\<rparr>"
  have sz: "nat (sl_size (m_skipList (demo_kv []))) \<le> evens (rand_src ?k2)" by code_simp
  have wf: "skip_wf (m_skipList (demo_kv []))" "skip_wf (m_skipList ?k2)"
    and m: "sl_map (m_skipList (demo_kv [])) = [''k'' \<mapsto> ''v'']" "sl_map (m_skipList ?k2) = Map.empty"
    using demo_sl_wf by (simp_all add: demo_kv_def)
  have e: "(\<lambda>x. map_option (\<lambda>_. x) ([''k'' \<mapsto> ''v''] x)) ++ Map.empty = [''k'' \<mapsto> ''k'']" by (auto simp: fun_eq_iff)
  from snapshot_install_contents[OF demo_lib_ok wf sz] obtain s k1 k3 where
    "MakeSnapShot demo_lib (demo_kv []) = Inr (s, k1)" "ReadSnapShotToInstall demo_lib s ?k2 = Inr k3"
    "sl_map (m_skipList k3) = [''k'' \<mapsto> ''k'']"
    unfolding m e by blast
  then show ?thesis using m(1) by blast
qed

end
