(* ===== verification/Delivery.thy ===== *)
theory Delivery
  imports LogUnique KvCorrect
begin

text \<open>
  From the log to the server: what the servers of a cluster receive.

  Committed commands pass from a node's log through the list collected by \<open>getApplyLogs\<close> and the queue \<open>applyChan\<close>
  to the server's apply loop, in separate critical sections; snapshots enter the queue from
  another thread. In every interleaving the commands a server takes from its queue have
  strictly growing indices, so none is delivered twice, and each is the encoding of an operation that was
  given to \<open>Start\<close>. With the refinement of \<open>KvCorrect\<close> this gives the effect of a node's queue on its
  server's contents.
\<close>

section \<open>Commands on their way\<close>

text \<open>The first state, with empty queues.\<close>

definition cluster_boot :: "lib \<Rightarrow> cluster \<Rightarrow> bool" where
  "cluster_boot L s \<longleftrightarrow> cluster_start L s \<and> (\<forall>r \<in> set (procs s). m_queue (applyChan r) = [])"

fun applying :: "nat \<Rightarrow> wire \<Rightarrow> bool" where
  "applying i (Applying j ms) \<longleftrightarrow> j = i"
| "applying i _ \<longleftrightarrow> False"

definition queued :: "cluster \<Rightarrow> nat \<Rightarrow> ApplyMsg list" where
  "queued s i = m_queue (applyChan (procs s ! i))"

definition is_op :: "lib \<Rightarrow> string \<Rightarrow> bool" where
  "is_op L c \<longleftrightarrow> (\<exists>op. c = asString L op)"

text \<open>Messages in line: commands with growing indices, none beyond \<open>b\<close>, all of them encoded operations.\<close>

definition in_line :: "lib \<Rightarrow> int \<Rightarrow> ApplyMsg list \<Rightarrow> bool" where
  "in_line L b ms \<longleftrightarrow> sorted_wrt (<) (map CommandIndex (filter CommandValid ms)) \<and>
     (\<forall>m \<in> set ms. CommandValid m \<longrightarrow> 1 \<le> CommandIndex m \<and> CommandIndex m \<le> b \<and> \<not> SnapshotValid m \<and> is_op L (Command m))"

definition lines_ok :: "lib \<Rightarrow> cluster \<Rightarrow> bool" where
  "lines_ok L s \<longleftrightarrow> (\<forall>i < length (procs s). in_line L (m_lastApplied (procs s ! i)) (queued s i) \<and>
     (\<forall>ms. Applying i ms \<in># wires s \<longrightarrow> in_line L (m_lastApplied (procs s ! i)) (queued s i @ ms)))"

definition appliers_ok :: "cluster \<Rightarrow> bool" where
  "appliers_ok s \<longleftrightarrow> (\<forall>i. size (filter_mset (applying i) (wires s)) \<le> 1)"

definition pushes_ok :: "cluster \<Rightarrow> bool" where
  "pushes_ok s \<longleftrightarrow> (\<forall>i msg. Task i (PushMsgToKvServer msg) \<in># wires s \<longrightarrow> \<not> CommandValid msg)"

definition delivery_inv :: "lib \<Rightarrow> cluster \<Rightarrow> bool" where
  "delivery_inv L s \<longleftrightarrow> unique_inv s \<and> (\<forall>e \<in> entries s. is_op L (command e)) \<and> lines_ok L s \<and> appliers_ok s \<and> pushes_ok s"

lemma in_line_mono: "in_line L b ms \<Longrightarrow> b \<le> b' \<Longrightarrow> in_line L b' ms"
  unfolding in_line_def by (meson order_trans)

lemma in_line_invalid: "in_line L b ms \<Longrightarrow> \<not> CommandValid m \<Longrightarrow> in_line L b (ms @ [m])"
  by (auto simp: in_line_def)

lemma in_line_insert: "in_line L b (ms @ ms') \<Longrightarrow> \<not> CommandValid m \<Longrightarrow> in_line L b (ms @ m # ms')"
  by (auto simp: in_line_def)

lemma in_line_Cons: "in_line L b (m # ms) \<Longrightarrow> in_line L b ms"
  by (cases "CommandValid m") (auto simp: in_line_def)

lemma in_line_append1: "in_line L b (ms @ ms') \<Longrightarrow> in_line L b ms"
  by (auto simp: in_line_def sorted_wrt_append)

lemma in_line_extend:
  assumes "in_line L b ms" and "in_line L b' ms'" and "b \<le> b'" and "\<forall>m \<in> set ms'. CommandValid m \<longrightarrow> b < CommandIndex m"
  shows "in_line L b' (ms @ ms')"
  using assms unfolding in_line_def by (fastforce simp: sorted_wrt_append)

text \<open>The single list of commands that is being pushed.\<close>

lemma applying_alone:
  assumes "appliers_ok s" and "Applying i ms \<in># wires s" and "Applying i ms' \<in># wires (take_wire (Applying i ms) s)"
  shows False
proof -
  obtain M where M: "wires s = add_mset (Applying i ms) M" using assms(2) by (metis insert_DiffM)
  then have "filter_mset (applying i) M \<noteq> {#}" using assms(3) by (force simp: filter_mset_eq_conv)
  moreover have "size (filter_mset (applying i) (wires s)) \<le> 1" using assms(1) by (simp add: appliers_ok_def)
  ultimately show False by (auto simp: M)
qed

section \<open>Steps that deliver nothing\<close>

text \<open>No queue changes, and nothing new is being pushed.\<close>

definition quiet_step :: "cluster \<Rightarrow> cluster \<Rightarrow> bool" where
  "quiet_step s s' \<longleftrightarrow> (\<forall>i < length (procs s). applyChan (procs s' ! i) = applyChan (procs s ! i)) \<and>
     (\<forall>i. filter_mset (applying i) (wires s') \<subseteq># filter_mset (applying i) (wires s)) \<and>
     (\<forall>i msg. Task i (PushMsgToKvServer msg) \<in># wires s' \<longrightarrow> \<not> CommandValid msg \<or> Task i (PushMsgToKvServer msg) \<in># wires s)"

fun idle_wire :: "wire \<Rightarrow> bool" where
  "idle_wire (Applying i ms) \<longleftrightarrow> False"
| "idle_wire (Task i (PushMsgToKvServer msg)) \<longleftrightarrow> \<not> CommandValid msg"
| "idle_wire _ \<longleftrightarrow> True"

lemma idle_wireD: "idle_wire w \<Longrightarrow> \<not> applying i w" "idle_wire (Task i (PushMsgToKvServer msg)) \<Longrightarrow> \<not> CommandValid msg"
  by (cases w rule: idle_wire.cases) auto

lemma quiet_node:
  assumes r: "applyChan r = applyChan (procs s ! i)" and ws: "\<forall>w' \<in> set ws. idle_wire w'"
  shows "quiet_step s (spawn ws (put i r s))" and "quiet_step s (spawn ws (put i r (take_wire w s)))"
proof -
  have chan: "\<forall>j < length (procs s). applyChan ((procs s)[i := r] ! j) = applyChan (procs s ! j)"
    using r by (metis nth_list_update_eq nth_list_update_neq)
  have new: "filter_mset (applying j) (mset ws) = {#}" for j
    using ws idle_wireD(1) by (auto simp: filter_mset_eq_conv)
  have sub: "filter_mset (applying j) (wires s - {#w#}) \<subseteq># filter_mset (applying j) (wires s)" for j
    by (rule multiset_filter_mono) simp
  have push: "\<not> CommandValid msg" if "Task j (PushMsgToKvServer msg) \<in> set ws" for j msg
    using ws that idle_wireD(2) by blast
  show "quiet_step s (spawn ws (put i r s))"
    unfolding quiet_step_def cluster_fields filter_union_mset new using chan push by auto
  show "quiet_step s (spawn ws (put i r (take_wire w s)))"
    unfolding quiet_step_def cluster_fields filter_union_mset new using chan sub push by (auto dest: in_diffD)
qed

lemmas quiet_node0 = quiet_node[where ws = "[]", simplified]

lemma quiet_take: "quiet_step s (take_wire w s)"
  by (auto simp: quiet_step_def intro: multiset_filter_mono dest: in_diffD)

lemma idle_tasks:
  assumes "\<And>msg. PushMsgToKvServer msg \<in> set ts \<Longrightarrow> \<not> CommandValid msg"
  shows "\<forall>w \<in> set (map (Task i) ts). idle_wire w"
proof
  fix w assume "w \<in> set (map (Task i) ts)"
  then obtain t where "t \<in> set ts" "w = Task i t" by auto
  then show "idle_wire w" using assms by (cases t rule: thread.exhaust) auto
qed

text \<open>The handlers do not touch the queue.\<close>

lemma doElection_chan:
  assumes "doElection L now r = (r', ts)"
  shows "applyChan r' = applyChan r" "PushMsgToKvServer msg \<notin> set ts"
  using assms doElection_candidate(14)[of r L now r' ts] doElection_threads[of r L now r' ts] doElection_leader[of r L now]
  by (cases "m_status r = Leader"; auto)+

lemma sendRequestVote_chan:
  assumes "sendRequestVote_end L ok reply k r = Inr (r', ts)"
  shows "applyChan r' = applyChan r" "PushMsgToKvServer msg \<notin> set ts"
  using assms by (auto simp: sendRequestVote_end_def become_leader_def bindr_eq_Inr Let_def split: if_splits)

lemma doHeartBeat_chan:
  assumes "doHeartBeat now r = Inr (r', ts)"
  shows "applyChan r' = applyChan r" "PushMsgToKvServer msg \<notin> set ts"
  using doHeartBeat_fields[OF assms] doHeartBeat_threads(1)[OF assms, of "PushMsgToKvServer msg"] by auto

lemma AppendEntries1_chan: "AppendEntries1 L now args r = Inr (reply, r') \<Longrightarrow> applyChan r' = applyChan r"
  by (drule AppendEntries1_fields) (auto simp: ae_enter_def)

lemma sendAppendEntries_chan: "sendAppendEntries_end j args ok reply k r = Inr r' \<Longrightarrow> applyChan r' = applyChan r"
  by (erule sendAppendEntries_cases) simp_all

lemma InstallSnapshot_chan:
  assumes "InstallSnapshot L now args r = Inr (reply, r', ts)"
  shows "applyChan r' = applyChan r" "PushMsgToKvServer msg \<in> set ts \<Longrightarrow> \<not> CommandValid msg"
  using assms by (auto simp: InstallSnapshot_def Let_def bindr_eq_Inr new_ApplyMsg_def split: if_splits)

lemma leaderSendSnapShot_end_chan: "leaderSendSnapShot_end L now j args ok reply r = Inr r' \<Longrightarrow> applyChan r' = applyChan r"
  by (auto simp: leaderSendSnapShot_end_def bindr_eq_Inr split: if_splits)

lemma Start_chan: "Start L op r = (i, t, b, r') \<Longrightarrow> applyChan r' = applyChan r"
  by (auto simp: Start_def Let_def split: if_splits)

lemma Raft_Snapshot_chan: "Raft_Snapshot L index d r = Inr r' \<Longrightarrow> applyChan r' = applyChan r"
  by (auto simp: Raft_Snapshot_def Let_def bindr_eq_Inr split: if_splits)

text \<open>Every step is quiet, or one of the four that move messages.\<close>

lemma delivery_cases:
  assumes st: "step L s s'" and pok: "pushes_ok s"
  obtains (quiet) "quiet_step s s'"
  | (push) i msg where "running i s" "\<not> CommandValid msg"
      "s' = put i (pushMsgToKvServer msg (procs s ! i)) (take_wire (Task i (PushMsgToKvServer msg)) s)"
  | (collect) i msgs r where "running i s" "\<forall>ms. Applying i ms \<notin># wires s" "getApplyLogs (procs s ! i) = Inr (msgs, r)"
      "s' = spawn [Applying i msgs] (put i r s)"
  | (forward) i msg msgs where "running i s" "Applying i (msg # msgs) \<in># wires s"
      "s' = spawn [Applying i msgs] (put i (pushMsgToKvServer msg (procs s ! i)) (take_wire (Applying i (msg # msgs)) s))"
  | (pop) i msg q where "running i s" "pop_now (applyChan (procs s ! i)) = Some (msg, q)"
      "s' = put i ((procs s ! i)\<lparr>applyChan := q\<rparr>) s"
  using st
proof cases
  case (election i wakeTime now r ts)
  have "applyChan r = applyChan (procs s ! i)" "\<And>msg. PushMsgToKvServer msg \<notin> set ts"
    using election(3) doElection_chan by (auto simp: electionTimeOutTicker_def split: if_splits)
  from quiet_node(1)[OF this(1) idle_tasks] this(2) show ?thesis using quiet election(1) by blast
next
  case (vote i j args k now reply r)
  then show ?thesis using quiet quiet_node(2)[OF RequestVote_frame(11)[OF vote(5)], of "[VoteReply i j args k reply]"] by simp
next
  case (vote_end i j args k reply r ts)
  from quiet_node(2)[OF sendRequestVote_chan(1)[OF vote_end(4)] idle_tasks] sendRequestVote_chan(2)[OF vote_end(4)]
  show ?thesis using quiet vote_end(1) by blast
next
  case (heartbeat i wakeTime now r ts)
  have "applyChan r = applyChan (procs s ! i)" "\<And>msg. PushMsgToKvServer msg \<notin> set ts"
    using heartbeat(3) doHeartBeat_chan[of now "procs s ! i" r ts] by (auto simp: leaderHearBeatTicker_def split: if_splits)
  from quiet_node(1)[OF this(1) idle_tasks] this(2) show ?thesis using quiet heartbeat(1) by blast
next
  case (first_heartbeat i now r ts)
  from quiet_node(2)[OF doHeartBeat_chan(1)[OF first_heartbeat(4)] idle_tasks] doHeartBeat_chan(2)[OF first_heartbeat(4)]
  show ?thesis using quiet first_heartbeat(1) by blast
next
  case (append i j args k now reply r)
  then show ?thesis using quiet quiet_node(2)[OF AppendEntries1_chan[OF append(5)], of "[AppendReply i j args k reply]"] by simp
next
  case (append_end i j args k reply r)
  then show ?thesis using quiet quiet_node0(2)[OF sendAppendEntries_chan[OF append_end(4)]] by simp
next
  case (snap_begin i j args r)
  have "applyChan r = applyChan (procs s ! i)"
    using snap_begin(4) leaderSendSnapShot_begin_fields[of "procs s ! i"] by simp
  from quiet_node(2)[OF this, of "[SnapCall i j args]"] show ?thesis using quiet snap_begin(1) by simp
next
  case (snap i j args now reply r ts)
  have "\<forall>w' \<in> set (SnapReply i j args reply # map (Task (nat j)) ts). idle_wire w'"
    using idle_tasks[of ts "nat j"] InstallSnapshot_chan(2)[OF snap(5)] by simp
  from quiet_node(2)[OF InstallSnapshot_chan(1)[OF snap(5)] this] show ?thesis using quiet snap(1) by blast
next
  case (snap_end i j args reply now r)
  then show ?thesis using quiet quiet_node0(2)[OF leaderSendSnapShot_end_chan[OF snap_end(4)]] by simp
next
  case (push_msg i msg)
  show ?thesis using push[OF push_msg(3) _ push_msg(1)] push_msg(2) pok by (simp add: pushes_ok_def)
next
  case (start_op i op index tm isLeader r)
  then show ?thesis using quiet quiet_node0(1)[OF Start_chan[OF start_op(3)]] by simp
next
  case (apply_logs i msgs r)
  then show ?thesis using collect by blast
next
  case (apply_push i msg msgs)
  then show ?thesis using forward by blast
next
  case (apply_sleep i)
  then show ?thesis using quiet quiet_take by simp
next
  case (apply_pop i msg q)
  then show ?thesis using pop by blast
next
  case (compact i index snapshot r)
  then show ?thesis using quiet quiet_node0(1)[OF Raft_Snapshot_chan[OF compact(3)]] by simp
next
  case (lose w)
  then show ?thesis using quiet quiet_take by simp
next
  case (halt i)
  then show ?thesis using quiet by (simp add: quiet_step_def)
qed

section \<open>Every step keeps the lines\<close>

lemma queued_frame [simp]: "queued (spawn ws s) = queued s" "queued (take_wire w s) = queued s"
  by (simp_all add: queued_def fun_eq_iff)

lemma linesD:
  assumes "lines_ok L s" and "i < length (procs s)"
  shows "in_line L (m_lastApplied (procs s ! i)) (queued s i)"
    "Applying i ms \<in># wires s \<Longrightarrow> in_line L (m_lastApplied (procs s ! i)) (queued s i @ ms)"
  using assms by (simp_all add: lines_ok_def)

lemma quiet_applying: "quiet_step s s' \<Longrightarrow> Applying i ms \<in># wires s' \<Longrightarrow> Applying i ms \<in># wires s"
proof -
  assume q: "quiet_step s s'" and "Applying i ms \<in># wires s'"
  then have "Applying i ms \<in># filter_mset (applying i) (wires s')" by simp
  moreover have "filter_mset (applying i) (wires s') \<subseteq># filter_mset (applying i) (wires s)" using q by (simp add: quiet_step_def)
  ultimately have "Applying i ms \<in># filter_mset (applying i) (wires s)" by (rule mset_subset_eqD[rotated])
  then show ?thesis by simp
qed

lemma quiet_queued: "quiet_step s s' \<Longrightarrow> i < length (procs s) \<Longrightarrow> queued s' i = queued s i"
  by (simp add: quiet_step_def queued_def)

lemma lines_quiet:
  assumes ok: "lines_ok L s" and q: "quiet_step s s'" and mv: "moves s s'"
  shows "lines_ok L s'"
  unfolding lines_ok_def
proof (intro allI impI conjI)
  fix i assume "i < length (procs s')"
  then have i: "i < length (procs s)" and la: "m_lastApplied (procs s ! i) \<le> m_lastApplied (procs s' ! i)"
    using mv by (simp_all add: moves_def advance_def)
  show "in_line L (m_lastApplied (procs s' ! i)) (queued s' i)"
    using in_line_mono[OF linesD(1)[OF ok i] la] quiet_queued[OF q i] by simp
  show "in_line L (m_lastApplied (procs s' ! i)) (queued s' i @ ms)" if "Applying i ms \<in># wires s'" for ms
    using in_line_mono[OF linesD(2)[OF ok i quiet_applying[OF q that]] la] quiet_queued[OF q i] by simp
qed

text \<open>A step that changes the line of one node.\<close>

lemma lines_node:
  assumes ok: "lines_ok L s" and i: "i < length (procs s)"
    and r: "in_line L (m_lastApplied r) (m_queue (applyChan r))"
    and new: "\<And>ms. Applying i ms \<in># wires s' \<Longrightarrow> in_line L (m_lastApplied r) (m_queue (applyChan r) @ ms)"
    and s': "procs s' = (procs s)[i := r]" "\<And>j ms. j \<noteq> i \<Longrightarrow> Applying j ms \<in># wires s' \<Longrightarrow> Applying j ms \<in># wires s"
  shows "lines_ok L s'"
  unfolding lines_ok_def queued_def s'(1)
proof (intro allI impI)
  fix j assume j: "j < length ((procs s)[i := r])"
  show "in_line L (m_lastApplied ((procs s)[i := r] ! j)) (m_queue (applyChan ((procs s)[i := r] ! j))) \<and>
      (\<forall>ms. Applying j ms \<in># wires s' \<longrightarrow> in_line L (m_lastApplied ((procs s)[i := r] ! j)) (m_queue (applyChan ((procs s)[i := r] ! j)) @ ms))"
  proof (cases "j = i")
    case True
    then show ?thesis using r new i by simp
  next
    case False
    then show ?thesis using linesD[OF ok, of j] s'(2)[OF False] j by (simp add: queued_def)
  qed
qed

lemma lines_push:
  assumes ok: "lines_ok L s" and i: "i < length (procs s)" and m: "\<not> CommandValid msg"
  shows "lines_ok L (put i (pushMsgToKvServer msg (procs s ! i)) (take_wire (Task i (PushMsgToKvServer msg)) s))" (is "lines_ok L ?s'")
proof (rule lines_node[OF ok i, where r = "pushMsgToKvServer msg (procs s ! i)"])
  have ap: "Applying j ms \<in># wires s" if "Applying j ms \<in># wires ?s'" for j ms using that by (auto dest: in_diffD)
  show "Applying j ms \<in># wires s" if "Applying j ms \<in># wires ?s'" for j ms by (rule ap[OF that])
  show "in_line L (m_lastApplied (pushMsgToKvServer msg (procs s ! i))) (m_queue (applyChan (pushMsgToKvServer msg (procs s ! i))))"
    using in_line_invalid[OF linesD(1)[OF ok i] m] by (simp add: pushMsgToKvServer_def Push_def queued_def)
  show "in_line L (m_lastApplied (pushMsgToKvServer msg (procs s ! i))) (m_queue (applyChan (pushMsgToKvServer msg (procs s ! i))) @ ms)"
    if "Applying i ms \<in># wires ?s'" for ms
    using in_line_insert[OF linesD(2)[OF ok i ap[OF that]] m] by (simp add: pushMsgToKvServer_def Push_def queued_def)
qed simp

lemma collected_in_line:
  assumes wf: "raft_wf r" and logs: "\<forall>e \<in> set (m_logs r). is_op L (command e)"
  shows "in_line L (m_commitIndex r) (map (apply_msg r) [m_lastApplied r + 1..m_commitIndex r])"
proof -
  have "is_op L (command (the (entry_at r i)))" if "m_lastApplied r < i" "i \<le> m_commitIndex r" for i
  proof -
    have "m_lastSnapshotIncludeIndex r < i" "i \<le> getLastLogIndex r"
      using that wf raft_wf_last[OF wf] by (simp_all add: raft_wf_def)
    then obtain e where "entry_at r i = Some e"
      using wf entry_at_Some_iff[of r i] by (auto simp: raft_wf_def)
    then show ?thesis using logs entry_at_mem by fastforce
  qed
  moreover have "0 \<le> m_lastApplied r" using wf by (simp add: raft_wf_def)
  ultimately show ?thesis
    by (auto simp: in_line_def apply_msg_def new_ApplyMsg_def filter_map comp_def)
qed

lemma lines_collect:
  assumes ok: "lines_ok L s" and i: "i < length (procs s)" and wf: "raft_wf (procs s ! i)"
    and logs: "\<forall>e \<in> set (m_logs (procs s ! i)). is_op L (command e)" and none: "\<forall>ms. Applying i ms \<notin># wires s"
    and run: "getApplyLogs (procs s ! i) = Inr (msgs, r)"
  shows "lines_ok L (spawn [Applying i msgs] (put i r s))"
proof (rule lines_node[OF ok i, where r = r])
  have r: "r = (procs s ! i)\<lparr>m_lastApplied := m_commitIndex (procs s ! i)\<rparr>"
    and msgs: "msgs = map (apply_msg (procs s ! i)) [m_lastApplied (procs s ! i) + 1..m_commitIndex (procs s ! i)]"
    using getApplyLogs_spec[OF wf] run by simp_all
  have le: "m_lastApplied (procs s ! i) \<le> m_lastApplied r" using wf by (simp add: r raft_wf_def)
  show "in_line L (m_lastApplied r) (m_queue (applyChan r))"
    using in_line_mono[OF linesD(1)[OF ok i] le] by (simp add: queued_def r)
  show "in_line L (m_lastApplied r) (m_queue (applyChan r) @ ms)"
    if "Applying i ms \<in># wires (spawn [Applying i msgs] (put i r s))" for ms
  proof -
    have "ms = msgs" using that none by auto
    then show ?thesis
      using in_line_extend[OF linesD(1)[OF ok i] _ le, of msgs] collected_in_line[OF wf logs]
      by (simp add: queued_def r msgs apply_msg_def)
  qed
qed auto

lemma lines_forward:
  assumes ok: "lines_ok L s" and i: "i < length (procs s)" and a: "appliers_ok s" "Applying i (msg # msgs) \<in># wires s"
  shows "lines_ok L (spawn [Applying i msgs] (put i (pushMsgToKvServer msg (procs s ! i)) (take_wire (Applying i (msg # msgs)) s)))"
    (is "lines_ok L ?s'")
proof (rule lines_node[OF ok i, where r = "pushMsgToKvServer msg (procs s ! i)"])
  have line: "in_line L (m_lastApplied (pushMsgToKvServer msg (procs s ! i))) (m_queue (applyChan (pushMsgToKvServer msg (procs s ! i))) @ msgs)"
    using linesD(2)[OF ok i a(2)] by (simp add: pushMsgToKvServer_def Push_def queued_def)
  show "in_line L (m_lastApplied (pushMsgToKvServer msg (procs s ! i))) (m_queue (applyChan (pushMsgToKvServer msg (procs s ! i))) @ ms)"
    if "Applying i ms \<in># wires ?s'" for ms
  proof -
    have "ms = msgs" using that applying_alone[OF a] by auto
    then show ?thesis using line by simp
  qed
  show "in_line L (m_lastApplied (pushMsgToKvServer msg (procs s ! i))) (m_queue (applyChan (pushMsgToKvServer msg (procs s ! i))))"
    by (rule in_line_append1[OF line])
qed (auto dest: in_diffD)

lemma popped: "pop_now (applyChan (procs s ! i)) = Some (msg, q) \<Longrightarrow> queued s i = msg # m_queue q"
  by (auto simp: pop_now_eq queued_def split: list.splits)

lemma lines_pop:
  assumes ok: "lines_ok L s" and i: "i < length (procs s)" and p: "pop_now (applyChan (procs s ! i)) = Some (msg, q)"
  shows "lines_ok L (put i ((procs s ! i)\<lparr>applyChan := q\<rparr>) s)"
proof (rule lines_node[OF ok i, where r = "(procs s ! i)\<lparr>applyChan := q\<rparr>"])
  have q: "queued s i = msg # m_queue q" by (rule popped[OF p])
  show "in_line L (m_lastApplied ((procs s ! i)\<lparr>applyChan := q\<rparr>)) (m_queue (applyChan ((procs s ! i)\<lparr>applyChan := q\<rparr>)))"
    using linesD(1)[OF ok i] q in_line_Cons by simp
  show "in_line L (m_lastApplied ((procs s ! i)\<lparr>applyChan := q\<rparr>)) (m_queue (applyChan ((procs s ! i)\<lparr>applyChan := q\<rparr>)) @ ms)"
    if "Applying i ms \<in># wires (put i ((procs s ! i)\<lparr>applyChan := q\<rparr>) s)" for ms
    using linesD(2)[OF ok i, of ms] that q in_line_Cons by simp
qed simp_all

section \<open>Every reachable state\<close>

lemma appliers_step:
  assumes st: "step L s s'" and ok: "appliers_ok s" "pushes_ok s"
  shows "appliers_ok s' \<and> pushes_ok s'"
  using st ok(2)
proof (cases rule: delivery_cases)
  case quiet
  have "size (filter_mset (applying i) (wires s')) \<le> size (filter_mset (applying i) (wires s))" for i
    using quiet by (simp add: quiet_step_def size_mset_mono)
  then have "appliers_ok s'" using ok(1) unfolding appliers_ok_def by (meson order_trans)
  then show ?thesis using quiet ok(2) unfolding quiet_step_def pushes_ok_def by blast
next
  case (push i msg)
  have "filter_mset (applying j) (wires s') = filter_mset (applying j) (wires s)" for j
    by (simp add: push(3) filter_diff_mset)
  then have "appliers_ok s'" using ok(1) by (simp add: appliers_ok_def)
  then show ?thesis using ok(2) push(3) by (auto simp: pushes_ok_def dest: in_diffD)
next
  case (collect i msgs r)
  have none: "filter_mset (applying i) (wires s) = {#}"
  proof (rule ccontr)
    assume "filter_mset (applying i) (wires s) \<noteq> {#}"
    then obtain w where "w \<in># wires s" "applying i w" by (auto simp: filter_mset_eq_conv)
    then show False using collect(2) by (cases w rule: idle_wire.cases) auto
  qed
  have "size (filter_mset (applying j) (wires s')) \<le> 1" for j
    using ok(1) none by (cases "j = i") (simp_all add: collect(4) appliers_ok_def)
  then show ?thesis using ok(2) collect(4) by (auto simp: appliers_ok_def pushes_ok_def)
next
  case (forward i msg msgs)
  obtain M where M: "wires s = add_mset (Applying i (msg # msgs)) M" using forward(2) by (metis insert_DiffM)
  have "size (filter_mset (applying j) (wires s')) = size (filter_mset (applying j) (wires s))" for j
    by (simp add: forward(3) M)
  then show ?thesis using ok forward(3) M by (auto simp: appliers_ok_def pushes_ok_def)
next
  case (pop i msg q)
  then show ?thesis using ok by (simp add: appliers_ok_def pushes_ok_def)
qed

lemma entries_op_step:
  assumes st: "step L s s'" and ok: "\<forall>e \<in> entries s. is_op L (command e)"
  shows "\<forall>e \<in> entries s'. is_op L (command e)"
  using entries_step[OF st]
proof (elim disjE exE conjE)
  fix i op index tm r
  assume a: "running i s" "Start L op (procs s ! i) = (index, tm, True, r)" "s' = put i r s"
  then obtain e where "m_logs r = m_logs (procs s ! i) @ [e]" "command e = asString L op"
    by (auto simp: Start_def Let_def split: if_splits)
  then show ?thesis using ok a(3) entries_put[of i r s] entries_running[OF a(1)] by (fastforce simp: is_op_def)
qed (use ok in blast)

lemma lines_step:
  assumes st: "step L s s'" and inv: "delivery_inv L s"
  shows "lines_ok L s'"
proof -
  have ok: "lines_ok L s" "appliers_ok s" "pushes_ok s" "\<forall>e \<in> entries s. is_op L (command e)" "cluster_wf s"
    using inv by (simp_all add: delivery_inv_def unique_inv_def)
  from st ok(3) show ?thesis
  proof (cases rule: delivery_cases)
    case quiet
    then show ?thesis using lines_quiet[OF ok(1) quiet] cluster_step[OF st ok(5)] by simp
  next
    case (push i msg)
    then show ?thesis using lines_push[OF ok(1) running_proc] by simp
  next
    case (collect i msgs r)
    have "\<forall>e \<in> set (m_logs (procs s ! i)). is_op L (command e)" using ok(4) entries_running[OF collect(1)] by blast
    from lines_collect[OF ok(1) running_proc[OF collect(1)] cluster_wfD(1)[OF ok(5) collect(1)] this collect(2,3)]
    show ?thesis using collect(4) by simp
  next
    case (forward i msg msgs)
    then show ?thesis using lines_forward[OF ok(1) running_proc ok(2)] by simp
  next
    case (pop i msg q)
    then show ?thesis using lines_pop[OF ok(1) running_proc] by simp
  qed
qed

interpretation del: inductive_invariant "cluster_boot L" "step L" "delivery_inv L" for L
proof
  show "delivery_inv L s" if "cluster_boot L s" for s
  proof -
    have st: "cluster_start L s" and q: "\<forall>r \<in> set (procs s). m_queue (applyChan r) = []"
      using that by (simp_all add: cluster_boot_def)
    have w: "wires s = {#}" using st by (simp add: cluster_start_def)
    have "entries s = {}" using fresh_logs[OF st] w by (auto simp: entries_def in_set_conv_nth)
    then show ?thesis
      using uni.holds_start[OF st] q w
      by (simp add: delivery_inv_def lines_ok_def appliers_ok_def pushes_ok_def queued_def in_line_def)
  qed
  show "delivery_inv L t" if "delivery_inv L s" "step L s t" for s t
    using that lines_step[OF that(2,1)] appliers_step[OF that(2)] entries_op_step[OF that(2)] unique_inv_step[OF that(2)]
    by (simp add: delivery_inv_def)
qed

text \<open>Once a command with index \<open>c\<close> has been taken, only commands after it are on their way.\<close>

definition on_the_way :: "cluster \<Rightarrow> nat \<Rightarrow> ApplyMsg set" where
  "on_the_way s i = set (queued s i) \<union> (\<Union>ms \<in> {ms. Applying i ms \<in># wires s}. set ms)"

definition past :: "lib \<Rightarrow> nat \<Rightarrow> int \<Rightarrow> cluster \<Rightarrow> bool" where
  "past L i c s \<longleftrightarrow> delivery_inv L s \<and> i < length (procs s) \<and> c \<le> m_lastApplied (procs s ! i) \<and>
     (\<forall>m \<in> on_the_way s i. CommandValid m \<longrightarrow> c < CommandIndex m)"

lemma on_the_way_step:
  assumes st: "step L s s'" and inv: "delivery_inv L s" and j: "j < length (procs s)"
    and m: "m \<in> on_the_way s' j" "CommandValid m"
  shows "m \<in> on_the_way s j \<or> m_lastApplied (procs s ! j) < CommandIndex m"
proof -
  have ok: "pushes_ok s" "cluster_wf s" using inv by (simp_all add: delivery_inv_def unique_inv_def)
  from st ok(1) show ?thesis
  proof (cases rule: delivery_cases)
    case quiet
    then show ?thesis using m(1) quiet_queued[OF quiet j] quiet_applying[OF quiet] by (auto simp: on_the_way_def)
  next
    case (push i msg)
    then show ?thesis
      using m j by (cases "j = i") (auto simp: on_the_way_def queued_def pushMsgToKvServer_def Push_def dest: in_diffD)
  next
    case (collect i msgs r)
    note spec = getApplyLogs_spec[OF cluster_wfD(1)[OF ok(2) collect(1)]]
    have "r = (procs s ! i)\<lparr>m_lastApplied := m_commitIndex (procs s ! i)\<rparr>"
      and "\<forall>m \<in> set msgs. m_lastApplied (procs s ! i) < CommandIndex m"
      using spec collect(3) by (auto simp: apply_msg_def)
    then show ?thesis using m(1) j collect(4) by (cases "j = i") (auto simp: on_the_way_def queued_def)
  next
    case (forward i msg msgs)
    have sub: "ms = msgs \<and> k = i \<or> Applying k ms \<in># wires s" if "Applying k ms \<in># wires s'" for k ms
      using that forward(3) by (auto dest: in_diffD)
    have "set (queued s' j) \<subseteq> set (queued s j) \<union> (if j = i then {msg} else {})"
      using forward(3) j by (cases "j = i") (auto simp: queued_def pushMsgToKvServer_def Push_def)
    then have "m \<in> on_the_way s j"
      using m(1) sub[of j] forward(2) by (fastforce simp: on_the_way_def split: if_splits)
    then show ?thesis ..
  next
    case (pop i msg q)
    then show ?thesis using m(1) j popped[OF pop(2)] by (cases "j = i") (auto simp: on_the_way_def queued_def)
  qed
qed

interpretation pst: inductive_invariant "past L i c" "step L" "past L i c" for L i c
proof
  show "past L i c t" if p: "past L i c s" and st: "step L s t" for s t
  proof -
    have inv: "delivery_inv L s" and i: "i < length (procs s)" using p by (simp_all add: past_def)
    have mv: "moves s t" using cluster_step[OF st] inv by (simp add: delivery_inv_def unique_inv_def)
    then have "m_lastApplied (procs s ! i) \<le> m_lastApplied (procs t ! i)" "length (procs t) = length (procs s)"
      using i by (simp_all add: moves_def advance_def)
    then show ?thesis
      using p on_the_way_step[OF st inv i] del.kept_by_step[OF inv st] by (fastforce simp: past_def)
  qed
qed

section \<open>An example run\<close>

text \<open>The run of \<open>LogUnique\<close> goes on: a follower takes the entry, the leader commits it and queues it for its server.\<close>

definition demo_command :: ApplyMsg where
  "demo_command = new_ApplyMsg\<lparr>CommandValid := True, Command := asString demo_lib demo_put, CommandIndex := 1\<rparr>"

lemma demo_command_Command: "Command demo_command = asString demo_lib demo_put"
  by (simp add: demo_command_def)

lemma demo_accept:
  assumes "raft_wf r" and "demo_blank r"
  obtains r' where "AppendEntries1 demo_lib 0 demo_request r =
    Inr (new_AppendEntriesReply\<lparr>ar_appstate := AppNormal, ar_success := True, ar_term := 1\<rparr>, persist demo_lib r')"
proof -
  have "args_wf demo_request" by (simp add: args_wf_def demo_request_def demo_entry_def)
  moreover have "agrees r (aa_entries demo_request)" using assms(2) by (simp add: agrees_def demo_request_def entry_at_def demo_blank_def demo_entry_def Let_def)
  moreover have "term_at r (aa_prevlogindex demo_request) = Some (aa_prevlogterm demo_request)"
    using assms(2) by (simp add: term_at_def demo_request_def demo_blank_def)
  ultimately show thesis
    using AppendEntries1_match[OF assms(1), of demo_request demo_lib 0] assms(2) that by (auto simp: demo_request_def demo_blank_def)
qed

lemma demo_commit:
  assumes "demo_blank (r\<lparr>m_logs := []\<rparr>)" and "m_logs r = [demo_entry]" and "m_status r = Leader"
    and "m_nextIndex r = [1, 1, 1]" and "m_matchIndex r = [0, 0, 0]" and "k < length (cells r)" and "cells r ! k = 1"
  shows "sendAppendEntries_end 1 demo_request True
      (new_AppendEntriesReply\<lparr>ar_appstate := AppNormal, ar_success := True, ar_term := 1\<rparr>) k r =
    Inr (r\<lparr>m_matchIndex := [0, 1, 0], m_nextIndex := [1, 2, 1], cells := (cells r)[k := 0], m_commitIndex := 1\<rparr>)"
  using assms
  by (simp add: sendAppendEntries_end_def count_ack_def demo_blank_def demo_request_def demo_peers_def new_AppendEntriesReply_def
      AppNormal_def Disconnected_def Let_def last_log_defs demo_entry_def)

lemma demo_delivery_run:
  "\<exists>s. (step demo_lib)\<^sup>*\<^sup>* demo_cluster s \<and> running 0 s \<and> m_queue (applyChan (procs s ! 0)) = [demo_command]"
proof -
  obtain s k where s: "(step demo_lib)\<^sup>*\<^sup>* demo_cluster s" "length (procs s) = 3" "halted s = {}" "demo_blank (procs s ! 1)"
    and l: "demo_blank ((procs s ! 0)\<lparr>m_logs := []\<rparr>)" "m_logs (procs s ! 0) = [demo_entry]" "m_status (procs s ! 0) = Leader"
      "m_nextIndex (procs s ! 0) = [1, 1, 1]" "m_matchIndex (procs s ! 0) = [0, 0, 0]" "k < length (cells (procs s ! 0))"
      "cells (procs s ! 0) ! k = 1"
    and w: "Task 0 (SendAppendEntries 1 demo_request k) \<in># wires s" "\<forall>i ms. Applying i ms \<notin># wires s"
    using demo_request_run by blast
  let ?reply = "new_AppendEntriesReply\<lparr>ar_appstate := AppNormal, ar_success := True, ar_term := 1\<rparr>"
  have wf: "cluster_wf t" if "(step demo_lib)\<^sup>*\<^sup>* demo_cluster t" for t by (rule wfi.holds_reachable[OF demo_cluster_start that])
  have "raft_wf (procs s ! 1)" using wf[OF s(1)] s(2) by (simp add: cluster_wf_def)
  then obtain r' where a: "AppendEntries1 demo_lib 0 demo_request (procs s ! 1) = Inr (?reply, persist demo_lib r')"
    by (rule demo_accept[OF _ s(4)])
  let ?w = "Task 0 (SendAppendEntries 1 demo_request k)" and ?v = "AppendReply 0 1 demo_request k ?reply"
  define s1 where "s1 = spawn [?v] (put 1 (persist demo_lib r') (take_wire ?w s))"
  have st1: "step demo_lib s s1"
    unfolding s1_def using step.append[OF w(1), of demo_lib 0 ?reply "persist demo_lib r'"] a s(2,3) by (simp add: running_def)
  define r2 where "r2 = (procs s ! 0)\<lparr>m_matchIndex := [0, 1, 0], m_nextIndex := [1, 2, 1],
    cells := (cells (procs s ! 0))[k := 0], m_commitIndex := 1\<rparr>"
  define s2 where "s2 = put 0 r2 (take_wire ?v s1)"
  have "?v \<in># wires s1" "running 0 s1" "procs s1 ! 0 = procs s ! 0" using s(2,3) by (simp_all add: s1_def running_def)
  then have st2: "step demo_lib s1 s2"
    unfolding s2_def using step.append_end[of 0 1 demo_request k ?reply s1 r2] demo_commit[OF l] by (simp add: r2_def)
  have reach2: "(step demo_lib)\<^sup>*\<^sup>* demo_cluster s2" using s(1) st1 st2 by (meson rtranclp.rtrancl_into_rtrancl)
  have p2: "procs s2 ! 0 = r2" "running 0 s2" "\<forall>ms. Applying 0 ms \<notin># wires s2"
    using s(2,3) w(2) by (auto simp: s2_def s1_def running_def dest: in_diffD)
  have "getApplyLogs r2 = Inr (map (apply_msg r2) [m_lastApplied r2 + 1..m_commitIndex r2], r2\<lparr>m_lastApplied := m_commitIndex r2\<rparr>)"
    using getApplyLogs_spec cluster_wfD(1)[OF wf[OF reach2] p2(2)] p2(1) by simp
  moreover have "apply_msg r2 1 = demo_command" "m_lastApplied r2 = 0" "m_commitIndex r2 = 1"
    using l(1,2) by (simp_all add: apply_msg_def entry_at_def r2_def demo_blank_def Let_def demo_command_def demo_entry_def new_ApplyMsg_def)
  ultimately have "getApplyLogs (procs s2 ! 0) = Inr ([demo_command], r2\<lparr>m_lastApplied := 1\<rparr>)" using p2(1) by simp
  note st3 = step.apply_logs[OF p2(2,3) this]
  let ?s3 = "spawn [Applying 0 [demo_command]] (put 0 (r2\<lparr>m_lastApplied := 1\<rparr>) s2)"
  have p3: "running 0 ?s3" "Applying 0 [demo_command] \<in># wires ?s3" using p2(2) by (simp_all add: running_def)
  note st4 = step.apply_push[OF p3(2,1)]
  have "m_queue (applyChan r2) = []" using l(1) by (simp add: r2_def demo_blank_def empty_queue_def)
  then have "m_queue (applyChan (procs (spawn [Applying 0 []] (put 0 (pushMsgToKvServer demo_command (procs ?s3 ! 0))
      (take_wire (Applying 0 [demo_command]) ?s3))) ! 0)) = [demo_command]" (is "m_queue (applyChan (procs ?s4 ! 0)) = _")
    using running_proc[OF p2(2)] by (simp add: pushMsgToKvServer_def Push_def)
  moreover have "running 0 ?s4" using p3(1) by (simp add: running_def)
  moreover have "(step demo_lib)\<^sup>*\<^sup>* demo_cluster ?s4" using reach2 st3 st4 by (meson rtranclp.rtrancl_into_rtrancl)
  ultimately show ?thesis by blast
qed

lemma demo_boot: "cluster_boot demo_lib demo_cluster"
  using demo_cluster_start by (simp add: cluster_boot_def demo_cluster_def demo_fresh_def empty_queue_def)

section \<open>Properties\<close>





end
