(* ===== verification/ClusterRun.thy ===== *)
theory ClusterRun
  imports Delivery
begin

text \<open>
  Runs of a cluster by evaluation, and a run in which two servers disagree.

  \<open>step\<close> relates states; here is an executable form of it. An event says what happens next: a timer of
  a node expires, a client's operation reaches a node, the newest request or reply between two nodes
  arrives, a node hands on committed entries. \<open>exec\<close> computes the state after an event with the
  functions of the nodes, and \<open>run_reachable\<close> shows that every state computed this way is reachable in
  the transition system; the clock stands still at 0, which the code allows.

  The run at the end is a consequence of one line of \<open>AppendEntries1\<close> (src/src/raftCore/raft.cpp, the
  loop over the received entries): on a conflict the entry is replaced and the entries after it stay.
\<close>

section \<open>Events\<close>

datatype event =
  Timeout nat
| Beat nat
| Request nat Op
| Deliver nat int
| Return nat int
| Collect nat
| Push nat
| Compact nat int string

type_synonym sim = "Raft list \<times> wire list"

fun opt_res :: "'a res \<Rightarrow> 'a option" where
  "opt_res (Inl e) = None"
| "opt_res (Inr x) = Some x"

definition at_node :: "Raft list \<Rightarrow> nat \<Rightarrow> (Raft \<Rightarrow> (Raft \<times> wire list) option) \<Rightarrow> sim option" where
  "at_node ps i f = (if i < length ps then map_option (\<lambda>(r, ws). (ps[i := r], ws)) (f (ps ! i)) else None)"

definition with_tasks :: "nat \<Rightarrow> (Raft \<times> thread list) option \<Rightarrow> (Raft \<times> wire list) option" where
  "with_tasks i = map_option (\<lambda>(r, ts). (r, map (Task i) ts))"

text \<open>What becomes of something under way when it is its turn.\<close>

fun move :: "lib \<Rightarrow> Raft list \<Rightarrow> wire \<Rightarrow> sim option" where
  "move L ps (Task i (SendRequestVote j args k)) = (if j < 0 then None else at_node ps (nat j) (\<lambda>r.
     map_option (\<lambda>(reply, r'). (r', [VoteReply i j args k reply])) (opt_res (RequestVote L 0 args r))))"
| "move L ps (VoteReply i j args k reply) =
     at_node ps i (\<lambda>r. with_tasks i (opt_res (sendRequestVote_end L True reply k r)))"
| "move L ps (Task i DoHeartBeat) = at_node ps i (\<lambda>r. with_tasks i (opt_res (doHeartBeat 0 r)))"
| "move L ps (Task i (SendAppendEntries j args k)) = (if j < 0 then None else at_node ps (nat j) (\<lambda>r.
     map_option (\<lambda>(reply, r'). (r', [AppendReply i j args k reply])) (opt_res (AppendEntries1 L 0 args r))))"
| "move L ps (AppendReply i j args k reply) =
     at_node ps i (\<lambda>r. map_option (\<lambda>r'. (r', [])) (opt_res (sendAppendEntries_end j args True reply k r)))"
| "move L ps (Task i (LeaderSendSnapShot j)) =
     at_node ps i (\<lambda>r. case leaderSendSnapShot_begin r of (args, r') \<Rightarrow> Some (r', [SnapCall i j args]))"
| "move L ps (SnapCall i j args) = (if j < 0 then None else at_node ps (nat j) (\<lambda>r.
     map_option (\<lambda>(reply, r', ts). (r', SnapReply i j args reply # map (Task (nat j)) ts)) (opt_res (InstallSnapshot L 0 args r))))"
| "move L ps (SnapReply i j args reply) =
     at_node ps i (\<lambda>r. map_option (\<lambda>r'. (r', [])) (opt_res (leaderSendSnapShot_end L 0 j args True reply r)))"
| "move L ps (Task i (PushMsgToKvServer msg)) = at_node ps i (\<lambda>r. Some (pushMsgToKvServer msg r, []))"
| "move L ps (Applying i (msg # msgs)) = at_node ps i (\<lambda>r. Some (pushMsgToKvServer msg r, [Applying i msgs]))"
| "move L ps (Applying i []) = at_node ps i (\<lambda>r. Some (r, []))"

definition move_first :: "lib \<Rightarrow> (wire \<Rightarrow> bool) \<Rightarrow> sim \<Rightarrow> sim option" where
  "move_first L P s = (case List.extract P (snd s) of
     None \<Rightarrow> None
   | Some (us, w, vs) \<Rightarrow> map_option (\<lambda>(ps, ws). (ps, ws @ us @ vs)) (move L (fst s) w))"

definition begin_at :: "nat \<Rightarrow> (Raft \<Rightarrow> (Raft \<times> wire list) option) \<Rightarrow> sim \<Rightarrow> sim option" where
  "begin_at i f s = map_option (\<lambda>(ps, ws). (ps, ws @ snd s)) (at_node (fst s) i f)"

fun is_request :: "nat \<Rightarrow> int \<Rightarrow> wire \<Rightarrow> bool" where
  "is_request i j (Task i' (SendRequestVote j' args k)) \<longleftrightarrow> i' = i \<and> j' = j"
| "is_request i j (Task i' (SendAppendEntries j' args k)) \<longleftrightarrow> i' = i \<and> j' = j"
| "is_request i j (SnapCall i' j' args) \<longleftrightarrow> i' = i \<and> j' = j"
| "is_request i j _ \<longleftrightarrow> False"

fun is_reply :: "nat \<Rightarrow> int \<Rightarrow> wire \<Rightarrow> bool" where
  "is_reply i j (VoteReply i' j' args k reply) \<longleftrightarrow> i' = i \<and> j' = j"
| "is_reply i j (AppendReply i' j' args k reply) \<longleftrightarrow> i' = i \<and> j' = j"
| "is_reply i j (SnapReply i' j' args reply) \<longleftrightarrow> i' = i \<and> j' = j"
| "is_reply i j _ \<longleftrightarrow> False"

fun exec :: "lib \<Rightarrow> event \<Rightarrow> sim \<Rightarrow> sim option" where
  "exec L (Timeout i) s = begin_at i (\<lambda>r. with_tasks i (Some (electionTimeOutTicker L 0 0 r))) s"
| "exec L (Beat i) s = begin_at i (\<lambda>r. with_tasks i (opt_res (leaderHearBeatTicker 0 0 r))) s"
| "exec L (Request i op) s = begin_at i (\<lambda>r. case Start L op r of (_, _, _, r') \<Rightarrow> Some (r', [])) s"
| "exec L (Deliver i j) s = move_first L (is_request i j) s"
| "exec L (Return i j) s = move_first L (is_reply i j) s"
| "exec L (Collect i) s = (if list_ex (applying i) (snd s) then None else
     begin_at i (\<lambda>r. map_option (\<lambda>(msgs, r'). (r', [Applying i msgs])) (opt_res (getApplyLogs r))) s)"
| "exec L (Push i) s = move_first L (applying i) s"
| "exec L (Compact i index snapshot) s =
     begin_at i (\<lambda>r. map_option (\<lambda>r'. (r', [])) (opt_res (Raft_Snapshot L index snapshot r))) s"

fun run :: "lib \<Rightarrow> event list \<Rightarrow> sim \<Rightarrow> sim option" where
  "run L [] s = Some s"
| "run L (e # es) s = (case exec L e s of None \<Rightarrow> None | Some s' \<Rightarrow> run L es s')"

section \<open>Evaluated runs are runs\<close>

text \<open>The cluster state behind a simulated one; the history of votes is left open.\<close>

definition shows_state :: "cluster \<Rightarrow> sim \<Rightarrow> bool" where
  "shows_state s x \<longleftrightarrow> procs s = fst x \<and> wires s = mset (snd x) \<and> halted s = {}"

lemma opt_res_Some [simp]: "opt_res x = Some y \<longleftrightarrow> x = Inr y"
  by (cases x) auto

lemma at_node_Some:
  "at_node ps i f = Some (ps', ws) \<longleftrightarrow> (\<exists>r. i < length ps \<and> f (ps ! i) = Some (r, ws) \<and> ps' = ps[i := r])"
  by (auto simp: at_node_def)

lemma with_tasks_Some: "with_tasks i x = Some (r, ws) \<longleftrightarrow> (\<exists>ts. x = Some (r, ts) \<and> ws = map (Task i) ts)"
  by (auto simp: with_tasks_def)

text \<open>A step uses up \<open>old\<close>, leaves the nodes \<open>ps\<close> and starts \<open>ws\<close>.\<close>

definition leads_to :: "lib \<Rightarrow> cluster \<Rightarrow> wire multiset \<Rightarrow> sim \<Rightarrow> bool" where
  "leads_to L s old x \<longleftrightarrow>
     (\<exists>s'. step L s s' \<and> procs s' = fst x \<and> wires s' = wires s - old + mset (snd x) \<and> halted s' = halted s)"

lemma leads_to_moved:
  "step L s (spawn ws (put i r (take_wire w s))) \<Longrightarrow> leads_to L s {#w#} ((procs s)[i := r], ws)"
  unfolding leads_to_def by (intro exI conjI) (assumption, simp_all)

lemma leads_to_begun:
  "step L s (spawn ws (put i r s)) \<Longrightarrow> leads_to L s {#} ((procs s)[i := r], ws)"
  unfolding leads_to_def by (intro exI conjI) (assumption, simp_all)

lemmas leads_to_moved0 = leads_to_moved[where ws = "[]", unfolded spawn_Nil]
lemmas leads_to_begun0 = leads_to_begun[where ws = "[]", unfolded spawn_Nil]

lemma move_sound:
  assumes m: "move L (procs s) w = Some (ps, ws)" and w: "w \<in># wires s" and h: "halted s = {}"
  shows "leads_to L s {#w#} (ps, ws)"
  using m w
proof (cases "(L, procs s, w)" rule: move.cases)
  case (1 L' ps' i j args k)
  then show ?thesis using m w h
    by (auto simp: at_node_Some running_def split: if_splits intro!: leads_to_moved step.vote)
next
  case (2 L' ps' i j args k reply)
  then show ?thesis using m w h
    by (auto simp: at_node_Some with_tasks_Some running_def intro!: leads_to_moved step.vote_end)
next
  case (3 L' ps' i)
  then show ?thesis using m w h
    by (auto simp: at_node_Some with_tasks_Some running_def intro!: leads_to_moved step.first_heartbeat)
next
  case (4 L' ps' i j args k)
  then show ?thesis using m w h
    by (auto simp: at_node_Some running_def split: if_splits intro!: leads_to_moved step.append)
next
  case (5 L' ps' i j args k reply)
  then show ?thesis using m w h
    by (auto simp: at_node_Some running_def intro!: leads_to_moved0 step.append_end)
next
  case (6 L' ps' i j)
  then show ?thesis using m w h
    by (auto simp: at_node_Some running_def split: prod.splits intro!: leads_to_moved step.snap_begin)
next
  case (7 L' ps' i j args)
  then show ?thesis using m w h
    by (auto simp: at_node_Some running_def split: if_splits intro!: leads_to_moved step.snap)
next
  case (8 L' ps' i j args reply)
  then show ?thesis using m w h
    by (auto simp: at_node_Some running_def intro!: leads_to_moved0 step.snap_end)
next
  case (9 L' ps' i msg)
  then show ?thesis using m w h
    by (auto simp: at_node_Some running_def intro!: leads_to_moved0 step.push_msg)
next
  case (10 L' ps' i msg msgs)
  then show ?thesis using m w h
    by (auto simp: at_node_Some running_def intro!: leads_to_moved step.apply_push)
next
  case (11 L' ps' i)
  then have "step L s (take_wire w s)" "ps = procs s" "ws = []"
    using m w h by (auto simp: at_node_Some running_def intro!: step.apply_sleep)
  then show ?thesis unfolding leads_to_def by (intro exI[of _ "take_wire w s"]) simp
qed

lemma begin_sound:
  assumes "exec L e x = Some x'" and "procs s = fst x" and "wires s = mset (snd x)" and "halted s = {}"
  shows "\<exists>old new ps us. leads_to L s old (ps, new) \<and> x' = (ps, new @ us) \<and> mset (snd x) - old = mset us"
proof -
  have first: ?thesis if m: "move_first L P x = Some x'" for P
  proof -
    obtain us w vs ps ws where e: "List.extract P (snd x) = Some (us, w, vs)" "move L (fst x) w = Some (ps, ws)"
      "x' = (ps, ws @ us @ vs)" using m by (auto simp: move_first_def split: option.splits)
    then have "snd x = us @ w # vs" by (simp add: extract_Some_iff)
    moreover from this have "leads_to L s {#w#} (ps, ws)" using move_sound[of L s w ps ws] e(2) assms(2-4) by simp
    ultimately show ?thesis using e(3) by (intro exI[of _ "{#w#}"] exI[of _ ws] exI[of _ ps] exI[of _ "us @ vs"]) simp
  qed
  have begun: ?thesis
    if b: "begin_at i f x = Some x'" and st: "\<And>r ws. i < length (procs s) \<Longrightarrow> f (procs s ! i) = Some (r, ws) \<Longrightarrow> step L s (spawn ws (put i r s))"
    for i f
  proof -
    obtain r ws where "i < length (fst x)" "f (fst x ! i) = Some (r, ws)" "x' = ((fst x)[i := r], ws @ snd x)"
      using b by (auto simp: begin_at_def at_node_Some)
    then show ?thesis using leads_to_begun[OF st] assms(2)
      by (intro exI[of _ "{#}"] exI[of _ ws] exI[of _ "(fst x)[i := r]"] exI[of _ "snd x"]) simp
  qed
  have run: "i < length (procs s) \<Longrightarrow> running i s" for i using assms(4) by (simp add: running_def)
  have alone: "\<not> list_ex (applying i) (snd x) \<Longrightarrow> \<forall>ms. Applying i ms \<notin># wires s" for i
    using assms(3) by (auto simp: list_ex_iff)
  show ?thesis
  proof (cases e)
    case (Timeout i)
    show ?thesis
      by (rule begun[of i "\<lambda>r. with_tasks i (Some (electionTimeOutTicker L 0 0 r))"])
        (use assms(1) run alone Timeout in \<open>auto simp: with_tasks_Some split: prod.splits if_splits intro!: step.election\<close>)
  next
    case (Beat i)
    show ?thesis
      by (rule begun[of i "\<lambda>r. with_tasks i (opt_res (leaderHearBeatTicker 0 0 r))"])
        (use assms(1) run alone Beat in \<open>auto simp: with_tasks_Some split: prod.splits if_splits intro!: step.heartbeat\<close>)
  next
    case (Request i op)
    show ?thesis
      by (rule begun[of i "\<lambda>r. case Start L op r of (_, _, _, r') \<Rightarrow> Some (r', [])"])
        (use assms(1) run alone Request in \<open>auto simp: with_tasks_Some split: prod.splits if_splits intro!: step.start_op\<close>)
  next
    case (Collect i)
    show ?thesis
      by (rule begun[of i "\<lambda>r. map_option (\<lambda>(msgs, r'). (r', [Applying i msgs])) (opt_res (getApplyLogs r))"])
        (use assms(1) run alone Collect in \<open>auto simp: with_tasks_Some split: prod.splits if_splits intro!: step.apply_logs\<close>)
  next
    case (Compact i index snapshot)
    show ?thesis
      by (rule begun[of i "\<lambda>r. map_option (\<lambda>r'. (r', [])) (opt_res (Raft_Snapshot L index snapshot r))"])
        (use assms(1) run alone Compact in \<open>auto simp: with_tasks_Some split: prod.splits if_splits intro!: step.compact\<close>)
  qed (use first assms(1) in auto)
qed

lemma exec_sound:
  assumes "exec L e x = Some x'" and "shows_state s x"
  shows "\<exists>s'. step L s s' \<and> shows_state s' x'"
  using begin_sound[OF assms(1), of s] assms(2) by (auto simp: shows_state_def leads_to_def add.commute)

lemma run_reachable: "run L es x = Some x' \<Longrightarrow> shows_state s x \<Longrightarrow> \<exists>s'. (step L)\<^sup>*\<^sup>* s s' \<and> shows_state s' x'"
proof (induction es arbitrary: x s)
  case (Cons e es)
  then obtain y where y: "exec L e x = Some y" "run L es y = Some x'" by (auto split: option.splits)
  obtain t where "step L s t" "shows_state t y" using exec_sound[OF y(1) Cons.prems(2)] by blast
  then show ?case using Cons.IH[OF y(2)] by (meson converse_rtranclp_into_rtranclp)
qed auto

section \<open>Two servers disagree\<close>

text \<open>Five fresh nodes.\<close>

definition five_peers :: "(string \<times> 16 word) option list" where
  "five_peers = [Some (''a'', 1), Some (''b'', 1), Some (''c'', 1), Some (''d'', 1), Some (''e'', 1)]"

definition five_fresh :: "int \<Rightarrow> Raft" where
  "five_fresh i = \<lparr>m_peers = five_peers, m_persister = demo_persister, m_me = i, m_currentTerm = 0,
     m_votedFor = -1, m_logs = [], m_commitIndex = 0, m_lastApplied = 0,
     m_nextIndex = [0, 0, 0, 0, 0], m_matchIndex = [0, 0, 0, 0, 0], m_status = Follower, applyChan = empty_queue,
     m_lastResetElectionTime = 0, m_lastResetHearBeatTime = 0, m_lastSnapshotIncludeIndex = 0,
     m_lastSnapshotIncludeTerm = 0, cells = []\<rparr>"

definition five_nodes :: "Raft list" where
  "five_nodes = map five_fresh [0, 1, 2, 3, 4]"

definition set_k :: "string \<Rightarrow> Op" where
  "set_k v = \<lparr>Operation = ''Put'', Key = ''k'', Value = v, ClientId = ''c'', RequestId = 1\<rparr>"

text \<open>Node 1 leads term 1 and accepts two operations, which reach node 2 only.\<close>

definition term_1 :: "event list" where
  "term_1 = [Timeout 1, Deliver 1 2, Return 1 2, Deliver 1 3, Return 1 3,
     Request 1 (set_k ''x''), Request 1 (set_k ''y''), Beat 1, Deliver 1 2]"

text \<open>
  Node 0 leads term 2 with the votes of nodes 3 and 4 and commits its first entry on nodes 0, 1 and 3.
  Node 1 replaces its first entry, and its second one, of term 1, stays the last of its log.
\<close>

definition term_2 :: "event list" where
  "term_2 = [Timeout 0, Timeout 0, Deliver 0 3, Return 0 3, Deliver 0 4, Return 0 4,
     Request 0 (set_k ''d''), Beat 0, Deliver 0 1, Return 0 1, Deliver 0 3, Return 0 3, Collect 0, Push 0]"

text \<open>
  Node 2 is elected in term 3: node 1 finds its log up to date although it lacks the committed entry. It
  commits its own log on nodes 1, 2 and 4.
\<close>

definition term_3 :: "event list" where
  "term_3 = [Timeout 2, Timeout 2, Deliver 2 1, Return 2 1, Deliver 2 4, Return 2 4,
     Request 2 (set_k ''z''), Beat 2, Deliver 2 4, Return 2 4, Beat 2, Deliver 2 1, Return 2 1, Deliver 2 4, Return 2 4,
     Collect 2, Push 2]"

text \<open>
  What a server on a node has stored for a key after it has taken the first message from the queue: the
  server is new, with the limit for its log that the driver program sets.
\<close>

definition new_server :: "Raft \<Rightarrow> KvServer" where
  "new_server r = \<lparr>kv_me = m_me r, m_raftNode = r, m_maxRaftState = 500, m_serializedKVData = [],
     m_skipList = new_SkipList [] [] 6, waitApplyCh = Map.empty, chans = Map.empty, next_chan = 0, m_lastRequestId = [],
     m_lastSnapShotRaftLogIndex = 0, rand_src = [0]\<rparr>"

definition stored :: "string \<Rightarrow> Raft \<Rightarrow> string option res" where
  "stored ky r = bindr (ReadRaftApplyCommandLoop demo_lib 1 (new_server r)) (\<lambda>k. search_element (m_skipList k) ky)"

text \<open>The first commands in the queues of nodes 0 and 2, their effect, and the logs of nodes 1 and 2.\<close>

definition disagree :: "Raft list \<Rightarrow> bool" where
  "disagree ps \<longleftrightarrow> (case (m_queue (applyChan (ps ! 0)), m_queue (applyChan (ps ! 2))) of
     (m # _, m' # _) \<Rightarrow> CommandValid m \<and> CommandValid m' \<and> CommandIndex m = CommandIndex m' \<and> Command m \<noteq> Command m'
   | _ \<Rightarrow> False) \<and>
   (case (m_logs (ps ! 1), m_logs (ps ! 2)) of
     (e1 # e2 # _, f1 # f2 # _) \<Rightarrow> e2 = f2 \<and> logterm e1 \<noteq> logterm f1 | _ \<Rightarrow> False) \<and>
   m_lastSnapshotIncludeIndex (ps ! 1) = 0 \<and> m_lastSnapshotIncludeIndex (ps ! 2) = 0 \<and>
   stored ''k'' (ps ! 0) = Inr (Some ''d'') \<and> stored ''k'' (ps ! 2) = Inr (Some ''x'')"

lemma schedule_disagrees:
  "case run demo_lib (term_1 @ term_2 @ term_3) (five_nodes, []) of None \<Rightarrow> False | Some (ps, ws) \<Rightarrow> disagree ps"
  by code_simp

lemma five_nodes_boot:
  "cluster_boot demo_lib \<lparr>procs = five_nodes, wires = {#}, halted = {}, ballots = {}\<rparr>"
proof -
  have "raft_init demo_lib 0 five_peers i (new_Persister demo_file demo_file) empty_queue = Inr (five_fresh i)" for i
    by (simp add: raft_init_fresh ReadRaftState_new_Persister five_fresh_def demo_persister_def five_peers_def eval_nat_numeral)
  moreover have "five_nodes ! i = five_fresh (int i)" if "i < 5" for i
    using that by (auto simp: five_nodes_def less_Suc_eq eval_nat_numeral)
  moreover have "length five_nodes = 5" "length five_peers = 5" by (simp_all add: five_nodes_def five_peers_def)
  moreover have "\<forall>r \<in> set five_nodes. m_queue (applyChan r) = []" by (simp add: five_nodes_def five_fresh_def empty_queue_def)
  ultimately show ?thesis
    unfolding cluster_boot_def cluster_start_def
    by (auto intro!: exI[of _ 0] exI[of _ five_peers] exI[of _ demo_file] exI[of _ empty_queue])
qed

section \<open>Properties\<close>

text \<open>
  C3: The servers of a cluster can be handed different commands for the same index: a cluster of five nodes
  that starts empty reaches a state in which the queues of two nodes hold commands with equal index and
  different contents, although no node has stopped and no saved state was lost. A committed entry has been
  overwritten, since a follower that replaces a conflicting entry keeps the entries of the old term after it,
  and then takes the log of a candidate without the committed entry for up to date. Log matching fails with it: two logs
  agree at index 2 and differ at index 1. New servers on the two nodes then hold different values for the same key.
\<close>

theorem servers_disagree:
  "lib_ok demo_lib \<and> (\<exists>s0 s m m'. cluster_boot demo_lib s0 \<and> (step demo_lib)\<^sup>*\<^sup>* s0 s \<and> halted s = {} \<and>
     m \<in> set (queued s 0) \<and> m' \<in> set (queued s 2) \<and> CommandValid m \<and> CommandValid m' \<and>
     CommandIndex m = CommandIndex m' \<and> Command m \<noteq> Command m' \<and>
     entry_at (procs s ! 1) 2 \<noteq> None \<and> entry_at (procs s ! 1) 2 = entry_at (procs s ! 2) 2 \<and>
     map_option logterm (entry_at (procs s ! 1) 1) \<noteq> map_option logterm (entry_at (procs s ! 2) 1) \<and>
     stored ''k'' (procs s ! 0) = Inr (Some ''d'') \<and> stored ''k'' (procs s ! 2) = Inr (Some ''x''))"
proof -
  let ?s0 = "\<lparr>procs = five_nodes, wires = {#}, halted = {}, ballots = {}\<rparr>"
  obtain ps ws where x: "run demo_lib (term_1 @ term_2 @ term_3) (five_nodes, []) = Some (ps, ws)" "disagree ps"
    using schedule_disagrees by (auto split: option.splits)
  obtain s where s: "(step demo_lib)\<^sup>*\<^sup>* ?s0 s" "shows_state s (ps, ws)"
    using run_reachable[OF x(1), of ?s0] by (auto simp: shows_state_def)
  obtain m q m' q' where q: "m_queue (applyChan (ps ! 0)) = m # q" "m_queue (applyChan (ps ! 2)) = m' # q'"
    "CommandValid m" "CommandValid m'" "CommandIndex m = CommandIndex m'" "Command m \<noteq> Command m'"
    using x(2) by (auto simp: disagree_def split: list.splits)
  obtain e1 e2 es f1 fs where l: "m_logs (ps ! 1) = e1 # e2 # es" "m_logs (ps ! 2) = f1 # e2 # fs" "logterm e1 \<noteq> logterm f1"
    using x(2) by (auto simp: disagree_def split: list.splits)
  have "m_lastSnapshotIncludeIndex (ps ! 1) = 0" "m_lastSnapshotIncludeIndex (ps ! 2) = 0"
    "stored ''k'' (ps ! 0) = Inr (Some ''d'')" "stored ''k'' (ps ! 2) = Inr (Some ''x'')"
    using x(2) unfolding disagree_def by blast+
  then show ?thesis
    using s five_nodes_boot q l demo_lib_ok
    by (intro conjI[OF demo_lib_ok] exI[of _ ?s0] exI[of _ s] exI[of _ m] exI[of _ m']) (simp add: shows_state_def queued_def entry_at_def)
qed

end
