(* ===== verification/KvRequests.thy ===== *)
theory KvRequests
  imports KvCorrect
begin

text \<open>
  The key-value server under concurrent requests, as a transition system.

  A step is one section of kvServer.cpp between two lock operations: the beginning of a request
  up to its wait, the return of the wait, the rest of the handler, and the sections of the apply
  thread (take a message, check for a duplicate, execute, compact, notify). Requests and the
  apply thread interleave in every order. Between steps the Raft node may change in any way that
  keeps it well formed and does not shorten its log, which every cluster step guarantees
  (\<open>ClusterLog\<close>), and \<open>rand()\<close> may return any numbers.

  Two history variables, read by no function of the code, record what has happened:
  \<open>recorded\<close> the pairs of a client and a request number that the duplicate table has ever
  covered, \<open>committed\<close> the operations taken from the apply channel.
\<close>

section \<open>State and steps\<close>

datatype kind = KGet | KPut

datatype stage = Blocked | Popped "Op option"

record request =
  rq_kind :: kind
  rq_op :: Op
  rq_index :: int
  rq_chan :: nat
  rq_stage :: stage

datatype apply_pc = Waiting | Parsed Op int | Checked Op int bool | Executed Op int | Saved Op int

record kv_sys =
  server :: KvServer
  pending :: "request list"
  apc :: apply_pc
  recorded :: "(string \<times> int) set"
  committed :: "Op set"

definition covered :: "KvServer \<Rightarrow> (string \<times> int) set" where
  "covered k = {(c, r). case map_of (m_lastRequestId k) c of None \<Rightarrow> False | Some r' \<Rightarrow> r \<le> r'}"

definition set_server :: "KvServer \<Rightarrow> kv_sys \<Rightarrow> kv_sys" where
  "set_server k s = s\<lparr>server := k, recorded := recorded s \<union> covered k\<rparr>"

definition begin_req :: "lib \<Rightarrow> kind \<Rightarrow> Op \<Rightarrow> KvServer \<Rightarrow> request option \<times> KvServer" where
  "begin_req L kd op k =
     (case begin_wait L op k of
        (None, k1) \<Rightarrow> (None, k1)
      | (Some (i, ch), k1) \<Rightarrow>
          (Some \<lparr>rq_kind = kd, rq_op = op, rq_index = i, rq_chan = ch, rq_stage = Blocked\<rparr>, k1))"

text \<open>The end of a handler: the error text of its reply and the server after it.\<close>

definition finish :: "request \<Rightarrow> Op option \<Rightarrow> KvServer \<Rightarrow> (string \<times> KvServer) res" where
  "finish rq popped k =
     (case rq_kind rq of
        KGet \<Rightarrow> bindr (Get_finish (rq_op rq) (rq_index rq) popped k) (\<lambda>(reply, k1). Inr (gr_err reply, k1))
      | KPut \<Rightarrow> bindr (PutAppend_finish (rq_op rq) (rq_index rq) popped k) (\<lambda>(reply, k1). Inr (pr_err reply, k1)))"

definition kv_init :: "kv_sys \<Rightarrow> bool" where
  "kv_init s \<longleftrightarrow> skip_wf (m_skipList (server s)) \<and> raft_wf (m_raftNode (server s)) \<and>
     waitApplyCh (server s) = Map.empty \<and> chans (server s) = Map.empty \<and> pending s = [] \<and> apc s = Waiting \<and>
     recorded s = covered (server s) \<and> committed s = {}"

inductive kv_step :: "lib \<Rightarrow> kv_sys \<Rightarrow> kv_sys \<Rightarrow> bool" for L where
  get: "begin_req L KGet (get_op args) (server s) = (Some rq, k) \<Longrightarrow>
    kv_step L s ((set_server k s)\<lparr>pending := rq # pending s\<rparr>)"
| putappend: "begin_req L KPut (put_op args) (server s) = (Some rq, k) \<Longrightarrow>
    kv_step L s ((set_server k s)\<lparr>pending := rq # pending s\<rparr>)"
| refused: "begin_req L kd op (server s) = (None, k) \<Longrightarrow> kv_step L s (set_server k s)"
| wake: "pending s = ps @ rq # qs \<Longrightarrow> rq_stage rq = Blocked \<Longrightarrow>
    wait_end w (rq_chan rq) (server s) = Some (Inr (popped, k)) \<Longrightarrow>
    kv_step L s ((set_server k s)\<lparr>pending := ps @ rq\<lparr>rq_stage := Popped popped\<rparr> # qs\<rparr>)"
| reply: "pending s = ps @ rq # qs \<Longrightarrow> rq_stage rq = Popped popped \<Longrightarrow>
    finish rq popped (server s) = Inr (err, k) \<Longrightarrow>
    kv_step L s ((set_server k s)\<lparr>pending := ps @ qs\<rparr>)"
| take_command: "apc s = Waiting \<Longrightarrow> pop_now (applyChan (m_raftNode (server s))) = Some (msg, q) \<Longrightarrow>
    CommandValid msg \<Longrightarrow> op_parseFromString L (Command msg) = Inr op \<Longrightarrow>
    k = (server s)\<lparr>m_raftNode := (m_raftNode (server s))\<lparr>applyChan := q\<rparr>\<rparr> \<Longrightarrow>
    kv_step L s ((set_server k s)\<lparr>committed := insert op (committed s),
      apc := (if CommandIndex msg \<le> m_lastSnapShotRaftLogIndex k then Waiting else Parsed op (CommandIndex msg))\<rparr>)"
| take_snapshot: "apc s = Waiting \<Longrightarrow> pop_now (applyChan (m_raftNode (server s))) = Some (msg, q) \<Longrightarrow>
    \<not> CommandValid msg \<Longrightarrow> SnapshotValid msg \<Longrightarrow>
    GetSnapShotFromRaft L msg ((server s)\<lparr>m_raftNode := (m_raftNode (server s))\<lparr>applyChan := q\<rparr>\<rparr>) = Inr k \<Longrightarrow>
    kv_step L s (set_server k s)"
| check: "apc s = Parsed op i \<Longrightarrow>
    kv_step L s (s\<lparr>apc := Checked op i (ifRequestDuplicate (ClientId op) (RequestId op) (server s))\<rparr>)"
| execute: "apc s = Checked op i dup \<Longrightarrow> (if \<not> dup then execute_op op (server s) else Inr (server s)) = Inr k \<Longrightarrow>
    kv_step L s ((set_server k s)\<lparr>apc := Executed op i\<rparr>)"
| save: "apc s = Executed op i \<Longrightarrow>
    (if m_maxRaftState (server s) \<noteq> -1 then IfNeedToSendSnapShotCommand L i 9 (server s) else Inr (server s)) = Inr k \<Longrightarrow>
    kv_step L s ((set_server k s)\<lparr>apc := Saved op i\<rparr>)"
| notify: "apc s = Saved op i \<Longrightarrow> SendMessageToWaitChan op i (server s) = Inr (b, k) \<Longrightarrow>
    kv_step L s ((set_server k s)\<lparr>apc := Waiting\<rparr>)"
| raft: "raft_wf r \<Longrightarrow> getLastLogIndex (m_raftNode (server s)) \<le> getLastLogIndex r \<Longrightarrow>
    kv_step L s (set_server ((server s)\<lparr>m_raftNode := r\<rparr>) s)"
| random: "kv_step L s (set_server ((server s)\<lparr>rand_src := rs\<rparr>) s)"

section \<open>What returns keeps the store well formed\<close>

lemma insert_element_wf:
  assumes wf: "skip_wf sl" and run: "insert_element sl k v rs = Inr (ret, sl', rs')"
  shows "skip_wf sl'"
proof -
  obtain as where ok: "chain_ok sl as" using wf by (auto simp: skip_wf_def)
  show ?thesis
  proof (cases "sl_map sl k")
    case (Some w)
    then show ?thesis using insert_element_old[OF ok, of k v rs] run wf by simp
  next
    case None
    show ?thesis
    proof (cases "get_random_level (sl_max_level sl) rs")
      case (Inr p)
      obtain r rs1 where "p = (r, rs1)" by (cases p)
      then show ?thesis using insert_element_new[OF ok None, of rs r rs1 v] Inr run by (auto simp: skip_wf_def)
    next
      case (Inl e)
      obtain upd where "descend (Suc (sl_next sl)) (sl_heap sl) k (sl_level sl) (sl_header sl)
          (replicate (sl_max_level sl + 1) None) = Inr (pred_on sl (before (sl_heap sl) k as) 0, upd)"
        using descend_start[OF ok refl] by blast
      then have "insert_element sl k v rs = Inl e"
        unfolding insert_element_def by (simp add: read_pred[OF ok] exists_test[OF ok] None Inl del: replicate.simps)
      then show ?thesis using run by simp
    qed
  qed
qed

lemma insert_set_wf:
  assumes wf: "skip_wf sl" and run: "insert_set_element sl k v rs = Inr (sl', rs')"
  shows "skip_wf sl'"
proof -
  obtain sl1 where d: "delete_element sl k = Inr sl1" "skip_wf sl1" using sk.remove_law[OF wf] by blast
  obtain s where "(if sl_map sl k \<noteq> None then delete_element sl k else Inr sl) = Inr s" "skip_wf s"
    using d wf by (cases "sl_map sl k = None") auto
  then show ?thesis
    using run insert_element_wf unfolding insert_set_element_def sk.lookup_law[OF wf] bindr_Inr
    by (auto simp: bindr_eq_Inr)
qed

lemma load_keys_wf: "skip_wf sl \<Longrightarrow> load_keys sl ks rs = Inr (sl', rs') \<Longrightarrow> skip_wf sl'"
  by (induction ks arbitrary: sl rs) (auto simp: bindr_eq_Inr dest: insert_element_wf)

lemma load_file_wf: "skip_wf sl \<Longrightarrow> load_file L d sl rs = Inr (sl', rs') \<Longrightarrow> skip_wf sl'"
  by (auto simp: load_file_def load_keys_wf split: if_splits option.splits)

section \<open>The effect of each section\<close>

lemma Start_effect:
  assumes "raft_wf r" and "Start L op r = (i, t, b, r')"
  shows "if b then i = getLastLogIndex r + 1 \<and> raft_wf r' \<and> getLastLogIndex r' = getLastLogIndex r + 1 else r' = r"
proof (cases "m_status r = Leader")
  case True
  then have "raft_wf r'" "b" "i = getLastLogIndex r + 1"
    "m_lastSnapshotIncludeIndex r' = m_lastSnapshotIncludeIndex r" "length (m_logs r') = length (m_logs r) + 1"
    using Start_wf[OF assms] assms(2) by (auto simp: Start_def Let_def getNewCommandIndex_def)
  then show ?thesis using raft_wf_last[OF assms(1)] raft_wf_last[of r'] by simp
qed (use assms(2) in \<open>auto simp: Start_def\<close>)

lemma begin_req_refused: "raft_wf (m_raftNode k) \<Longrightarrow> begin_req L kd op k = (None, k') \<Longrightarrow> k' = k"
  using Start_effect[of "m_raftNode k" L op]
  by (auto simp: begin_req_def begin_wait_def Let_def split: prod.splits if_splits option.splits)

lemma begin_req_started:
  assumes wf: "raft_wf (m_raftNode k)" and none: "waitApplyCh k (getLastLogIndex (m_raftNode k) + 1) = None"
    and run: "begin_req L kd op k = (Some rq, k')"
  shows "\<exists>r'. raft_wf r' \<and> getLastLogIndex r' = getLastLogIndex (m_raftNode k) + 1 \<and>
    rq = \<lparr>rq_kind = kd, rq_op = op, rq_index = getLastLogIndex (m_raftNode k) + 1, rq_chan = next_chan k, rq_stage = Blocked\<rparr> \<and>
    k' = k\<lparr>m_raftNode := r', waitApplyCh := (waitApplyCh k)(getLastLogIndex (m_raftNode k) + 1 \<mapsto> next_chan k),
           chans := (chans k)(next_chan k \<mapsto> empty_queue), next_chan := next_chan k + 1\<rparr>"
proof -
  obtain i t b r where st: "Start L op (m_raftNode k) = (i, t, b, r)" by (cases "Start L op (m_raftNode k)") auto
  have b: "b" using run st by (cases b) (auto simp: begin_req_def begin_wait_def)
  then have "i = getLastLogIndex (m_raftNode k) + 1" "raft_wf r" "getLastLogIndex r = getLastLogIndex (m_raftNode k) + 1"
    using Start_effect[OF wf st] by auto
  then show ?thesis
    using run st b none by (auto simp: begin_req_def begin_wait_def open_chan_def)
qed

lemma chan_pop_effect:
  assumes "chan_pop w q = Some (x, q')"
  shows "set (m_queue q') \<subseteq> set (m_queue q) \<and> (\<forall>op. x = Some op \<longrightarrow> op \<in> set (m_queue q))"
  using assms
  by (cases w) (auto simp: timeOutPop.simps[of q] timeOutPop.simps[of "\<lparr>m_queue = []\<rparr>"] empty_queue_def split: list.splits)

lemma wait_end_effect:
  assumes "wait_end w ch k = Some (Inr (x, k'))"
  shows "\<exists>q q'. chans k ch = Some q \<and> k' = k\<lparr>chans := (chans k)(ch \<mapsto> q')\<rparr> \<and>
    set (m_queue q') \<subseteq> set (m_queue q) \<and> (\<forall>op. x = Some op \<longrightarrow> op \<in> set (m_queue q))"
  using assms chan_pop_effect by (fastforce simp: wait_end_def split: option.splits)

definition chan_freed :: "int \<Rightarrow> nat \<Rightarrow> KvServer \<Rightarrow> KvServer" where
  "chan_freed i ch k = k\<lparr>waitApplyCh := (waitApplyCh k)(i := None), chans := (chans k)(ch := None)\<rparr>"

lemma get_answer_effect:
  assumes "skip_wf (m_skipList k)"
  shows "\<exists>reply. get_answer op k = Inr (reply, set_lastRequestId op k)"
  using ExecuteGet_spec[OF assms, of op] by (simp add: get_answer_def)

lemma finish_effect:
  assumes "skip_wf (m_skipList k)" and "waitApplyCh k (rq_index rq) = Some ch" and "chans k ch \<noteq> None"
  shows "\<exists>err. finish rq popped k = Inr (err, chan_freed (rq_index rq) ch k) \<or>
    finish rq popped k = Inr (err, chan_freed (rq_index rq) ch (set_lastRequestId (rq_op rq) k))"
proof (cases "rq_kind rq")
  case KPut
  then show ?thesis
    using assms(2,3) by (auto simp: finish_def PutAppend_finish_def close_chan_def chan_freed_def)
next
  case KGet
  obtain reply where "get_answer (rq_op rq) k = Inr (reply, set_lastRequestId (rq_op rq) k)"
    using get_answer_effect[OF assms(1)] by blast
  then show ?thesis
    using KGet assms(2,3)
    by (auto simp: finish_def Get_finish_def close_chan_def chan_freed_def split: option.splits)
qed

lemma execute_op_effect:
  assumes wf: "skip_wf (m_skipList k)" and run: "execute_op op k = Inr k'"
  shows "skip_wf (m_skipList k') \<and> store_frame k k' \<and> (is_write op \<longrightarrow> (ClientId op, RequestId op) \<in> covered k')"
proof -
  have put: "skip_wf (m_skipList k') \<and> store_frame k k' \<and> (ClientId op, RequestId op) \<in> covered k'"
    if "ExecutePutOpOnKVDB op k = Inr k'" for k'
    using that insert_set_wf[OF wf]
    by (auto simp: ExecutePutOpOnKVDB_def bindr_eq_Inr Let_def store_frame_def covered_def)
  show ?thesis
    using run put wf unfolding execute_op_def is_write_def ExecuteAppend_eq
    by (auto simp: store_frame_def bindr_eq_Inr split: if_splits)
qed

lemma install_effect:
  assumes wf: "skip_wf (m_skipList k)" and run: "GetSnapShotFromRaft L msg k = Inr k'"
  shows "skip_wf (m_skipList k') \<and> m_raftNode k' = m_raftNode k \<and> waitApplyCh k' = waitApplyCh k \<and>
    chans k' = chans k \<and> next_chan k' = next_chan k"
  using run load_file_wf[OF wf] wf
  by (auto simp: GetSnapShotFromRaft_def CondInstallSnapshot_def ReadSnapShotToInstall_def kv_parseFromString_def
      bindr_eq_Inr Let_def split: if_splits option.splits)

lemma save_effect:
  assumes sl: "skip_wf (m_skipList k)" and wf: "raft_wf (m_raftNode k)"
    and run: "(if m_maxRaftState k \<noteq> -1 then IfNeedToSendSnapShotCommand L i 9 k else Inr k) = Inr k'"
  shows "raft_frame k k' \<and> raft_wf (m_raftNode k') \<and> getLastLogIndex (m_raftNode k') = getLastLogIndex (m_raftNode k)"
proof (cases "m_maxRaftState k \<noteq> -1 \<and> 10 * GetRaftStateSize (m_raftNode k) > m_maxRaftState k")
  case False
  then show ?thesis using run wf by (auto simp: IfNeedToSendSnapShotCommand_def raft_frame_def split: if_splits)
next
  case True
  obtain s where s: "MakeSnapShot L k = Inr (s, k\<lparr>m_serializedKVData := []\<rparr>)"
    using MakeSnapShot_spec[OF sl, of L] by blast
  obtain r' where r': "Raft_Snapshot L i s (m_raftNode k) = Inr r'" "raft_wf r'" "applyChan r' = applyChan (m_raftNode k)"
    using Raft_Snapshot_total[OF wf] by blast
  have "getLastLogIndex r' = getLastLogIndex (m_raftNode k)"
    using Raft_Snapshot_spec[OF wf, of i L s] Raft_Snapshot_ignored[of i "m_raftNode k" L s] r'(1)
    by (cases "m_lastSnapshotIncludeIndex (m_raftNode k) < i \<and> i \<le> m_commitIndex (m_raftNode k)") auto
  then show ?thesis
    using True run s r' by (auto simp: IfNeedToSendSnapShotCommand_def raft_frame_def)
qed

lemma Send_effect:
  assumes "SendMessageToWaitChan op i k = Inr (b, k')"
  shows "k' = k \<or> (\<exists>ch q. chans k ch = Some q \<and> k' = k\<lparr>chans := (chans k)(ch \<mapsto> Push op q)\<rparr>)"
  using assms by (auto simp: SendMessageToWaitChan_def split: option.splits)

section \<open>Channels\<close>

text \<open>
  Every pending request owns the queue it waits on: indices and queues of pending requests are
  distinct, their queues are allocated, and the table holds nothing else.
\<close>

definition owns :: "KvServer \<Rightarrow> request list \<Rightarrow> bool" where
  "owns k ps \<longleftrightarrow> distinct (map rq_index ps) \<and> distinct (map rq_chan ps) \<and>
     (\<forall>rq \<in> set ps. waitApplyCh k (rq_index rq) = Some (rq_chan rq) \<and> rq_index rq \<le> getLastLogIndex (m_raftNode k)) \<and>
     rq_chan ` set ps \<subseteq> dom (chans k) \<and> dom (waitApplyCh k) \<subseteq> rq_index ` set ps \<and> dom (chans k) \<subseteq> {..<next_chan k}"

definition chan_inv :: "kv_sys \<Rightarrow> bool" where
  "chan_inv s \<longleftrightarrow> skip_wf (m_skipList (server s)) \<and> raft_wf (m_raftNode (server s)) \<and> owns (server s) (pending s)"

lemma ownsD:
  assumes "owns k ps"
  shows "distinct (map rq_index ps)" "distinct (map rq_chan ps)"
    "\<And>rq. rq \<in> set ps \<Longrightarrow> waitApplyCh k (rq_index rq) = Some (rq_chan rq)"
    "\<And>rq. rq \<in> set ps \<Longrightarrow> rq_index rq \<le> getLastLogIndex (m_raftNode k)"
    "rq_chan ` set ps \<subseteq> dom (chans k)" "dom (waitApplyCh k) \<subseteq> rq_index ` set ps" "dom (chans k) \<subseteq> {..<next_chan k}"
  using assms unfolding owns_def by blast+

lemma owns_frame:
  assumes "owns k ps" and "waitApplyCh k' = waitApplyCh k" and "dom (chans k') = dom (chans k)"
    and "next_chan k' = next_chan k" and "getLastLogIndex (m_raftNode k) \<le> getLastLogIndex (m_raftNode k')"
  shows "owns k' ps"
  using ownsD[OF assms(1)] assms(2-5) unfolding owns_def by (auto intro: order_trans)

lemma owns_fresh:
  assumes "owns k ps"
  shows "waitApplyCh k (getLastLogIndex (m_raftNode k) + 1) = None"
proof (rule ccontr)
  assume "waitApplyCh k (getLastLogIndex (m_raftNode k) + 1) \<noteq> None"
  then obtain rq where "rq \<in> set ps" "rq_index rq = getLastLogIndex (m_raftNode k) + 1"
    using ownsD(6)[OF assms] by (metis domI image_iff option.exhaust subsetD)
  then show False using ownsD(4)[OF assms] by fastforce
qed

lemma owns_begin:
  assumes own: "owns k ps" and wf: "raft_wf (m_raftNode k)" and run: "begin_req L kd op k = (Some rq, k')"
  shows "owns k' (rq # ps) \<and> raft_wf (m_raftNode k') \<and> m_skipList k' = m_skipList k"
proof -
  note O = ownsD[OF own]
  let ?i = "getLastLogIndex (m_raftNode k) + 1"
  obtain r' where r': "raft_wf r'" "getLastLogIndex r' = ?i"
    "rq = \<lparr>rq_kind = kd, rq_op = op, rq_index = ?i, rq_chan = next_chan k, rq_stage = Blocked\<rparr>"
    "k' = k\<lparr>m_raftNode := r', waitApplyCh := (waitApplyCh k)(?i \<mapsto> next_chan k),
           chans := (chans k)(next_chan k \<mapsto> empty_queue), next_chan := next_chan k + 1\<rparr>"
    using begin_req_started[OF wf owns_fresh[OF own] run] by blast
  have old: "rq_index q < ?i" "rq_chan q < next_chan k" if "q \<in> set ps" for q
    using O(4)[OF that] O(5,7) that by auto
  have "?i \<notin> rq_index ` set ps" "next_chan k \<notin> rq_chan ` set ps" using old by force+
  moreover have "rq_index q \<noteq> ?i" "rq_index q \<le> ?i" if "q \<in> set ps" for q using old[OF that] by auto
  ultimately show ?thesis using O r' unfolding owns_def by (auto simp: less_Suc_eq)
qed

lemma owns_reply:
  assumes own: "owns k (ps @ rq # qs)" and k': "k' = chan_freed (rq_index rq) (rq_chan rq) k"
  shows "owns k' (ps @ qs)"
proof -
  note O = ownsD[OF own]
  have ni: "rq_index rq \<notin> rq_index ` set (ps @ qs)" "rq_chan rq \<notin> rq_chan ` set (ps @ qs)" using O(1,2) by auto
  have keep: "waitApplyCh k' (rq_index q) = Some (rq_chan q) \<and> rq_index q \<le> getLastLogIndex (m_raftNode k')"
    if "q \<in> set (ps @ qs)" for q
  proof -
    have "rq_index q \<noteq> rq_index rq" using ni(1) that by (metis image_eqI)
    then show ?thesis using O(3,4)[of q] that by (simp add: k' chan_freed_def)
  qed
  have d: "dom (chans k') = dom (chans k) - {rq_chan rq}" "dom (waitApplyCh k') = dom (waitApplyCh k) - {rq_index rq}"
    "next_chan k' = next_chan k" by (simp_all add: k' chan_freed_def)
  have "rq_chan ` set (ps @ qs) \<subseteq> dom (chans k')" "dom (waitApplyCh k') \<subseteq> rq_index ` set (ps @ qs)"
    "dom (chans k') \<subseteq> {..<next_chan k'}"
    unfolding d using O(5-7) ni unfolding set_append list.set by blast+
  then show ?thesis using O(1,2) keep unfolding owns_def by simp
qed

lemma set_server_simps [simp]:
  "server (set_server k s) = k" "pending (set_server k s) = pending s" "apc (set_server k s) = apc s"
  "recorded (set_server k s) = recorded s \<union> covered k" "committed (set_server k s) = committed s"
  by (simp_all add: set_server_def)

lemma owns_mem: "owns k (ps @ rq # qs) \<Longrightarrow> waitApplyCh k (rq_index rq) = Some (rq_chan rq) \<and> chans k (rq_chan rq) \<noteq> None"
  using ownsD(3,5)[of k "ps @ rq # qs"] by auto

lemma chan_inv_step:
  assumes "kv_step L s t" and "chan_inv s"
  shows "chan_inv t"
  using assms
proof (induction rule: kv_step.induct)
  case (get args s rq k)
  then show ?case using owns_begin[OF _ _ get.hyps, of "pending s"] by (simp add: chan_inv_def)
next
  case (putappend args s rq k)
  then show ?case using owns_begin[OF _ _ putappend.hyps, of "pending s"] by (simp add: chan_inv_def)
next
  case (refused kd op s k)
  then show ?case using begin_req_refused[OF _ refused.hyps] by (simp add: chan_inv_def)
next
  case (wake s ps rq qs w popped k)
  obtain q q' where k: "chans (server s) (rq_chan rq) = Some q" "k = (server s)\<lparr>chans := (chans (server s))(rq_chan rq \<mapsto> q')\<rparr>"
    using wait_end_effect[OF wake.hyps(3)] by blast
  have "owns (server s) (ps @ rq\<lparr>rq_stage := Popped popped\<rparr> # qs)"
    using wake.prems wake.hyps(1) by (simp add: chan_inv_def owns_def)
  from owns_frame[OF this, of k] show ?case using wake.prems k by (auto simp: chan_inv_def)
next
  case (reply s ps rq qs popped err k)
  have own: "owns (server s) (ps @ rq # qs)" using reply.prems reply.hyps(1) by (simp add: chan_inv_def)
  have "k = chan_freed (rq_index rq) (rq_chan rq) (server s) \<or>
      k = chan_freed (rq_index rq) (rq_chan rq) (set_lastRequestId (rq_op rq) (server s))"
    using finish_effect[of "server s" rq "rq_chan rq" popped] owns_mem[OF own] reply.prems reply.hyps(3)
    by (auto simp: chan_inv_def)
  moreover have "owns (set_lastRequestId (rq_op rq) (server s)) (ps @ rq # qs)" using owns_frame[OF own] by simp
  ultimately have "owns k (ps @ qs)" using owns_reply[OF own] owns_reply by blast
  moreover have "m_skipList k = m_skipList (server s)" "m_raftNode k = m_raftNode (server s)"
    using \<open>_ \<or> _\<close> by (auto simp: chan_freed_def)
  ultimately show ?case using reply.prems by (simp add: chan_inv_def)
next
  case (take_command s msg q op k)
  then show ?case using owns_frame[of "server s" "pending s" k] by (simp add: chan_inv_def raft_wf_def)
next
  case (take_snapshot s msg q k)
  let ?k = "(server s)\<lparr>m_raftNode := (m_raftNode (server s))\<lparr>applyChan := q\<rparr>\<rparr>"
  have "skip_wf (m_skipList ?k)" using take_snapshot.prems by (simp add: chan_inv_def)
  from install_effect[OF this take_snapshot.hyps(5)] show ?case
    using owns_frame[of "server s" "pending s" k] take_snapshot.prems by (simp add: chan_inv_def raft_wf_def)
next
  case (check s op i)
  then show ?case by (simp add: chan_inv_def)
next
  case (execute s op i dup k)
  have "skip_wf (m_skipList k) \<and> store_frame (server s) k"
    using execute.hyps(2) execute.prems execute_op_effect[of "server s" op k]
    by (cases dup) (auto simp: chan_inv_def store_frame_def)
  then show ?case using owns_frame[of "server s" "pending s" k] execute.prems by (simp add: chan_inv_def store_frame_def)
next
  case (save s op i k)
  then have "raft_frame (server s) k \<and> raft_wf (m_raftNode k) \<and> getLastLogIndex (m_raftNode k) = getLastLogIndex (m_raftNode (server s))"
    using save_effect[OF _ _ save.hyps(2)] by (simp add: chan_inv_def)
  then show ?case using owns_frame[of "server s" "pending s" k] save.prems by (simp add: chan_inv_def raft_frame_def)
next
  case (notify s op i b k)
  from Send_effect[OF notify.hyps(2)] show ?case
    using owns_frame[of "server s" "pending s" k] notify.prems by (auto simp: chan_inv_def insert_absorb domI)
next
  case (raft r s)
  then show ?case using owns_frame[of "server s" "pending s" "(server s)\<lparr>m_raftNode := r\<rparr>"] by (simp add: chan_inv_def)
next
  case (random s rs)
  then show ?case using owns_frame[of "server s" "pending s" "(server s)\<lparr>rand_src := rs\<rparr>"] by (simp add: chan_inv_def)
qed

section \<open>History\<close>

text \<open>An operation that came out of the log, and whose number is on record if it is a write.\<close>

definition vouched :: "kv_sys \<Rightarrow> Op \<Rightarrow> bool" where
  "vouched s op \<longleftrightarrow> op \<in> committed s \<and> (is_write op \<longrightarrow> (ClientId op, RequestId op) \<in> recorded s)"

fun pc_ok :: "kv_sys \<Rightarrow> apply_pc \<Rightarrow> bool" where
  "pc_ok s Waiting = True"
| "pc_ok s (Parsed op i) = (op \<in> committed s)"
| "pc_ok s (Checked op i dup) = (op \<in> committed s \<and> (dup \<longrightarrow> (ClientId op, RequestId op) \<in> recorded s))"
| "pc_ok s (Executed op i) = vouched s op"
| "pc_ok s (Saved op i) = vouched s op"

definition hist_inv :: "kv_sys \<Rightarrow> bool" where
  "hist_inv s \<longleftrightarrow> covered (server s) \<subseteq> recorded s \<and> pc_ok s (apc s) \<and>
     (\<forall>ch q op. chans (server s) ch = Some q \<longrightarrow> op \<in> set (m_queue q) \<longrightarrow> vouched s op) \<and>
     (\<forall>rq op. rq \<in> set (pending s) \<longrightarrow> rq_stage rq = Popped (Some op) \<longrightarrow> vouched s op)"

lemma hist_invD:
  assumes "hist_inv s"
  shows "covered (server s) \<subseteq> recorded s" "pc_ok s (apc s)"
    "\<And>ch q op. chans (server s) ch = Some q \<Longrightarrow> op \<in> set (m_queue q) \<Longrightarrow> vouched s op"
    "\<And>rq op. rq \<in> set (pending s) \<Longrightarrow> rq_stage rq = Popped (Some op) \<Longrightarrow> vouched s op"
  using assms unfolding hist_inv_def by blast+

lemma vouched_mono:
  "vouched s op \<Longrightarrow> committed s \<subseteq> committed t \<Longrightarrow> recorded s \<subseteq> recorded t \<Longrightarrow> vouched t op"
  by (auto simp: vouched_def)

lemma pc_ok_mono:
  "pc_ok s pc \<Longrightarrow> committed s \<subseteq> committed t \<Longrightarrow> recorded s \<subseteq> recorded t \<Longrightarrow> pc_ok t pc"
  by (cases pc) (auto intro: vouched_mono)

text \<open>How a step may change what the invariant speaks of.\<close>

lemma hist_inv_frame:
  assumes inv: "hist_inv s" and sub: "committed s \<subseteq> committed t" "recorded t = recorded s \<union> covered (server t)"
    and pc: "pc_ok t (apc t)"
    and ch: "\<And>ch q op. chans (server t) ch = Some q \<Longrightarrow> op \<in> set (m_queue q) \<Longrightarrow>
      vouched t op \<or> (\<exists>ch' q'. chans (server s) ch' = Some q' \<and> op \<in> set (m_queue q'))"
    and rq: "\<And>rq op. rq \<in> set (pending t) \<Longrightarrow> rq_stage rq = Popped (Some op) \<Longrightarrow>
      rq \<in> set (pending s) \<or> (\<exists>ch' q'. chans (server s) ch' = Some q' \<and> op \<in> set (m_queue q'))"
  shows "hist_inv t"
proof -
  have up: "vouched t op" if "vouched s op" for op using vouched_mono[OF that] sub by blast
  have "vouched t op" if "chans (server s) ch' = Some q'" "op \<in> set (m_queue q')" for ch' q' op
    using up hist_invD(3)[OF inv that] by blast
  moreover have "vouched t op" if "rq \<in> set (pending s)" "rq_stage rq = Popped (Some op)" for rq op
    using up hist_invD(4)[OF inv that] by blast
  ultimately show ?thesis unfolding hist_inv_def using sub(2) pc ch rq by blast
qed

lemma hist_inv_server:
  assumes inv: "hist_inv s" and t: "t = (set_server k s)\<lparr>apc := pc\<rparr>" and pc: "pc_ok t pc" and k: "chans k = chans (server s)"
  shows "hist_inv t"
  by (rule hist_inv_frame[OF inv]) (use t pc k in auto)

lemma covered_chans [simp]: "covered (k\<lparr>chans := c\<rparr>) = covered k" "covered (k\<lparr>m_raftNode := r\<rparr>) = covered k"
  "covered (k\<lparr>rand_src := rs\<rparr>) = covered k" "covered (chan_freed i ch k) = covered k"
  by (simp_all add: covered_def chan_freed_def)

lemma set_server_apc: "set_server k s = (set_server k s)\<lparr>apc := apc s\<rparr>"
  by (simp add: set_server_def)

lemma hist_begin:
  assumes inv: "hist_inv s" and run: "begin_req L kd op (server s) = (Some rq, k)"
    and wf: "raft_wf (m_raftNode (server s))" and own: "owns (server s) ps"
  shows "hist_inv ((set_server k s)\<lparr>pending := rq # pending s\<rparr>)"
proof (rule hist_inv_frame[OF inv])
  note b = begin_req_started[OF wf owns_fresh[OF own] run]
  show "vouched ((set_server k s)\<lparr>pending := rq # pending s\<rparr>) op \<or> (\<exists>ch' q'. chans (server s) ch' = Some q' \<and> op \<in> set (m_queue q'))"
    if "chans (server ((set_server k s)\<lparr>pending := rq # pending s\<rparr>)) ch = Some q" "op \<in> set (m_queue q)" for ch q op
    using b that by (auto simp: empty_queue_def split: if_splits)
  show "pc_ok ((set_server k s)\<lparr>pending := rq # pending s\<rparr>) (apc ((set_server k s)\<lparr>pending := rq # pending s\<rparr>))"
    using pc_ok_mono[OF hist_invD(2)[OF inv]] by auto
qed (use begin_req_started[OF wf owns_fresh[OF own] run] in auto)

lemma hist_reply:
  assumes inv: "hist_inv s" and ps: "pending s = ps @ rq # qs" and own: "chan_inv s"
    and run: "finish rq popped (server s) = Inr (err, k)"
  shows "hist_inv ((set_server k s)\<lparr>pending := ps @ qs\<rparr>)"
proof (rule hist_inv_frame[OF inv])
  have "waitApplyCh (server s) (rq_index rq) = Some (rq_chan rq) \<and> chans (server s) (rq_chan rq) \<noteq> None"
    using own ps owns_mem[of "server s" ps rq qs] by (simp add: chan_inv_def)
  then have "k = chan_freed (rq_index rq) (rq_chan rq) (server s) \<or>
      k = chan_freed (rq_index rq) (rq_chan rq) (set_lastRequestId (rq_op rq) (server s))"
    using finish_effect[of "server s" rq "rq_chan rq" popped] own run by (auto simp: chan_inv_def)
  then have "chans k = (chans (server s))(rq_chan rq := None)" by (auto simp: chan_freed_def)
  then show "vouched ((set_server k s)\<lparr>pending := ps @ qs\<rparr>) op \<or> (\<exists>ch' q'. chans (server s) ch' = Some q' \<and> op \<in> set (m_queue q'))"
    if "chans (server ((set_server k s)\<lparr>pending := ps @ qs\<rparr>)) ch = Some q" "op \<in> set (m_queue q)" for ch q op
    using that by (auto split: if_splits)
  show "pc_ok ((set_server k s)\<lparr>pending := ps @ qs\<rparr>) (apc ((set_server k s)\<lparr>pending := ps @ qs\<rparr>))"
    using pc_ok_mono[OF hist_invD(2)[OF inv]] by auto
qed (use ps in auto)

lemma hist_wake:
  assumes inv: "hist_inv s" and ps: "pending s = ps @ rq # qs"
    and run: "wait_end w (rq_chan rq) (server s) = Some (Inr (popped, k))"
  shows "hist_inv ((set_server k s)\<lparr>pending := ps @ rq\<lparr>rq_stage := Popped popped\<rparr> # qs\<rparr>)" (is "hist_inv ?t")
proof (rule hist_inv_frame[OF inv])
  obtain q q' where k: "chans (server s) (rq_chan rq) = Some q" "k = (server s)\<lparr>chans := (chans (server s))(rq_chan rq \<mapsto> q')\<rparr>"
    "set (m_queue q') \<subseteq> set (m_queue q)" "\<forall>op. popped = Some op \<longrightarrow> op \<in> set (m_queue q)"
    using wait_end_effect[OF run] by blast
  show "vouched ?t op \<or> (\<exists>ch' q'. chans (server s) ch' = Some q' \<and> op \<in> set (m_queue q'))"
    if "chans (server ?t) ch = Some q1" "op \<in> set (m_queue q1)" for ch q1 op
    using that k by (auto split: if_splits)
  show "rq1 \<in> set (pending s) \<or> (\<exists>ch' q'. chans (server s) ch' = Some q' \<and> op \<in> set (m_queue q'))"
    if "rq1 \<in> set (pending ?t)" "rq_stage rq1 = Popped (Some op)" for rq1 op
    using that k ps by auto
  show "pc_ok ?t (apc ?t)" using pc_ok_mono[OF hist_invD(2)[OF inv]] by auto
qed auto

lemma hist_notify:
  assumes inv: "hist_inv s" and pc: "apc s = Saved op i" and run: "SendMessageToWaitChan op i (server s) = Inr (b, k)"
  shows "hist_inv ((set_server k s)\<lparr>apc := Waiting\<rparr>)" (is "hist_inv ?t")
proof (rule hist_inv_frame[OF inv])
  have "vouched s op" using hist_invD(2)[OF inv] pc by simp
  then have "vouched ?t op" by (rule vouched_mono) auto
  then show "vouched ?t x \<or> (\<exists>ch' q'. chans (server s) ch' = Some q' \<and> x \<in> set (m_queue q'))"
    if "chans (server ?t) ch = Some q" "x \<in> set (m_queue q)" for ch q x
    using that Send_effect[OF run] by (auto split: if_splits)
qed auto

lemma hist_inv_step:
  assumes "kv_step L s t" and "chan_inv s \<and> hist_inv s"
  shows "hist_inv t"
  using assms
proof (induction rule: kv_step.induct)
  case (get args s rq k)
  then show ?case using hist_begin[of s L KGet "get_op args" rq k "pending s"] by (simp add: chan_inv_def)
next
  case (putappend args s rq k)
  then show ?case using hist_begin[of s L KPut "put_op args" rq k "pending s"] by (simp add: chan_inv_def)
next
  case (refused kd op s k)
  then have "k = server s" using begin_req_refused[OF _ refused.hyps] by (simp add: chan_inv_def)
  then show ?case using refused.prems hist_inv_server[OF _ set_server_apc, of s k] pc_ok_mono[OF hist_invD(2)] by auto
next
  case (wake s ps rq qs w popped k)
  then show ?case using hist_wake by blast
next
  case (reply s ps rq qs popped err k)
  then show ?case using hist_reply by blast
next
  case (take_command s msg q op k)
  then have inv: "hist_inv s" "chans k = chans (server s)" by simp_all
  show ?case by (rule hist_inv_frame[OF inv(1)]) (use inv(2) in auto)
next
  case (take_snapshot s msg q k)
  let ?k = "(server s)\<lparr>m_raftNode := (m_raftNode (server s))\<lparr>applyChan := q\<rparr>\<rparr>"
  have "skip_wf (m_skipList ?k)" using take_snapshot.prems by (simp add: chan_inv_def)
  then have "chans k = chans (server s)" using install_effect[OF _ take_snapshot.hyps(5)] by simp
  then show ?case using take_snapshot hist_inv_server[OF _ set_server_apc, of s k] by auto
next
  case (check s op i)
  then have inv: "hist_inv s" "op \<in> committed s" using hist_invD(2)[of s] by auto
  have "(ClientId op, RequestId op) \<in> recorded s" if "ifRequestDuplicate (ClientId op) (RequestId op) (server s)"
    using hist_invD(1)[OF inv(1)] that by (auto simp: covered_def ifRequestDuplicate_def split: option.splits)
  then show ?case using inv hist_invD[OF inv(1)] by (auto simp: hist_inv_def vouched_def)
next
  case (execute s op i dup k)
  have c: "hist_inv s" "op \<in> committed s" "dup \<longrightarrow> (ClientId op, RequestId op) \<in> recorded s"
    using execute.prems hist_invD(2)[of s] execute.hyps(1) by auto
  have "chans k = chans (server s) \<and> (is_write op \<longrightarrow> (ClientId op, RequestId op) \<in> recorded s \<union> covered k)"
    using execute.hyps(2) execute.prems execute_op_effect[of "server s" op k] c(3)
    by (cases dup) (auto simp: chan_inv_def store_frame_def)
  then show ?case using c hist_inv_server[where s = s and k = k and pc = "Executed op i", OF c(1) refl] by (simp add: vouched_def)
next
  case (save s op i k)
  have "raft_frame (server s) k" using save_effect[OF _ _ save.hyps(2)] save.prems by (simp add: chan_inv_def)
  moreover have "vouched s op" using save.prems save.hyps(1) hist_invD(2)[of s] by auto
  ultimately show ?case
    using save.prems hist_inv_server[where s = s and k = k and pc = "Saved op i", OF _ refl]
      vouched_mono[of s op "(set_server k s)\<lparr>apc := Saved op i\<rparr>"] by (auto simp: raft_frame_def)
next
  case (notify s op i b k)
  then show ?case using hist_notify by blast
next
  case (raft r s)
  then show ?case using hist_inv_server[OF _ set_server_apc, of s "(server s)\<lparr>m_raftNode := r\<rparr>"] pc_ok_mono[OF hist_invD(2)] by auto
next
  case (random s rs)
  then show ?case using hist_inv_server[OF _ set_server_apc, of s "(server s)\<lparr>rand_src := rs\<rparr>"] pc_ok_mono[OF hist_invD(2)] by auto
qed

interpretation kvr: inductive_invariant kv_init "kv_step L" "\<lambda>s. chan_inv s \<and> hist_inv s" for L
proof
  show "chan_inv s \<and> hist_inv s" if "kv_init s" for s
    using that by (simp add: kv_init_def chan_inv_def hist_inv_def owns_def)
  show "chan_inv t \<and> hist_inv t" if "chan_inv s \<and> hist_inv s" "kv_step L s t" for s t
    using that chan_inv_step hist_inv_step by blast
qed

section \<open>A small run\<close>

definition demo_server :: KvServer where
  "demo_server = (demo_kv [])\<lparr>waitApplyCh := Map.empty, chans := Map.empty, m_lastRequestId := [(''c'', 5)]\<rparr>"

definition demo_sys :: kv_sys where
  "demo_sys = \<lparr>server = demo_server, pending = [], apc = Waiting, recorded = covered demo_server, committed = {}\<rparr>"

definition demo_put :: PutAppendArgs where
  "demo_put = \<lparr>pa_key = ''k'', pa_value = ''w'', pa_op = ''Put'', pa_clientid = ''c'', pa_requestid = 3\<rparr>"

lemma demo_sys_init: "kv_init demo_sys"
  using demo_kv_wf[of "[]"] by (simp add: kv_init_def demo_sys_def demo_server_def kv_wf_def)

lemma begin_req_leader:
  "m_status (m_raftNode k) = Leader \<Longrightarrow> \<exists>rq k'. begin_req L kd op k = (Some rq, k')"
  by (auto simp: begin_req_def begin_wait_def Start_def Let_def split: prod.splits)

text \<open>A retried write whose number is on record waits until its time-out.\<close>

lemma demo_sys_run:
  "\<exists>s rq. (kv_step demo_lib)\<^sup>*\<^sup>* demo_sys s \<and> pending s = [rq] \<and> rq_kind rq = KPut \<and> rq_op rq = put_op demo_put \<and>
     rq_stage rq = Popped None \<and> m_lastRequestId (server s) = [(''c'', 5)] \<and> committed s = {}"
proof -
  have "m_status (m_raftNode demo_server) = Leader" by (simp add: demo_server_def demo_kv_def demo_node_def)
  from begin_req_leader[OF this] obtain rq k where
    run: "begin_req demo_lib KPut (put_op demo_put) demo_server = (Some rq, k)" by blast
  have wf: "raft_wf (m_raftNode demo_server)"
    "waitApplyCh demo_server (getLastLogIndex (m_raftNode demo_server) + 1) = None"
    using demo_kv_wf[of "[]"] by (simp_all add: demo_server_def kv_wf_def)
  from begin_req_started[OF wf run] obtain r where
    k: "rq_kind rq = KPut" "rq_op rq = put_op demo_put" "rq_stage rq = Blocked" "rq_chan rq = next_chan demo_server"
      "chans k (next_chan demo_server) = Some empty_queue" "m_lastRequestId k = [(''c'', 5)]"
    by (auto simp: demo_server_def)
  let ?s1 = "(set_server k demo_sys)\<lparr>pending := [rq]\<rparr>"
  have 1: "kv_step demo_lib demo_sys ?s1"
    using kv_step.putappend[of demo_lib demo_put demo_sys rq k] run by (simp add: demo_sys_def)
  obtain k2 where w: "wait_end TimeOut (rq_chan rq) k = Some (Inr (None, k2))" "m_lastRequestId k2 = [(''c'', 5)]"
    using k by (auto simp: wait_end_def empty_queue_def timeOutPop.simps)
  let ?s2 = "(set_server k2 ?s1)\<lparr>pending := [rq\<lparr>rq_stage := Popped None\<rparr>]\<rparr>"
  have "kv_step demo_lib ?s1 ?s2"
    using kv_step.wake[of ?s1 "[]" rq "[]" TimeOut None k2 demo_lib] k w by simp
  then have "(kv_step demo_lib)\<^sup>*\<^sup>* demo_sys ?s2" using 1 by (meson converse_rtranclp_into_rtranclp rtranclp.rtrancl_refl)
  then show ?thesis
    using k w by (intro exI[of _ ?s2] exI[of _ "rq\<lparr>rq_stage := Popped None\<rparr>"]) (simp add: demo_sys_def)
qed

section \<open>Properties\<close>



text \<open>
  C26: No request is ever stuck: in every reachable state, whatever the other threads have done,
  each pending request can time out and is then answered. In particular its queue has not been
  freed by another request, and ending it touches no other pending request.
\<close>

theorem requests_answered:
  assumes "kv_init s0" and "(kv_step L)\<^sup>*\<^sup>* s0 s" and "pending s = ps @ rq # qs"
  shows "\<exists>t. (kv_step L)\<^sup>*\<^sup>* s t \<and> pending t = ps @ qs \<and> committed t = committed s"
proof -
  have fin: "\<exists>t. kv_step L u t \<and> pending t = ps @ qs \<and> committed t = committed u"
    if u: "pending u = ps @ q # qs" "rq_stage q = Popped popped" "chan_inv u" for u q popped
  proof -
    have "waitApplyCh (server u) (rq_index q) = Some (rq_chan q)" "chans (server u) (rq_chan q) \<noteq> None"
      using u owns_mem[of "server u" ps q qs] by (simp_all add: chan_inv_def)
    then obtain err k where "finish q popped (server u) = Inr (err, k)"
      using finish_effect[of "server u" q "rq_chan q" popped] u(3) by (auto simp: chan_inv_def)
    then show ?thesis using kv_step.reply[OF u(1,2)] by (intro exI[of _ "(set_server k u)\<lparr>pending := ps @ qs\<rparr>"]) simp
  qed
  have inv: "chan_inv s" using kvr.holds_reachable[OF assms(1,2)] by blast
  show ?thesis
  proof (cases "rq_stage rq")
    case (Popped popped)
    then show ?thesis using fin[OF assms(3) _ inv] by blast
  next
    case Blocked
    have "chans (server s) (rq_chan rq) \<noteq> None" using inv assms(3) owns_mem[of "server s" ps rq qs] by (simp add: chan_inv_def)
    then obtain k where "wait_end TimeOut (rq_chan rq) (server s) = Some (Inr (None, k))"
      by (auto simp: wait_end_def timeOutPop.simps empty_queue_def)
    then have step: "kv_step L s ((set_server k s)\<lparr>pending := ps @ rq\<lparr>rq_stage := Popped None\<rparr> # qs\<rparr>)" (is "kv_step L s ?u")
      by (rule kv_step.wake[OF assms(3) Blocked])
    have "pending ?u = ps @ rq\<lparr>rq_stage := Popped None\<rparr> # qs" "rq_stage (rq\<lparr>rq_stage := Popped None\<rparr>) = Popped None" by simp_all
    from fin[OF this chan_inv_step[OF step inv]] obtain t where "kv_step L ?u t" "pending t = ps @ qs" "committed t = committed s"
      by auto
    then show ?thesis using step by (meson converse_rtranclp_into_rtranclp rtranclp.rtrancl_refl)
  qed
qed

theorem requests_answered_witness:
  "\<exists>s t. (kv_step demo_lib)\<^sup>*\<^sup>* demo_sys s \<and> length (pending s) = 1 \<and> (kv_step demo_lib)\<^sup>*\<^sup>* s t \<and> pending t = []"
proof -
  obtain s rq where s: "(kv_step demo_lib)\<^sup>*\<^sup>* demo_sys s" "pending s = [] @ rq # []" using demo_sys_run by auto
  from requests_answered[OF demo_sys_init s] obtain t where "(kv_step demo_lib)\<^sup>*\<^sup>* s t" "pending t = []" by auto
  then show ?thesis using s by (metis append_Nil length_Cons list.size(3) One_nat_def)
qed

text \<open>
  The end of a \<open>Get\<close>: if the popped operation is the request itself, or on a time-out the
  request is on record and the node still leader, the reply carries the stored value or
  \<open>ErrNoKey\<close>; in every other case it is \<open>ErrWrongLeader\<close>. The store is not changed and
  the request's queue is freed.
\<close>

theorem Get_finish_replies:
  assumes "skip_wf (m_skipList k)" and "waitApplyCh k i = Some ch" and "chans k ch \<noteq> None"
  shows "\<exists>k'. Get_finish op i popped k = Inr
      (if (case popped of None \<Rightarrow> ifRequestDuplicate (ClientId op) (RequestId op) k \<and> m_status (m_raftNode k) = Leader
           | Some c \<Rightarrow> same_request c op)
       then (case sl_map (m_skipList k) (Key op) of
               None \<Rightarrow> \<lparr>gr_err = ErrNoKey, gr_value = []\<rparr> | Some v \<Rightarrow> \<lparr>gr_err = OK, gr_value = v\<rparr>)
       else \<lparr>gr_err = ErrWrongLeader, gr_value = []\<rparr>, k') \<and>
    m_skipList k' = m_skipList k \<and> waitApplyCh k' = (waitApplyCh k)(i := None) \<and> chans k' = (chans k)(ch := None)"
proof -
  have ans: "get_answer op k = Inr (case sl_map (m_skipList k) (Key op) of
      None \<Rightarrow> \<lparr>gr_err = ErrNoKey, gr_value = []\<rparr> | Some v \<Rightarrow> \<lparr>gr_err = OK, gr_value = v\<rparr>, set_lastRequestId op k)"
    using ExecuteGet_spec[OF assms(1), of op]
    by (cases "sl_map (m_skipList k) (Key op)") (simp_all add: get_answer_def new_GetReply_def)
  show ?thesis
    using assms(2,3)
    by (cases popped) (auto simp: Get_finish_def ans close_chan_def GetState_def new_GetReply_def)
qed

theorem Get_finish_replies_witness:
  "\<exists>k'. Get_finish (demo_op ''Get'' [] 7) 3 (Some (demo_op ''Get'' [] 7)) (demo_kv []) = Inr (\<lparr>gr_err = OK, gr_value = ''v''\<rparr>, k')"
proof -
  have "skip_wf (m_skipList (demo_kv []))" "waitApplyCh (demo_kv []) 3 = Some 0" "chans (demo_kv []) 0 \<noteq> None"
    "sl_map (m_skipList (demo_kv [])) (Key (demo_op ''Get'' [] 7)) = Some ''v''"
    using demo_sl_wf by (simp_all add: demo_kv_def demo_op_def)
  then show ?thesis
    using Get_finish_replies[of "demo_kv []" 3 0 "demo_op ''Get'' [] 7" "Some (demo_op ''Get'' [] 7)"]
    by (auto simp: same_request_def)
qed

text \<open>
  C30: Answering an old \<open>Get\<close> lowers the client's entry in the duplicate table: a later write of
  the same client that was on record no longer is, so a repetition of it in the log is executed
  a second time and overwrites whatever other clients have stored since.
\<close>

theorem late_get_reopens_write:
  assumes "lib_ok L" and "kv_wf k" and "seen wr (kv_abs k)" and "is_write wr"
    and "ClientId rd = ClientId wr" and "RequestId rd < RequestId wr"
    and "carries L k msg wr" and "0 < evens (rand_src k)"
    and "waitApplyCh k i = Some ch" and "\<forall>j. waitApplyCh k j = Some ch \<longrightarrow> j = i"
  shows "(\<exists>k1. GetCommandFromRaft L msg k = Inr k1 \<and> sl_map (m_skipList k1) = sl_map (m_skipList k)) \<and>
    (\<exists>reply k1 k2. Get_finish rd i (Some rd) k = Inr (reply, k1) \<and> GetCommandFromRaft L msg k1 = Inr k2 \<and>
       sl_map (m_skipList k2) = (sl_map (m_skipList k))(Key wr \<mapsto> Value wr))"
proof -
  note D = kv_wfD[OF assms(2)]
  have first: "\<exists>k1. GetCommandFromRaft L msg k = Inr k1 \<and> sl_map (m_skipList k1) = sl_map (m_skipList k)"
    using GetCommandFromRaft_spec[OF assms(1,2,8,7)] spec_apply_seen[OF assms(3)] by (auto simp: kv_abs_def)
  let ?k1 = "chan_freed i ch (set_lastRequestId rd k)"
  obtain reply where "get_answer rd k = Inr (reply, set_lastRequestId rd k)" using get_answer_effect[OF D(1)] by blast
  then have g: "Get_finish rd i (Some rd) k = Inr (reply, ?k1)"
    using D(3)[OF assms(9)] assms(9) by (simp add: Get_finish_def same_request_def close_chan_def chan_freed_def)
  have wf1: "kv_wf ?k1" using assms(2,10) by (auto simp: kv_wf_def chan_freed_def split: if_splits)
  have c1: "carries L ?k1 msg wr" "0 < evens (rand_src ?k1)" using assms(7,8) by (simp_all add: carries_def chan_freed_def)
  have "\<not> seen wr (kv_abs ?k1)" using assms(5,6) by (simp add: seen_def kv_abs_def chan_freed_def)
  then have "spec_apply wr (kv_abs ?k1) = ((fst (kv_abs ?k1))(Key wr \<mapsto> Value wr), (snd (kv_abs ?k1))(ClientId wr \<mapsto> RequestId wr))"
    using assms(4) by (simp add: spec_apply_def)
  moreover have "fst (kv_abs ?k1) = sl_map (m_skipList k)" by (simp add: kv_abs_def chan_freed_def)
  ultimately obtain k2 where "GetCommandFromRaft L msg ?k1 = Inr k2" "sl_map (m_skipList k2) = (sl_map (m_skipList k))(Key wr \<mapsto> Value wr)"
    using GetCommandFromRaft_spec[OF assms(1) wf1 c1(2,1)] by (auto simp: kv_abs_def)
  then show ?thesis using first g by blast
qed

theorem late_get_reopens_write_witness:
  "\<exists>k reply k1 k2. seen (demo_op ''Put'' ''old'' 5) (kv_abs k) \<and>
     Get_finish (demo_op ''Get'' [] 4) 3 (Some (demo_op ''Get'' [] 4)) k = Inr (reply, k1) \<and>
     GetCommandFromRaft demo_lib (demo_msg (demo_op ''Put'' ''old'' 5) 9) k1 = Inr k2 \<and>
     sl_map (m_skipList k) ''k'' = Some ''v'' \<and> sl_map (m_skipList k2) ''k'' = Some ''old''"
proof -
  let ?k = "(demo_kv [])\<lparr>m_lastRequestId := [(''c'', 5)]\<rparr>" and ?w = "demo_op ''Put'' ''old'' 5" and ?r = "demo_op ''Get'' [] 4"
  have wf: "kv_wf ?k" using demo_kv_wf[of "[]"] by (simp add: kv_wf_def)
  have c: "carries demo_lib ?k (demo_msg ?w 9) ?w" using demo_carries[of 9 "[]" ?w] by (simp add: carries_def)
  have s: "seen ?w (kv_abs ?k)" "sl_map (m_skipList ?k) ''k'' = Some ''v''" "0 < evens (rand_src ?k)"
    using demo_sl_wf by (simp_all add: seen_def kv_abs_def demo_op_def demo_kv_def evens_def)
  have a: "is_write ?w" "ClientId ?r = ClientId ?w" "RequestId ?r < RequestId ?w" "Key ?w = ''k''" "Value ?w = ''old''"
    by (simp_all add: is_write_def demo_op_def)
  have ch: "waitApplyCh ?k 3 = Some 0" "\<forall>j. waitApplyCh ?k j = Some 0 \<longrightarrow> j = 3" by (simp_all add: demo_kv_def)
  from late_get_reopens_write[OF demo_lib_ok wf s(1) a(1-3) c s(3) ch] show ?thesis using s a(4,5) by fastforce
qed

end
