(* ===== verification/RpcHeader.thy ===== *)
theory RpcHeader
  imports Prelude "HOL-Library.Word"
begin

text \<open>
  The header of a remote call, src/src/rpc/rpcheader.pb.cpp: construction, clearing, copying,
  merging, swapping, the size computation, and the parse and serialise routines that the
  protobuf compiler generated for the three fields.

  The routines of the protobuf runtime they call (tags, varints, length-delimited strings,
  unknown fields) are library code: the fields of the record \<open>pblib\<close>, an argument of every
  function that uses them. \<open>pb_ok\<close> is what the program relies on, the documented fact that
  reading a written field returns its number, its wire type and its value and leaves the bytes
  after it, and that a string of known length can be read in full. \<open>demo_pb\<close> is a concrete instance.

  \<open>unknown\<close> stands for the set of unknown fields a message carries along, in wire format.
\<close>

unbundle bit_operations_syntax

section \<open>The runtime\<close>

record pblib =
  pb_write_bytes :: "nat \<Rightarrow> string \<Rightarrow> string"
  pb_write_uint32 :: "nat \<Rightarrow> 32 word \<Rightarrow> string"
  pb_read_tag :: "string \<Rightarrow> (32 word \<times> string) option"
  pb_read_bytes :: "string \<Rightarrow> (string \<times> string) option"
  pb_read_varint32 :: "string \<Rightarrow> (32 word \<times> string) option"
  pb_unknown_field :: "32 word \<Rightarrow> string \<Rightarrow> (string \<times> string) option"
  pb_write_varint32 :: "32 word \<Rightarrow> string"
  pb_bytes_size :: "string \<Rightarrow> nat"
  pb_uint32_size :: "32 word \<Rightarrow> nat"
  pb_read_string :: "32 word \<Rightarrow> string \<Rightarrow> bool \<times> string \<times> string"

definition pb_ok :: "pblib \<Rightarrow> bool" where
  "pb_ok P \<longleftrightarrow>
     (\<forall>f s r. 0 < f \<and> f < 16 \<longrightarrow> (\<exists>x. pb_read_tag P (pb_write_bytes P f s @ r) = Some (word_of_nat (8 * f + 2), x) \<and>
        pb_read_bytes P x = Some (s, r))) \<and>
     (\<forall>f n r. 0 < f \<and> f < 16 \<longrightarrow> (\<exists>x. pb_read_tag P (pb_write_uint32 P f n @ r) = Some (word_of_nat (8 * f), x) \<and>
        pb_read_varint32 P x = Some (n, r))) \<and>
     (\<forall>n r. pb_read_varint32 P (pb_write_varint32 P n @ r) = Some (n, r)) \<and>
     (\<forall>f s. 0 < f \<and> f < 16 \<longrightarrow> length (pb_write_bytes P f s) = 1 + pb_bytes_size P s) \<and>
     (\<forall>f n. 0 < f \<and> f < 16 \<longrightarrow> length (pb_write_uint32 P f n) = 1 + pb_uint32_size P n) \<and>
     (\<forall>s r. length s < 2 ^ 31 \<longrightarrow> pb_read_string P (word_of_nat (length s)) (s @ r) = (True, s, r))"

section \<open>The message\<close>

record RpcHeader =
  service_name :: string
  method_name :: string
  args_size :: "32 word"
  unknown :: string

definition new_RpcHeader :: RpcHeader where
  "new_RpcHeader = \<lparr>service_name = [], method_name = [], args_size = 0, unknown = []\<rparr>"

definition copy_RpcHeader :: "RpcHeader \<Rightarrow> RpcHeader" where
  "copy_RpcHeader from =
     (let h = \<lparr>service_name = [], method_name = [], args_size = 0, unknown = unknown from\<rparr>;
          h1 = (if service_name from \<noteq> [] then h\<lparr>service_name := service_name from\<rparr> else h);
          h2 = (if method_name from \<noteq> [] then h1\<lparr>method_name := method_name from\<rparr> else h1)
      in h2\<lparr>args_size := args_size from\<rparr>)"

definition Clear :: "RpcHeader \<Rightarrow> RpcHeader" where
  "Clear h = h\<lparr>service_name := [], method_name := [], args_size := 0, unknown := []\<rparr>"

definition MergeFrom :: "RpcHeader \<Rightarrow> RpcHeader \<Rightarrow> RpcHeader" where
  "MergeFrom from h =
     (let h0 = h\<lparr>unknown := unknown h @ unknown from\<rparr>;
          h1 = (if length (service_name from) > 0 then h0\<lparr>service_name := service_name from\<rparr> else h0);
          h2 = (if length (method_name from) > 0 then h1\<lparr>method_name := method_name from\<rparr> else h1)
      in if args_size from \<noteq> 0 then h2\<lparr>args_size := args_size from\<rparr> else h2)"

text \<open>\<open>CopyFrom\<close> of another object; copying an object to itself returns at once.\<close>

definition CopyFrom :: "RpcHeader \<Rightarrow> RpcHeader \<Rightarrow> RpcHeader" where
  "CopyFrom from h = MergeFrom from (Clear h)"

text \<open>
  The versions for a message of any class: \<open>cast\<close> is the dynamic cast to \<open>RpcHeader\<close> and \<open>reflect\<close> the merge by
  reflection of the protobuf runtime. \<open>same\<close> tells that source and target are the same object.
\<close>

definition MergeFrom_Message :: "('m \<Rightarrow> RpcHeader option) \<Rightarrow> ('m \<Rightarrow> RpcHeader \<Rightarrow> RpcHeader) \<Rightarrow> 'm \<Rightarrow> RpcHeader \<Rightarrow> RpcHeader" where
  "MergeFrom_Message cast reflect from h =
     (case cast from of None \<Rightarrow> reflect from h | Some source \<Rightarrow> MergeFrom source h)"

definition CopyFrom_Message ::
  "('m \<Rightarrow> RpcHeader option) \<Rightarrow> ('m \<Rightarrow> RpcHeader \<Rightarrow> RpcHeader) \<Rightarrow> bool \<Rightarrow> 'm \<Rightarrow> RpcHeader \<Rightarrow> RpcHeader" where
  "CopyFrom_Message cast reflect same from h =
     (if same then h else MergeFrom_Message cast reflect from (Clear h))"

definition IsInitialized :: "RpcHeader \<Rightarrow> bool" where
  "IsInitialized h = True"

definition InternalSwap :: "RpcHeader \<Rightarrow> RpcHeader \<Rightarrow> RpcHeader \<times> RpcHeader" where
  "InternalSwap h other =
     (h\<lparr>unknown := unknown other, service_name := service_name other, method_name := method_name other,
        args_size := args_size other\<rparr>,
      other\<lparr>unknown := unknown h, service_name := service_name h, method_name := method_name h,
        args_size := args_size h\<rparr>)"

section \<open>Wire format\<close>

definition InternalSerialize :: "pblib \<Rightarrow> RpcHeader \<Rightarrow> string" where
  "InternalSerialize P h =
     (if length (service_name h) > 0 then pb_write_bytes P 1 (service_name h) else []) @
     (if length (method_name h) > 0 then pb_write_bytes P 2 (method_name h) else []) @
     (if args_size h \<noteq> 0 then pb_write_uint32 P 3 (args_size h) else []) @
     unknown h"

definition ByteSizeLong :: "pblib \<Rightarrow> RpcHeader \<Rightarrow> nat" where
  "ByteSizeLong P h =
     (if length (service_name h) > 0 then 1 + pb_bytes_size P (service_name h) else 0) +
     (if length (method_name h) > 0 then 1 + pb_bytes_size P (method_name h) else 0) +
     (if args_size h \<noteq> 0 then 1 + pb_uint32_size P (args_size h) else 0) +
     length (unknown h)"

text \<open>
  \<open>_InternalParse\<close>: the fields in any order, a later value replacing an earlier one. The
  result has the tag that ended the message early, if any. Every turn reads a tag of at least one
  byte, so the length of the input is enough fuel.
\<close>

fun InternalParse :: "pblib \<Rightarrow> nat \<Rightarrow> string \<Rightarrow> RpcHeader \<Rightarrow> (RpcHeader \<times> 32 word option) option" where
  "InternalParse P 0 ptr h = (if ptr = [] then Some (h, None) else None)"
| "InternalParse P (Suc fuel) ptr h =
     (if ptr = [] then Some (h, None)
      else case pb_read_tag P ptr of
        None \<Rightarrow> None
      | Some (tag, p) \<Rightarrow>
          if drop_bit 3 tag = 1 \<and> take_bit 8 tag = 10 then
            (case pb_read_bytes P p of
               None \<Rightarrow> None
             | Some (s, p') \<Rightarrow> InternalParse P fuel p' (h\<lparr>service_name := s\<rparr>))
          else if drop_bit 3 tag = 2 \<and> take_bit 8 tag = 18 then
            (case pb_read_bytes P p of
               None \<Rightarrow> None
             | Some (s, p') \<Rightarrow> InternalParse P fuel p' (h\<lparr>method_name := s\<rparr>))
          else if drop_bit 3 tag = 3 \<and> take_bit 8 tag = 24 then
            (case pb_read_varint32 P p of
               None \<Rightarrow> None
             | Some (n, p') \<Rightarrow> InternalParse P fuel p' (h\<lparr>args_size := n\<rparr>))
          else if tag AND 7 = 4 \<or> tag = 0 then Some (h, Some tag)
          else
            (case pb_unknown_field P tag p of
               None \<Rightarrow> None
             | Some (u, p') \<Rightarrow> InternalParse P fuel p' (h\<lparr>unknown := unknown h @ u\<rparr>)))"

text \<open>\<open>ParseFromString\<close> clears the message first and wants the input used up.\<close>

definition header_ParseFromString :: "pblib \<Rightarrow> string \<Rightarrow> RpcHeader option" where
  "header_ParseFromString P s =
     (case InternalParse P (length s) s (Clear new_RpcHeader) of
        Some (h, None) \<Rightarrow> if IsInitialized h then Some h else None
      | _ \<Rightarrow> None)"

section \<open>A concrete runtime\<close>

text \<open>One byte for a tag; numbers in unary.\<close>

definition demo_num :: "nat \<Rightarrow> string" where
  "demo_num n = replicate n (CHR ''1'') @ [CHR ''0'']"

definition demo_read_num :: "string \<Rightarrow> (nat \<times> string) option" where
  "demo_read_num s = (case dropWhile (\<lambda>c. c = CHR ''1'') s of
     [] \<Rightarrow> None | c # r \<Rightarrow> Some (length (takeWhile (\<lambda>c. c = CHR ''1'') s), r))"

definition demo_pb :: pblib where
  "demo_pb = \<lparr>
     pb_write_bytes = (\<lambda>f s. char_of (8 * f + 2) # demo_num (length s) @ s),
     pb_write_uint32 = (\<lambda>f n. char_of (8 * f) # demo_num (unat n)),
     pb_read_tag = (\<lambda>s. case s of [] \<Rightarrow> None | c # r \<Rightarrow> Some (word_of_nat (of_char c), r)),
     pb_read_bytes = (\<lambda>s. case demo_read_num s of None \<Rightarrow> None
       | Some (n, r) \<Rightarrow> if n \<le> length r then Some (take n r, drop n r) else None),
     pb_read_varint32 = (\<lambda>s. case demo_read_num s of None \<Rightarrow> None | Some (n, r) \<Rightarrow> Some (word_of_nat n, r)),
     pb_unknown_field = (\<lambda>tag s. None),
     pb_write_varint32 = (\<lambda>n. demo_num (unat n)),
     pb_bytes_size = (\<lambda>s. 2 * length s + 1), pb_uint32_size = (\<lambda>n. unat n + 1),
     pb_read_string = (\<lambda>n s. if unat n \<le> length s then (True, take (unat n) s, drop (unat n) s) else (False, s, []))\<rparr>"

lemma demo_read_num: "demo_read_num (demo_num n @ r) = Some (n, r)"
proof -
  have "dropWhile (\<lambda>c. c = CHR ''1'') (demo_num n @ r) = CHR ''0'' # r"
    "takeWhile (\<lambda>c. c = CHR ''1'') (demo_num n @ r) = replicate n (CHR ''1'')"
    by (induction n) (simp_all add: demo_num_def)
  then show ?thesis by (simp add: demo_read_num_def)
qed

lemma length_demo_num [simp]: "length (demo_num n) = n + 1"
  by (simp add: demo_num_def)

lemma demo_pb_ok: "pb_ok demo_pb"
  by (auto simp: pb_ok_def demo_pb_def demo_read_num demo_read_num[of _ "[]", simplified] word_of_nat_eq_iff unat_of_nat take_bit_nat_eq_self)

section \<open>Lemmas\<close>

lemma pb_field:
  assumes "pb_ok P" and "0 < f" and "f < 16"
  shows "\<exists>x. pb_read_tag P (pb_write_bytes P f s @ r) = Some (word_of_nat (8 * f + 2), x) \<and> pb_read_bytes P x = Some (s, r)"
    and "\<exists>x. pb_read_tag P (pb_write_uint32 P f n @ r) = Some (word_of_nat (8 * f), x) \<and> pb_read_varint32 P x = Some (n, r)"
    and "length (pb_write_bytes P f s) = 1 + pb_bytes_size P s"
    and "length (pb_write_uint32 P f n) = 1 + pb_uint32_size P n"
  subgoal using assms by (simp add: pb_ok_def)
  subgoal using assms by (simp add: pb_ok_def)
  subgoal using assms by (simp add: pb_ok_def)
  subgoal using assms by (simp add: pb_ok_def)
  done

lemma pb_varint: "pb_ok P \<Longrightarrow> pb_read_varint32 P (pb_write_varint32 P n @ r) = Some (n, r)"
  by (simp add: pb_ok_def)

lemma pb_string: "pb_ok P \<Longrightarrow> length s < 2 ^ 31 \<Longrightarrow> pb_read_string P (word_of_nat (length s)) (s @ r) = (True, s, r)"
  by (simp add: pb_ok_def)

lemma pb_nonempty:
  assumes "pb_ok P" and "0 < f" and "f < 16"
  shows "pb_write_bytes P f s \<noteq> []" and "pb_write_uint32 P f n \<noteq> []"
  using pb_field(3)[OF assms, of s] pb_field(4)[OF assms, of n] by auto

lemma parse_service:
  assumes "pb_ok P"
  shows "InternalParse P (Suc fuel) (pb_write_bytes P 1 s @ r) h = InternalParse P fuel r (h\<lparr>service_name := s\<rparr>)"
  using pb_field(1)[OF assms, of 1 s r] pb_nonempty(1)[OF assms, of 1 s] by auto

lemma parse_method:
  assumes "pb_ok P"
  shows "InternalParse P (Suc fuel) (pb_write_bytes P 2 s @ r) h = InternalParse P fuel r (h\<lparr>method_name := s\<rparr>)"
  using pb_field(1)[OF assms, of 2 s r] pb_nonempty(1)[OF assms, of 2 s] by auto

lemma parse_args:
  assumes "pb_ok P"
  shows "InternalParse P (Suc fuel) (pb_write_uint32 P 3 n @ r) h = InternalParse P fuel r (h\<lparr>args_size := n\<rparr>)"
  using pb_field(2)[OF assms, of 3 n r] pb_nonempty(2)[OF assms, of 3 n] by auto

text \<open>The three optional fields, from the last one on.\<close>

lemma parse_tail_args:
  assumes "pb_ok P" and "(if n \<noteq> 0 then 1 else 0) \<le> fuel" and "n = 0 \<Longrightarrow> args_size h = 0"
  shows "InternalParse P fuel (if n \<noteq> 0 then pb_write_uint32 P 3 n else []) h = Some (h\<lparr>args_size := n\<rparr>, None)"
proof (cases "n = 0")
  case True
  then show ?thesis using assms(3) by (cases fuel) auto
next
  case False
  then obtain f where f: "fuel = Suc f" using assms(2) by (cases fuel) auto
  then show ?thesis using False parse_args[OF assms(1), of f n "[]" h] by (cases f) auto
qed

lemma parse_opt_bytes:
  assumes "\<And>f r. InternalParse P (Suc f) (w @ r) h = InternalParse P f r h'"
    and "b \<Longrightarrow> 1 \<le> fuel" and "\<not> b \<Longrightarrow> h' = h"
  shows "InternalParse P fuel ((if b then w else []) @ r) h = InternalParse P (fuel - (if b then 1 else 0)) r h'"
  using assms by (cases fuel; cases b) auto

lemma parse_serialized:
  assumes P: "pb_ok P" and u: "unknown h = []" and fuel: "length (InternalSerialize P h) \<le> fuel"
  shows "InternalParse P fuel (InternalSerialize P h) new_RpcHeader = Some (h, None)"
proof -
  let ?s = "service_name h" and ?m = "method_name h" and ?a = "args_size h"
  have fuel: "(if 0 < length ?s then 1 else 0) + (if 0 < length ?m then 1 else 0) + (if ?a \<noteq> 0 then 1 else 0) \<le> fuel"
    using fuel pb_field(3)[OF P, of 1 ?s] pb_field(3)[OF P, of 2 ?m] pb_field(4)[OF P, of 3 ?a]
    by (auto simp: InternalSerialize_def split: if_splits)
  let ?h1 = "new_RpcHeader\<lparr>service_name := ?s\<rparr>" and ?h2 = "new_RpcHeader\<lparr>service_name := ?s, method_name := ?m\<rparr>"
  let ?f1 = "fuel - (if 0 < length ?s then 1 else 0)"
  let ?f2 = "?f1 - (if 0 < length ?m then 1 else 0)"
  let ?ta = "if ?a \<noteq> 0 then pb_write_uint32 P 3 ?a else []"
  let ?tm = "(if 0 < length ?m then pb_write_bytes P 2 ?m else []) @ ?ta"
  have "InternalParse P fuel ((if 0 < length ?s then pb_write_bytes P 1 ?s else []) @ ?tm) new_RpcHeader
      = InternalParse P ?f1 ?tm ?h1"
    by (rule parse_opt_bytes[OF parse_service[OF P]])
      (use fuel in \<open>auto simp: new_RpcHeader_def split: if_splits\<close>)
  also have "\<dots> = InternalParse P ?f2 ?ta ?h2"
    by (rule parse_opt_bytes[OF parse_method[OF P]])
      (use fuel in \<open>auto simp: new_RpcHeader_def split: if_splits\<close>)
  also have "\<dots> = Some (?h2\<lparr>args_size := ?a\<rparr>, None)"
    by (rule parse_tail_args[OF P])
      (use fuel in \<open>auto simp: new_RpcHeader_def split: if_splits\<close>)
  also have "?h2\<lparr>args_size := ?a\<rparr> = h" using u by (cases h) (simp add: new_RpcHeader_def)
  finally show ?thesis using u by (simp add: InternalSerialize_def)
qed

text \<open>Reading back a header that carries no unknown fields.\<close>

lemma header_roundtrip:
  assumes "pb_ok P" and "unknown h = []"
  shows "header_ParseFromString P (InternalSerialize P h) = Some h"
  using parse_serialized[OF assms order_refl]
  by (simp add: header_ParseFromString_def Clear_def new_RpcHeader_def IsInitialized_def)

lemma ByteSizeLong_exact: "pb_ok P \<Longrightarrow> ByteSizeLong P h = length (InternalSerialize P h)"
  by (simp add: ByteSizeLong_def InternalSerialize_def pb_field(3,4))

lemma CopyFrom_Message_copies: "cast m = Some from \<Longrightarrow> CopyFrom_Message cast reflect False m h = from"
  by (auto simp: CopyFrom_Message_def MergeFrom_Message_def MergeFrom_def Clear_def Let_def)

lemma CopyFrom_copies: "CopyFrom from h = from \<and> copy_RpcHeader from = from"
  by (auto simp: CopyFrom_def MergeFrom_def Clear_def copy_RpcHeader_def Let_def)

end
