(* ===== verification/Rpc.thy ===== *)
theory Rpc
  imports RpcHeader RpcConfig
begin

text \<open>
  Remote calls: \<open>MprpcController\<close> (src/src/rpc/mprpccontroller.cpp), the client's channel
  \<open>MprpcChannel\<close> (mprpcchannel.cpp), the server's \<open>RpcProvider\<close> (rpcprovider.cpp) and
  the stubs \<open>RaftRpcUtil\<close> and \<open>raftServerRpcUtil\<close>.

  What the operating system does is an argument: the results of \<open>socket\<close> and \<open>connect\<close>,
  of each \<open>send\<close>, and of \<open>recv\<close>. The encodings of the protobuf runtime are the record
  \<open>pblib\<close>; the encoding of the request and response of a method are arguments too, since
  any message type can be sent. \<open>OnMessage\<close> returns what the provider does with one piece of
  input: one of its silent refusals, or the call of a service method.
\<close>

section \<open>MprpcController\<close>

record MprpcController =
  m_failed :: bool
  m_errText :: string

definition new_MprpcController :: MprpcController where
  "new_MprpcController = \<lparr>m_failed = False, m_errText = []\<rparr>"

definition Reset :: "MprpcController \<Rightarrow> MprpcController" where
  "Reset c = c\<lparr>m_failed := False, m_errText := []\<rparr>"

definition Failed :: "MprpcController \<Rightarrow> bool" where
  "Failed c = m_failed c"

definition ErrorText :: "MprpcController \<Rightarrow> string" where
  "ErrorText c = m_errText c"

definition SetFailed :: "string \<Rightarrow> MprpcController \<Rightarrow> MprpcController" where
  "SetFailed reason c = c\<lparr>m_failed := True, m_errText := reason\<rparr>"

definition IsCanceled :: "MprpcController \<Rightarrow> bool" where
  "IsCanceled c = False"

section \<open>MprpcChannel\<close>

record MprpcChannel =
  m_clientFd :: int
  m_ip :: string
  m_port :: "16 word"

text \<open>The outcome of \<open>socket\<close> and \<open>connect\<close>: an error number or the descriptor.\<close>

datatype conn_result = SocketError int | ConnectError int | Connected int

definition newConnect :: "conn_result \<Rightarrow> MprpcChannel \<Rightarrow> bool \<times> string \<times> MprpcChannel" where
  "newConnect res c =
     (case res of
        SocketError e \<Rightarrow> (False, ''create socket error! errno:'' @ to_string e, c\<lparr>m_clientFd := -1\<rparr>)
      | ConnectError e \<Rightarrow> (False, ''connect fail! errno:'' @ to_string e, c\<lparr>m_clientFd := -1\<rparr>)
      | Connected fd \<Rightarrow> (True, [], c\<lparr>m_clientFd := fd\<rparr>))"

text \<open>The constructor: with \<open>connectNow\<close> one attempt and up to three more.\<close>

fun connect_retry :: "nat \<Rightarrow> conn_result list \<Rightarrow> MprpcChannel \<Rightarrow> MprpcChannel res" where
  "connect_retry n [] c = Inl Diverges"
| "connect_retry n (r # rs) c =
     (case newConnect r c of
        (True, _, c') \<Rightarrow> Inr c'
      | (False, _, c') \<Rightarrow> (case n of 0 \<Rightarrow> Inr c' | Suc k \<Rightarrow> connect_retry k rs c'))"

definition new_MprpcChannel :: "string \<Rightarrow> 16 word \<Rightarrow> bool \<Rightarrow> conn_result list \<Rightarrow> MprpcChannel res" where
  "new_MprpcChannel ip port connectNow rs =
     (let c = \<lparr>m_clientFd = -1, m_ip = ip, m_port = port\<rparr> in
      if \<not> connectNow then Inr c else connect_retry 3 rs c)"

text \<open>One frame: header length as a varint, header, arguments.\<close>

definition frame :: "pblib \<Rightarrow> string \<Rightarrow> string \<Rightarrow> string \<Rightarrow> string" where
  "frame P service meth args =
     (let h = new_RpcHeader\<lparr>service_name := service, method_name := meth,
                args_size := word_of_nat (length args)\<rparr>;
          hs = InternalSerialize P h
      in pb_write_varint32 P (word_of_nat (length hs)) @ hs @ args)"

text \<open>A \<open>send\<close> fails, and the reconnection has an outcome, or is accepted.\<close>

datatype send_result = SendError conn_result | Sent

fun send_loop :: "send_result list \<Rightarrow> MprpcChannel \<Rightarrow> (string option \<times> MprpcChannel) res" where
  "send_loop [] c = Inl Diverges"
| "send_loop (Sent # _) c = Inr (None, c)"
| "send_loop (SendError r # rs) c =
     (case newConnect r (c\<lparr>m_clientFd := -1\<rparr>) of
        (True, _, c') \<Rightarrow> send_loop rs c'
      | (False, err, c') \<Rightarrow> Inr (Some err, c'))"

text \<open>\<open>recv\<close> into a buffer of 1024 bytes: what it can return of the bytes that have arrived.\<close>

datatype recv_result = RecvError int | Received string

record call_result =
  cr_channel :: MprpcChannel
  cr_controller :: MprpcController
  cr_sent :: "string option"

definition CallMethod ::
  "pblib \<Rightarrow> string \<Rightarrow> string \<Rightarrow> string option \<Rightarrow> (string \<Rightarrow> 'r option) \<Rightarrow> conn_result \<Rightarrow> send_result list \<Rightarrow>
   recv_result \<Rightarrow> MprpcChannel \<Rightarrow> MprpcController \<Rightarrow> ('r option \<times> call_result) res" where
  "CallMethod P service meth request parse conn sends recv c ctl =
     (let (rt, errMsg, c1) = (if m_clientFd c = -1 then newConnect conn c else (True, [], c)) in
      if \<not> rt then Inr (None, \<lparr>cr_channel = c1, cr_controller = SetFailed errMsg ctl, cr_sent = None\<rparr>)
      else case request of
        None \<Rightarrow> Inr (None, \<lparr>cr_channel = c1, cr_controller = SetFailed ''serialize request error!'' ctl, cr_sent = None\<rparr>)
      | Some args_str \<Rightarrow>
          let send_rpc_str = frame P service meth args_str in
          bindr (send_loop sends c1) (\<lambda>(err, c2).
          case err of
            Some e \<Rightarrow> Inr (None, \<lparr>cr_channel = c2, cr_controller = SetFailed e ctl, cr_sent = None\<rparr>)
          | None \<Rightarrow>
              (case recv of
                 RecvError e \<Rightarrow> Inr (None, \<lparr>cr_channel = c2\<lparr>m_clientFd := -1\<rparr>,
                     cr_controller = SetFailed (''recv error! errno:'' @ to_string e) ctl, cr_sent = Some send_rpc_str\<rparr>)
               | Received bytes \<Rightarrow>
                   (case parse bytes of
                      None \<Rightarrow> Inr (None, \<lparr>cr_channel = c2,
                          cr_controller = SetFailed (''parse error! response_str:'' @ takeWhile (\<lambda>x. x \<noteq> CHR 0x00) bytes) ctl,
                          cr_sent = Some send_rpc_str\<rparr>)
                    | Some r \<Rightarrow> Inr (Some r, \<lparr>cr_channel = c2, cr_controller = ctl, cr_sent = Some send_rpc_str\<rparr>)))))"

section \<open>RpcProvider\<close>

type_synonym 'svc ServiceInfo = "'svc \<times> string list"

type_synonym 'svc RpcProvider = "(string \<times> 'svc ServiceInfo) list"

text \<open>\<open>insert\<close> keeps the entry that is there.\<close>

definition NotifyService :: "string \<Rightarrow> 'svc \<Rightarrow> string list \<Rightarrow> 'svc RpcProvider \<Rightarrow> 'svc RpcProvider" where
  "NotifyService sname service methods p =
     (if sname \<in> fst ` set p then p else p @ [(sname, (service, remdups methods))])"

datatype 'svc action =
  HeaderError
| ArgsShort
| NoService string
| NoMethod string string
| BadRequest string
| Dispatch 'svc string string

definition OnMessage :: "pblib \<Rightarrow> (string \<Rightarrow> string \<Rightarrow> bool) \<Rightarrow> 'svc RpcProvider \<Rightarrow> string \<Rightarrow> 'svc action" where
  "OnMessage P parses p recv_buf =
     (let (header_size, s1) = (case pb_read_varint32 P recv_buf of None \<Rightarrow> (0, recv_buf) | Some (n, r) \<Rightarrow> (n, r));
          (_, rpc_header_str, s2) = pb_read_string P header_size s1 in
      case header_ParseFromString P rpc_header_str of
        None \<Rightarrow> HeaderError
      | Some h \<Rightarrow>
          let (read_args_success, args_str, s3) = pb_read_string P (args_size h) s2 in
          if \<not> read_args_success then ArgsShort
          else case map_of p (service_name h) of
            None \<Rightarrow> NoService (service_name h)
          | Some (service, methods) \<Rightarrow>
              if method_name h \<notin> set methods then NoMethod (service_name h) (method_name h)
              else if \<not> parses (method_name h) args_str then BadRequest args_str
              else Dispatch service (method_name h) args_str)"

text \<open>What is written back once the service has run its closure.\<close>

definition SendRpcResponse :: "string option \<Rightarrow> string list \<Rightarrow> string list" where
  "SendRpcResponse response sent = (case response of Some s \<Rightarrow> sent @ [s] | None \<Rightarrow> sent)"

section \<open>Stubs\<close>

definition stub_call ::
  "pblib \<Rightarrow> string \<Rightarrow> string \<Rightarrow> string option \<Rightarrow> (string \<Rightarrow> 'r option) \<Rightarrow> conn_result \<Rightarrow> send_result list \<Rightarrow>
   recv_result \<Rightarrow> MprpcChannel \<Rightarrow> (bool \<times> 'r option \<times> MprpcChannel) res" where
  "stub_call P service meth request parse conn sends recv c =
     bindr (CallMethod P service meth request parse conn sends recv c new_MprpcController) (\<lambda>(r, cr).
     Inr (\<not> Failed (cr_controller cr), r, cr_channel cr))"

definition RaftRpcUtil_AppendEntries where
  "RaftRpcUtil_AppendEntries P = stub_call P ''raftRpc'' ''AppendEntries''"

definition RaftRpcUtil_InstallSnapshot where
  "RaftRpcUtil_InstallSnapshot P = stub_call P ''raftRpc'' ''InstallSnapshot''"

definition RaftRpcUtil_RequestVote where
  "RaftRpcUtil_RequestVote P = stub_call P ''raftRpc'' ''RequestVote''"

definition raftServerRpcUtil_Get where
  "raftServerRpcUtil_Get P = stub_call P ''kvServerRpc'' ''Get''"

definition raftServerRpcUtil_PutAppend where
  "raftServerRpcUtil_PutAppend P = stub_call P ''kvServerRpc'' ''PutAppend''"

definition new_RaftRpcUtil :: "string \<Rightarrow> 16 word \<Rightarrow> conn_result list \<Rightarrow> MprpcChannel res" where
  "new_RaftRpcUtil ip port rs = new_MprpcChannel ip port True rs"

definition new_raftServerRpcUtil :: "string \<Rightarrow> 16 word \<Rightarrow> MprpcChannel res" where
  "new_raftServerRpcUtil ip port = new_MprpcChannel ip port False []"

section \<open>Lemmas\<close>

definition call_header :: "string \<Rightarrow> string \<Rightarrow> string \<Rightarrow> RpcHeader" where
  "call_header service meth args =
     new_RpcHeader\<lparr>service_name := service, method_name := meth, args_size := word_of_nat (length args)\<rparr>"

lemma frame_eq:
  "frame P service meth args = pb_write_varint32 P (word_of_nat (length (InternalSerialize P (call_header service meth args)))) @
     InternalSerialize P (call_header service meth args) @ args"
  by (simp add: frame_def call_header_def Let_def)

text \<open>What the provider reads of a frame, whatever follows it in the buffer.\<close>

lemma OnMessage_frame:
  assumes P: "pb_ok P" and len: "length args < 2 ^ 31" "length (InternalSerialize P (call_header service meth args)) < 2 ^ 31"
  shows "OnMessage P parses p (frame P service meth args @ rest) =
    (case map_of p service of
       None \<Rightarrow> NoService service
     | Some (svc, methods) \<Rightarrow>
         if meth \<notin> set methods then NoMethod service meth
         else if \<not> parses meth args then BadRequest args else Dispatch svc meth args)"
proof -
  let ?h = "call_header service meth args"
  have "unknown ?h = []" by (simp add: call_header_def new_RpcHeader_def)
  then have h: "header_ParseFromString P (InternalSerialize P ?h) = Some ?h" by (rule header_roundtrip[OF P])
  have f: "service_name ?h = service" "method_name ?h = meth" "args_size ?h = word_of_nat (length args)"
    by (simp_all add: call_header_def)
  show ?thesis
    by (simp add: OnMessage_def frame_eq pb_varint[OF P] pb_string[OF P len(2)] h f pb_string[OF P len(1)]
        split: option.split)
qed

lemma send_loop_total: "Sent \<in> set rs \<Longrightarrow> \<exists>err c'. send_loop rs c = Inr (err, c')"
proof (induction rs arbitrary: c)
  case (Cons r rs)
  then show ?case
    by (cases r) (auto simp: newConnect_def split: conn_result.split)
qed simp

lemma CallMethod_cases:
  assumes "Sent \<in> set sends"
  shows "\<exists>r cr. CallMethod P service meth request parse conn sends recv c ctl = Inr (r, cr) \<and>
    (r \<noteq> None \<longrightarrow> cr_controller cr = ctl \<and> (\<exists>args. request = Some args \<and> cr_sent cr = Some (frame P service meth args)) \<and>
       (\<exists>bytes. recv = Received bytes \<and> parse bytes = r)) \<and>
    (r = None \<longrightarrow> m_failed (cr_controller cr))"
proof -
  obtain rt err c1 where n: "(if m_clientFd c = -1 then newConnect conn c else (True, [], c)) = (rt, err, c1)"
    by (metis prod_cases3)
  obtain e2 c2 where s: "send_loop sends c1 = Inr (e2, c2)" using send_loop_total[OF assms] by blast
  show ?thesis
    using n s by (cases rt; cases request; cases e2; cases recv; cases "\<exists>b. recv = Received b \<and> parse b = None")
      (auto simp: CallMethod_def SetFailed_def Let_def split: option.splits)
qed

section \<open>Properties\<close>

text \<open>
  C28: A frame built by the client's channel is understood by the provider: the registered
  service is called with the method and exactly the argument bytes the client passed. Bytes that
  follow the frame in the receive buffer, such as the next request on the same connection, have
  no effect: the provider takes everything out of the buffer and looks at the first frame only.
\<close>

theorem frame_dispatched:
  assumes "pb_ok P" and "map_of p service = Some (svc, methods)" and "meth \<in> set methods" and "parses meth args"
    and "length args < 2 ^ 31" and "length (InternalSerialize P (call_header service meth args)) < 2 ^ 31"
  shows "OnMessage P parses p (frame P service meth args @ rest) = Dispatch svc meth args"
  using OnMessage_frame[OF assms(1,5,6), of parses p rest] assms(2-4) by simp

theorem frame_dispatched_witness:
  "OnMessage demo_pb (\<lambda>m a. True) (NotifyService ''raftRpc'' (1 :: nat) [''RequestVote''] [])
     (frame demo_pb ''raftRpc'' ''RequestVote'' ''abc'' @ ''next'') = Dispatch 1 ''RequestVote'' ''abc''"
proof -
  have "length (InternalSerialize demo_pb (call_header ''raftRpc'' ''RequestVote'' ''abc'')) < 2 ^ 31"
    by (simp add: InternalSerialize_def call_header_def new_RpcHeader_def demo_pb_def)
  then show ?thesis
    using frame_dispatched[OF demo_pb_ok, of "NotifyService ''raftRpc'' (1 :: nat) [''RequestVote''] []" "''raftRpc''" 1
        "[''RequestVote'']" "''RequestVote''" "\<lambda>m a. True" "''abc''" "''next''"]
    by (simp add: NotifyService_def)
qed

text \<open>
  A stub reports success exactly when a response has been parsed, and then the request was
  serialised and the response is the parse of what was received; once a \<open>send\<close> is accepted,
  the call always returns. As an end of stream is the empty string, a
  connection closed by the server counts as a successful call with the default response.
\<close>

theorem stub_call_reports:
  assumes "Sent \<in> set sends"
  shows "\<exists>ok r c'. stub_call P service meth request parse conn sends recv c = Inr (ok, r, c') \<and>
    (ok \<longleftrightarrow> r \<noteq> None) \<and> (ok \<longrightarrow> request \<noteq> None \<and> (\<exists>bytes. recv = Received bytes \<and> parse bytes = r))"
  using CallMethod_cases[OF assms, of P service meth request parse conn recv c new_MprpcController]
  by (auto simp: stub_call_def Failed_def new_MprpcController_def)

theorem stub_call_reports_witness:
  "\<exists>ok r c'. stub_call demo_pb ''kvServerRpc'' ''Get'' (Some ''k'') (\<lambda>s. Some (length s)) (Connected 5)
      [SendError (Connected 6), Sent] (Received []) \<lparr>m_clientFd = -1, m_ip = ''h'', m_port = 1\<rparr> = Inr (ok, r, c') \<and>
     (ok \<longleftrightarrow> r \<noteq> None)"
  using stub_call_reports[of "[SendError (Connected 6), Sent]"] by fastforce

end
