(* ===== verification/Clerk.thy ===== *)
theory Clerk
  imports Rpc Wire
begin

text \<open>
  The client src/src/raftClerk/clerk.cpp: request numbers, and the loops that try one server
  after the other until one of them answers as leader.

  One remote call is an argument \<open>rpc\<close>: given the number of the attempt, the server asked,
  the request and the channel, it returns whether the call succeeded, the reply (a default one if
  nothing was received) and the channel; \<open>raftServerRpcUtil_Get\<close> and
  \<open>raftServerRpcUtil_PutAppend\<close> of the theory \<open>Rpc\<close> are such functions. The loops may run
  forever, so they take fuel, and \<open>None\<close> means that all these attempts went by without an
  answer.

  The locale \<open>round_robin\<close> states what both loops have in common and proves once that a
  leader is found within one round.
\<close>

section \<open>State\<close>

record Clerk =
  m_servers :: "MprpcChannel list"
  m_clientId :: string
  m_requestId :: int
  m_recentLeaderId :: nat

type_synonym ('a, 'r) rpc = "nat \<Rightarrow> nat \<Rightarrow> 'a \<Rightarrow> MprpcChannel \<Rightarrow> bool \<times> 'r \<times> MprpcChannel"

definition Uuid :: "int list \<Rightarrow> string \<times> int list" where
  "Uuid rs = (concat (map to_string (take 4 rs)), drop 4 rs)"

definition new_Clerk :: "int list \<Rightarrow> Clerk \<times> int list" where
  "new_Clerk rs = (let (u, rs') = Uuid rs in
     (\<lparr>m_servers = [], m_clientId = u, m_requestId = 0, m_recentLeaderId = 0\<rparr>, rs'))"

fun add_servers :: "(string \<times> 16 word) list \<Rightarrow> Clerk \<Rightarrow> Clerk res" where
  "add_servers [] c = Inr c"
| "add_servers ((ip, port) # items) c =
     bindr (new_raftServerRpcUtil ip port) (\<lambda>ch. add_servers items (c\<lparr>m_servers := m_servers c @ [ch]\<rparr>))"

definition Clerk_Init :: "string option \<Rightarrow> Clerk \<Rightarrow> Clerk res" where
  "Clerk_Init configFile c = bindr (LoadConfigFile configFile) (\<lambda>config. add_servers (read_node_list config) c)"

section \<open>Operations\<close>

fun Get_loop :: "(GetArgs, GetReply) rpc \<Rightarrow> GetArgs \<Rightarrow> nat \<Rightarrow> nat \<Rightarrow> nat \<Rightarrow> Clerk \<Rightarrow> (string \<times> Clerk) option res" where
  "Get_loop rpc args 0 t server c = Inr None"
| "Get_loop rpc args (Suc fuel) t server c =
     bindr (vec_at (m_servers c) (int server)) (\<lambda>ch.
     let (ok, reply, ch') = rpc t server args ch;
         c1 = c\<lparr>m_servers := (m_servers c)[server := ch']\<rparr> in
     if \<not> ok \<or> gr_err reply = ErrWrongLeader
     then Get_loop rpc args fuel (t + 1) ((server + 1) mod length (m_servers c)) c1
     else if gr_err reply = ErrNoKey then Inr (Some ([], c1))
     else if gr_err reply = OK then Inr (Some (gr_value reply, c1\<lparr>m_recentLeaderId := server\<rparr>))
     else Get_loop rpc args fuel (t + 1) server c1)"

definition Clerk_Get :: "(GetArgs, GetReply) rpc \<Rightarrow> nat \<Rightarrow> string \<Rightarrow> Clerk \<Rightarrow> (string \<times> Clerk) option res" where
  "Clerk_Get rpc fuel key c =
     (let c1 = c\<lparr>m_requestId := m_requestId c + 1\<rparr>;
          args = \<lparr>ga_key = key, ga_clientid = m_clientId c1, ga_requestid = m_requestId c1\<rparr>
      in Get_loop rpc args fuel 0 (m_recentLeaderId c1) c1)"

fun PutAppend_loop ::
  "(PutAppendArgs, PutAppendReply) rpc \<Rightarrow> PutAppendArgs \<Rightarrow> nat \<Rightarrow> nat \<Rightarrow> nat \<Rightarrow> Clerk \<Rightarrow> Clerk option res" where
  "PutAppend_loop rpc args 0 t server c = Inr None"
| "PutAppend_loop rpc args (Suc fuel) t server c =
     bindr (vec_at (m_servers c) (int server)) (\<lambda>ch.
     let (ok, reply, ch') = rpc t server args ch;
         c1 = c\<lparr>m_servers := (m_servers c)[server := ch']\<rparr> in
     if \<not> ok \<or> pr_err reply = ErrWrongLeader
     then PutAppend_loop rpc args fuel (t + 1) ((server + 1) mod length (m_servers c)) c1
     else if pr_err reply = OK then Inr (Some (c1\<lparr>m_recentLeaderId := server\<rparr>))
     else PutAppend_loop rpc args fuel (t + 1) server c1)"

definition Clerk_PutAppend ::
  "(PutAppendArgs, PutAppendReply) rpc \<Rightarrow> nat \<Rightarrow> string \<Rightarrow> string \<Rightarrow> string \<Rightarrow> Clerk \<Rightarrow> Clerk option res" where
  "Clerk_PutAppend rpc fuel key value op c =
     (let c1 = c\<lparr>m_requestId := m_requestId c + 1\<rparr>;
          args = \<lparr>pa_key = key, pa_value = value, pa_op = op, pa_clientid = m_clientId c1, pa_requestid = m_requestId c1\<rparr>
      in PutAppend_loop rpc args fuel 0 (m_recentLeaderId c1) c1)"

definition Clerk_Put :: "(PutAppendArgs, PutAppendReply) rpc \<Rightarrow> nat \<Rightarrow> string \<Rightarrow> string \<Rightarrow> Clerk \<Rightarrow> Clerk option res" where
  "Clerk_Put rpc fuel key value c = Clerk_PutAppend rpc fuel key value ''Put'' c"

definition Clerk_Append :: "(PutAppendArgs, PutAppendReply) rpc \<Rightarrow> nat \<Rightarrow> string \<Rightarrow> string \<Rightarrow> Clerk \<Rightarrow> Clerk option res" where
  "Clerk_Append rpc fuel key value c = Clerk_PutAppend rpc fuel key value ''Append'' c"

section \<open>Trying servers in turn\<close>

datatype 'a verdict = Rotate | Again | Finish 'a

locale round_robin =
  fixes n :: nat
    and inv :: "'s \<Rightarrow> bool"
    and turn :: "nat \<Rightarrow> nat \<Rightarrow> 's \<Rightarrow> 'a verdict \<times> 's"
    and loop :: "nat \<Rightarrow> nat \<Rightarrow> nat \<Rightarrow> 's \<Rightarrow> 'a option res"
  assumes loop_0: "loop 0 t i c = Inr None"
    and loop_Suc: "inv c \<Longrightarrow> i < n \<Longrightarrow> loop (Suc fuel) t i c =
      (case turn t i c of
         (Rotate, c') \<Rightarrow> loop fuel (t + 1) ((i + 1) mod n) c'
       | (Again, c') \<Rightarrow> loop fuel (t + 1) i c'
       | (Finish a, c') \<Rightarrow> Inr (Some a))"
    and turn_inv: "inv c \<Longrightarrow> i < n \<Longrightarrow> inv (snd (turn t i c))"
begin

text \<open>Within one round the loop reaches a server that answers, and returns its answer.\<close>

lemma finds:
  assumes l: "l < n" and lead: "\<And>t c. inv c \<Longrightarrow> \<exists>a c'. turn t l c = (Finish a, c') \<and> Q a"
    and rest: "\<And>t i c. inv c \<Longrightarrow> i < n \<Longrightarrow> i \<noteq> l \<Longrightarrow> fst (turn t i c) = Rotate"
  shows "inv c \<Longrightarrow> i < n \<Longrightarrow> (l + n - i) mod n < fuel \<Longrightarrow> \<exists>a. loop fuel t i c = Inr (Some a) \<and> Q a"
proof (induction fuel arbitrary: t i c)
  case (Suc fuel)
  show ?case
  proof (cases "i = l")
    case True
    then show ?thesis using lead[OF Suc.prems(1), of t] loop_Suc[OF Suc.prems(1,2)] by auto
  next
    case False
    obtain c' where c': "turn t i c = (Rotate, c')" using rest[OF Suc.prems(1,2) False, of t] by (cases "turn t i c") auto
    have inv: "inv c'" using turn_inv[OF Suc.prems(1,2), of t] c' by simp
    have "(l + n - (i + 1) mod n) mod n < fuel"
    proof (cases "i + 1 = n")
      case True
      then have "i = n - 1" using Suc.prems(2) by simp
      then have "(l + n - i) mod n = l + 1"
        using l False by (simp add: Suc_diff_le)
      then show ?thesis using True l Suc.prems(3) by simp
    next
      case False
      then have i: "(i + 1) mod n = i + 1" using Suc.prems(2) by simp
      have "(l + n - i) mod n = (l + n - (i + 1)) mod n + 1"
      proof (cases "i < l")
        case True
        have "l + n - i = (l - i) + n" "l + n - (i + 1) = (l - (i + 1)) + n" using True by auto
        then have "(l + n - i) mod n = (l - i) mod n" "(l + n - (i + 1)) mod n = (l - (i + 1)) mod n"
          by (simp_all only: mod_add_self2)
        then show ?thesis using True l by simp
      next
        case False
        then have "l + n - i < n" "l + n - (i + 1) < n" "l + n - i = l + n - (i + 1) + 1"
          using \<open>i \<noteq> l\<close> Suc.prems(2) by auto
        then show ?thesis by simp
      qed
      then show ?thesis using i Suc.prems(3) by simp
    qed
    moreover have "(i + 1) mod n < n" using l by simp
    ultimately show ?thesis using Suc.IH[OF inv] loop_Suc[OF Suc.prems(1,2)] c' by simp
  qed
qed simp

text \<open>A server that neither answers nor sends the client on keeps it for ever.\<close>

lemma stays:
  assumes stay: "\<And>t c. inv c \<Longrightarrow> fst (turn t i c) = Again" and i: "i < n"
  shows "inv c \<Longrightarrow> loop fuel t i c = Inr None"
proof (induction fuel arbitrary: t c)
  case 0
  then show ?case by (simp add: loop_0)
next
  case (Suc fuel)
  obtain c' where "turn t i c = (Again, c')" using stay[OF Suc.prems, of t] by (cases "turn t i c") auto
  then show ?case using loop_Suc[OF Suc.prems i] turn_inv[OF Suc.prems i, of t] Suc.IH by simp
qed

end

section \<open>The loops of the client\<close>

definition get_turn :: "(GetArgs, GetReply) rpc \<Rightarrow> GetArgs \<Rightarrow> nat \<Rightarrow> nat \<Rightarrow> Clerk \<Rightarrow> (string \<times> Clerk) verdict \<times> Clerk" where
  "get_turn rpc args t i c =
     (let (ok, reply, ch') = rpc t i args (m_servers c ! i);
          c1 = c\<lparr>m_servers := (m_servers c)[i := ch']\<rparr> in
      (if \<not> ok \<or> gr_err reply = ErrWrongLeader then Rotate
       else if gr_err reply = ErrNoKey then Finish ([], c1)
       else if gr_err reply = OK then Finish (gr_value reply, c1\<lparr>m_recentLeaderId := i\<rparr>) else Again, c1))"

definition put_turn :: "(PutAppendArgs, PutAppendReply) rpc \<Rightarrow> PutAppendArgs \<Rightarrow> nat \<Rightarrow> nat \<Rightarrow> Clerk \<Rightarrow> Clerk verdict \<times> Clerk" where
  "put_turn rpc args t i c =
     (let (ok, reply, ch') = rpc t i args (m_servers c ! i);
          c1 = c\<lparr>m_servers := (m_servers c)[i := ch']\<rparr> in
      (if \<not> ok \<or> pr_err reply = ErrWrongLeader then Rotate
       else if pr_err reply = OK then Finish (c1\<lparr>m_recentLeaderId := i\<rparr>) else Again, c1))"

interpretation gl: round_robin n "\<lambda>c. length (m_servers c) = n \<and> m_requestId c = r" "get_turn rpc args"
  "Get_loop rpc args" for n r rpc args
  by unfold_locales (auto simp: get_turn_def Let_def split: prod.split)

interpretation pl: round_robin n "\<lambda>c. length (m_servers c) = n \<and> m_requestId c = r" "put_turn rpc args"
  "PutAppend_loop rpc args" for n r rpc args
  by unfold_locales (auto simp: put_turn_def Let_def split: prod.split)

section \<open>Properties\<close>

text \<open>
  C29: If one server answers as leader and the others refuse or cannot be reached, the client's
  \<open>Get\<close> ends after at most one attempt per server, whichever server it believed to be the
  leader, with the leader's value; it remembers the leader and has used one request number.
\<close>

theorem Clerk_Get_finds_leader:
  assumes "l < length (m_servers c)" and "m_recentLeaderId c < length (m_servers c)"
    and "\<forall>t args ch. \<exists>ch'. rpc t l args ch = (True, \<lparr>gr_err = OK, gr_value = v\<rparr>, ch')"
    and "\<forall>t i args ch. i \<noteq> l \<longrightarrow> \<not> fst (rpc t i args ch) \<or> gr_err (fst (snd (rpc t i args ch))) = ErrWrongLeader"
  shows "\<exists>c'. Clerk_Get rpc (length (m_servers c)) key c = Inr (Some (v, c')) \<and>
    m_recentLeaderId c' = l \<and> m_requestId c' = m_requestId c + 1"
proof -
  let ?n = "length (m_servers c)" and ?c = "c\<lparr>m_requestId := m_requestId c + 1\<rparr>"
  let ?args = "\<lparr>ga_key = key, ga_clientid = m_clientId c, ga_requestid = m_requestId c + 1\<rparr>"
  have err: "OK \<noteq> ErrWrongLeader" "OK \<noteq> ErrNoKey" by (simp_all add: OK_def ErrWrongLeader_def ErrNoKey_def)
  have "\<exists>a. Get_loop rpc ?args ?n 0 (m_recentLeaderId c) ?c = Inr (Some a) \<and>
      fst a = v \<and> m_recentLeaderId (snd a) = l \<and> m_requestId (snd a) = m_requestId c + 1"
  proof (rule gl.finds[where r = "m_requestId c + 1" and l = l and n = ?n])
    show "\<exists>a c'. get_turn rpc ?args t l d = (Finish a, c') \<and> fst a = v \<and> m_recentLeaderId (snd a) = l \<and>
        m_requestId (snd a) = m_requestId c + 1" if "length (m_servers d) = ?n \<and> m_requestId d = m_requestId c + 1" for t d
      using assms(3)[rule_format, of t ?args "m_servers d ! l"] that err by (auto simp: get_turn_def Let_def)
    show "fst (get_turn rpc ?args t i d) = Rotate" if "length (m_servers d) = ?n \<and> m_requestId d = m_requestId c + 1" "i < ?n" "i \<noteq> l" for t i d
      using assms(4)[rule_format, OF that(3), of t ?args "m_servers d ! i"] by (auto simp: get_turn_def Let_def split: prod.split)
    show "(l + ?n - m_recentLeaderId c) mod ?n < ?n" by (rule mod_less_divisor) (use assms(1) in linarith)
  qed (use assms(1,2) in auto)
  then show ?thesis by (auto simp: Clerk_Get_def)
qed

theorem Clerk_Get_finds_leader_witness:
  "\<exists>c'. Clerk_Get (\<lambda>t i args ch. if i = 1 then (True, \<lparr>gr_err = OK, gr_value = ''v''\<rparr>, ch) else (False, new_GetReply, ch)) 3 ''k''
      \<lparr>m_servers = replicate 3 \<lparr>m_clientFd = -1, m_ip = ''h'', m_port = 1\<rparr>, m_clientId = ''c'', m_requestId = 0, m_recentLeaderId = 2\<rparr>
     = Inr (Some (''v'', c')) \<and> m_recentLeaderId c' = 1"
proof -
  let ?rpc = "\<lambda>(t :: nat) (i :: nat) (args :: GetArgs) (ch :: MprpcChannel).
    if i = 1 then (True, \<lparr>gr_err = OK, gr_value = ''v''\<rparr>, ch) else (False, new_GetReply, ch)"
  let ?c = "\<lparr>m_servers = replicate 3 \<lparr>m_clientFd = -1, m_ip = ''h'', m_port = 1\<rparr>, m_clientId = ''c'', m_requestId = 0, m_recentLeaderId = 2\<rparr>"
  show ?thesis using Clerk_Get_finds_leader[of 1 ?c ?rpc "''v''" "''k''"] by auto
qed

lemma Clerk_PutAppend_finds_leader:
  assumes "l < length (m_servers c)" and "m_recentLeaderId c < length (m_servers c)"
    and lead: "\<And>t args ch. \<exists>ch'. rpc t l args ch = (True, \<lparr>pr_err = OK\<rparr>, ch')"
    and rest: "\<And>t i args ch. i \<noteq> l \<Longrightarrow> \<not> fst (rpc t i args ch) \<or> pr_err (fst (snd (rpc t i args ch))) = ErrWrongLeader"
  shows "\<exists>c'. Clerk_PutAppend rpc (length (m_servers c)) key value op c = Inr (Some c') \<and>
    m_recentLeaderId c' = l \<and> m_requestId c' = m_requestId c + 1"
proof -
  let ?n = "length (m_servers c)" and ?c = "c\<lparr>m_requestId := m_requestId c + 1\<rparr>"
  let ?args = "\<lparr>pa_key = key, pa_value = value, pa_op = op, pa_clientid = m_clientId c, pa_requestid = m_requestId c + 1\<rparr>"
  have err: "OK \<noteq> ErrWrongLeader" by (simp add: OK_def ErrWrongLeader_def)
  have "\<exists>a. PutAppend_loop rpc ?args ?n 0 (m_recentLeaderId c) ?c = Inr (Some a) \<and>
      m_recentLeaderId a = l \<and> m_requestId a = m_requestId c + 1"
  proof (rule pl.finds[where r = "m_requestId c + 1" and l = l and n = ?n])
    show "\<exists>a c'. put_turn rpc ?args t l d = (Finish a, c') \<and> m_recentLeaderId a = l \<and> m_requestId a = m_requestId c + 1"
      if "length (m_servers d) = ?n \<and> m_requestId d = m_requestId c + 1" for t d
      using lead[of t ?args "m_servers d ! l"] that err by (auto simp: put_turn_def Let_def)
    show "fst (put_turn rpc ?args t i d) = Rotate" if "length (m_servers d) = ?n \<and> m_requestId d = m_requestId c + 1" "i < ?n" "i \<noteq> l" for t i d
      using rest[OF that(3), of t ?args "m_servers d ! i"] by (auto simp: put_turn_def Let_def split: prod.split)
    show "(l + ?n - m_recentLeaderId c) mod ?n < ?n" by (rule mod_less_divisor) (use assms(1) in linarith)
  qed (use assms(1,2) in auto)
  then show ?thesis by (auto simp: Clerk_PutAppend_def)
qed

text \<open>
  A server whose calls succeed with an error text that is none of the three known ones, as
  the default reply that a closed connection yields, is asked again without end: no number of
  attempts makes \<open>Get\<close> return or try another server.
\<close>

theorem Clerk_Get_spins:
  assumes "m_recentLeaderId c < length (m_servers c)"
    and "\<forall>t args ch. \<exists>ch'. rpc t (m_recentLeaderId c) args ch = (True, new_GetReply, ch')"
  shows "Clerk_Get rpc fuel key c = Inr None"
proof -
  have e: "gr_err new_GetReply \<noteq> ErrWrongLeader" "gr_err new_GetReply \<noteq> ErrNoKey" "gr_err new_GetReply \<noteq> OK"
    by (simp_all add: new_GetReply_def OK_def ErrWrongLeader_def ErrNoKey_def)
  have "fst (get_turn rpc args t (m_recentLeaderId c) d) = Again" for t args d
    using assms(2)[rule_format, of t args "m_servers d ! m_recentLeaderId c"] e by (auto simp: get_turn_def)
  then show ?thesis
    using gl.stays[of "length (m_servers c)" "m_requestId c + 1" rpc _ "m_recentLeaderId c"] assms(1) by (simp add: Clerk_Get_def)
qed

theorem Clerk_Get_spins_witness:
  "Clerk_Get (\<lambda>t i args ch. if i = 0 then (True, new_GetReply, ch) else (True, \<lparr>gr_err = OK, gr_value = ''v''\<rparr>, ch)) 100 ''k''
      \<lparr>m_servers = replicate 3 \<lparr>m_clientFd = -1, m_ip = ''h'', m_port = 1\<rparr>, m_clientId = ''c'', m_requestId = 0, m_recentLeaderId = 0\<rparr>
     = Inr None"
  by (rule Clerk_Get_spins) simp_all

end
