(* ===== verification/Startup.thy ===== *)
theory Startup
  imports Clerk KvServer "HOL-Library.Multiset"
begin

text \<open>
  Starting a cluster: the program src/example/raftCoreExample/raftKvDB.cpp, the registration of a node
  by \<open>RpcProvider::Run\<close> (src/src/rpc/rpcprovider.cpp), the constructor of \<open>KvServer\<close> and
  \<open>Clerk::Init\<close>, which meet in the configuration file.

  The file system is a function from names to files. The results of \<open>getopt\<close>, of
  \<open>fork\<close> and of \<open>gethostbyname\<close> are arguments, and so is the random port. The child processes run
  at the same time, so the order in which they register is any permutation; that all have registered when
  one of them reads the file is what the code waits six seconds for.
\<close>

section \<open>Files\<close>

type_synonym files = "string \<Rightarrow> disk_file"

definition read_file :: "files \<Rightarrow> string \<Rightarrow> string option" where
  "read_file fs name = (if file_ok (fs name) then Some (bytes (fs name)) else None)"

definition append_file :: "string \<Rightarrow> string \<Rightarrow> files \<Rightarrow> files" where
  "append_file name s fs = fs(name := (fs name)\<lparr>bytes := bytes (fs name) @ s\<rparr>)"

definition truncate_file :: "string \<Rightarrow> files \<Rightarrow> files" where
  "truncate_file name fs = fs(name := (fs name)\<lparr>bytes := []\<rparr>)"

section \<open>The driver\<close>

text \<open>The arguments of the constructor of \<open>KvServer\<close> in a child process.\<close>

record kv_args =
  arg_me :: nat
  arg_maxraftstate :: int
  arg_nodeInforFileName :: string
  arg_port :: "16 word"

text \<open>The loop over the options: what \<open>getopt\<close> returns, with \<open>optarg\<close>.\<close>

fun parse_options :: "(char \<times> string) list \<Rightarrow> int \<times> string \<Rightarrow> (int \<times> string) res" where
  "parse_options [] (nodeNum, configFileName) = Inr (nodeNum, configFileName)"
| "parse_options ((c, optarg) # opts) (nodeNum, configFileName) =
     (if c = CHR ''n'' then parse_options opts (atoi optarg, configFileName)
      else if c = CHR ''f'' then parse_options opts (nodeNum, optarg)
      else Inl AssertFail)"

text \<open>
  The loop over the nodes, from node \<open>i\<close> on, \<open>n\<close> nodes to go. \<open>forks i\<close> tells whether the call
  for node \<open>i\<close> succeeds; the result is the children and whether the loop came to its end. The port is
  computed in \<open>int\<close> and stored in a \<open>short\<close>.
\<close>

fun fork_nodes :: "(nat \<Rightarrow> bool) \<Rightarrow> 16 word \<Rightarrow> string \<Rightarrow> nat \<Rightarrow> nat \<Rightarrow> kv_args list \<times> bool" where
  "fork_nodes forks startPort configFileName 0 i = ([], True)"
| "fork_nodes forks startPort configFileName (Suc n) i =
     (let port = startPort + word_of_nat i in
      if forks i then
        (case fork_nodes forks startPort configFileName n (i + 1) of (children, ended) \<Rightarrow>
           (\<lparr>arg_me = i, arg_maxraftstate = 500, arg_nodeInforFileName = configFileName, arg_port = port\<rparr> # children, ended))
      else ([], False))"

definition raftKvDB_main ::
  "int \<Rightarrow> (char \<times> string) list \<Rightarrow> 16 word \<Rightarrow> (nat \<Rightarrow> bool) \<Rightarrow> files \<Rightarrow> (kv_args list \<times> bool \<times> files) res" where
  "raftKvDB_main argc opts startPort forks fs =
     (if argc < 2 then Inl AssertFail
      else bindr (parse_options opts (0, [])) (\<lambda>(nodeNum, configFileName).
        if \<not> file_ok (fs configFileName) then Inl AssertFail
        else
          let (children, ended) = fork_nodes forks startPort configFileName (nat nodeNum) 0
          in Inr (children, ended, truncate_file configFileName fs)))"

section \<open>Registration\<close>

text \<open>
  \<open>RpcProvider::Run\<close> up to the start of the server. The loop over the addresses of the host leaves the last
  one in \<open>ipC\<close>; without an address the pointer is not initialised.
\<close>

definition RpcProvider_Run :: "nat \<Rightarrow> 16 word \<Rightarrow> string list option \<Rightarrow> files \<Rightarrow> files res" where
  "RpcProvider_Run nodeIndex port hent fs =
     (case hent of
        None \<Rightarrow> Inl NullDeref
      | Some addrs \<Rightarrow>
          if addrs = [] then Inl NullDeref
          else
            let ip = last addrs in
            if \<not> file_ok (fs ''test.conf'') then Inl AssertFail
            else Inr (append_file ''test.conf'' (node_lines nodeIndex ip port) fs))"

text \<open>The children register one after the other, in the order of the list.\<close>

fun register :: "(nat \<Rightarrow> string list option) \<Rightarrow> kv_args list \<Rightarrow> files \<Rightarrow> files res" where
  "register hosts [] fs = Inr fs"
| "register hosts (c # cs) fs =
     bindr (RpcProvider_Run (arg_me c) (arg_port c) (hosts (arg_me c)) fs) (register hosts cs)"

text \<open>
  The second wait of the constructor, \<open>sleep(ipPortVt.size() - me)\<close>: the difference is taken in
  \<open>size_t\<close> and passed as \<open>unsigned int\<close>.
\<close>

definition start_delay :: "nat \<Rightarrow> int \<Rightarrow> 32 word" where
  "start_delay n me = word_of_int (int n - me)"

section \<open>Lemmas\<close>

definition child :: "16 word \<Rightarrow> string \<Rightarrow> nat \<Rightarrow> kv_args" where
  "child startPort name i =
     \<lparr>arg_me = i, arg_maxraftstate = 500, arg_nodeInforFileName = name, arg_port = startPort + word_of_nat i\<rparr>"

lemma file_simps [simp]:
  "append_file name t (append_file name s fs) = append_file name (s @ t) fs" "append_file name [] fs = fs"
  "file_ok (append_file name s fs name') = file_ok (fs name')" "file_ok (truncate_file name fs name') = file_ok (fs name')"
  "bytes (append_file name s fs name) = bytes (fs name) @ s" "bytes (truncate_file name fs name) = []"
  "name' \<noteq> name \<Longrightarrow> append_file name s fs name' = fs name'"
  by (auto simp: append_file_def truncate_file_def)

lemma child_fields [simp]: "arg_me (child p name i) = i" "arg_port (child p name i) = p + word_of_nat i"
  "arg_nodeInforFileName (child p name i) = name"
  by (simp_all add: child_def)

lemma fork_nodes_all:
  "(\<And>k. i \<le> k \<Longrightarrow> k < i + n \<Longrightarrow> forks k) \<Longrightarrow> fork_nodes forks p name n i = (map (child p name) [i..<i + n], True)"
proof (induction n arbitrary: i)
  case (Suc n)
  have "fork_nodes forks p name n (i + 1) = (map (child p name) [i + 1..<i + 1 + n], True)"
    by (rule Suc.IH) (use Suc.prems in auto)
  moreover have "forks i" using Suc.prems[of i] by simp
  moreover have "[i..<i + Suc n] = i # [i + 1..<i + 1 + n]" by (simp add: upt_conv_Cons)
  ultimately show ?case by (simp add: Let_def child_def)
qed simp

lemma register_ok:
  assumes "file_ok (fs ''test.conf'')" and "\<forall>i \<in> set is. \<exists>addrs. hosts i = Some addrs \<and> addrs \<noteq> []"
  shows "register hosts (map (child p name) is) fs =
    Inr (append_file ''test.conf'' (concat (map (\<lambda>i. node_lines i (last (the (hosts i))) (p + word_of_nat i)) is)) fs)"
  using assms
proof (induction "is" arbitrary: fs)
  case (Cons i "is")
  then obtain addrs where "hosts i = Some addrs" "addrs \<noteq> []" by auto
  then show ?case using Cons by (simp add: RpcProvider_Run_def Let_def)
qed simp

lemma register_other: "register hosts cs fs = Inr fs' \<Longrightarrow> name \<noteq> ''test.conf'' \<Longrightarrow> fs' name = fs name"
  by (induction cs arbitrary: fs)
    (fastforce simp: RpcProvider_Run_def Let_def bindr_eq_Inr split: option.splits if_splits)+

lemma permuted_children:
  assumes "mset cs = mset (map (child p name) [0..<n])"
  obtains "is" where "cs = map (child p name) is" "distinct is" "set is = {..<n}"
proof -
  have cs: "c \<in> set cs \<Longrightarrow> c = child p name (arg_me c)" for c
    using mset_eq_setD[OF assms] by auto
  have "mset (map arg_me cs) = mset [0..<n]"
    using arg_cong[OF assms, of "image_mset arg_me"] by (simp add: multiset.map_comp comp_def)
  then have "distinct (map arg_me cs)" "set (map arg_me cs) = {..<n}"
    by (metis distinct_upt mset_eq_imp_distinct_iff) (metis \<open>mset (map arg_me cs) = mset [0..<n]\<close> mset_eq_setD atLeast_upt)
  moreover have "cs = map (child p name) (map arg_me cs)" using cs by (simp add: map_idI)
  ultimately show ?thesis using that by blast
qed

lemma new_KvServer_peers:
  assumes "LoadConfigFile file = Inr config"
  shows "\<exists>k. new_KvServer L now me maxraftstate file rf sf rs = Inr k \<and> kv_me k = me \<and>
    m_peers (m_raftNode k) = peers_of me (read_node_list config)"
proof -
  have "fst (ReadSnapshot (new_Persister rf sf)) = []"
    by (simp add: ReadSnapshot_def new_Persister_def open_trunc_def close_out_def Let_def read_word_def)
  then show ?thesis using assms
    by (simp add: new_KvServer_def raft_init_fresh ReadRaftState_new_Persister Let_def split_beta)
qed

lemma add_servers_all:
  "add_servers nodes c =
     Inr (c\<lparr>m_servers := m_servers c @ map (\<lambda>(ip, port). \<lparr>m_clientFd = -1, m_ip = ip, m_port = port\<rparr>) nodes\<rparr>)"
  by (induction nodes arbitrary: c) (auto simp: new_raftServerRpcUtil_def new_MprpcChannel_def Let_def)

text \<open>What a process that reads the configuration file once all nodes have registered finds.\<close>

lemma registered_config:
  assumes "file_ok (fs ''test.conf'')" "bytes (fs ''test.conf'') = []" "mset cs = mset (map (child p name) [0..<n])" "n \<le> 2147483647"
    and hosts: "\<forall>i < n. \<exists>addrs. hosts i = Some addrs \<and> addrs \<noteq> [] \<and> last addrs \<noteq> [] \<and> plain (last addrs) \<and> length (last addrs) < 400"
  shows "\<exists>fs' config. register hosts cs fs = Inr fs' \<and> LoadConfigFile (read_file fs' ''test.conf'') = Inr config \<and>
    read_node_list config = map (\<lambda>i. (last (the (hosts i)), p + word_of_nat i)) [0..<n]"
proof -
  obtain "is" where is_: "cs = map (child p name) is" "distinct is" "set is = {..<n}" using permuted_children[OF assms(3)] .
  let ?ip = "\<lambda>i. last (the (hosts i))" and ?port = "\<lambda>i. p + word_of_nat i"
  let ?text = "concat (map (\<lambda>i. node_lines i (?ip i) (?port i)) is)"
  have "register hosts cs fs = Inr (append_file ''test.conf'' ?text fs)"
    unfolding is_(1) by (rule register_ok[of fs, OF assms(1)]) (use hosts is_(3) in blast)
  moreover have "read_file (append_file ''test.conf'' ?text fs) ''test.conf'' = Some ?text"
    using assms(1,2) by (simp add: read_file_def)
  moreover have "\<forall>i < n. ?ip i \<noteq> [] \<and> plain (?ip i) \<and> length (?ip i) < 400" using hosts by fastforce
  ultimately show ?thesis using node_list_roundtrip[OF is_(2,3) assms(4), of ?ip ?port] by auto
qed

section \<open>Properties\<close>

text \<open>
  C27: Started with the file name the program documents, a cluster finds itself. The driver starts the
  requested number of nodes on consecutive ports, computed modulo 2^16; the nodes append their
  addresses to the emptied configuration file in any order; afterwards every server that loads
  the file has all other nodes as its peers, with the right address and port and a null pointer at its own
  place, and a client that loads it has one channel per node.
\<close>

theorem cluster_starts:
  assumes "2 \<le> argc" and "parse_options opts (0, []) = Inr (int n, ''test.conf'')" and "file_ok (fs ''test.conf'')"
    and "\<forall>i < n. forks i" and "n \<le> 2147483647"
    and "\<forall>i < n. \<exists>addrs. hosts i = Some addrs \<and> addrs \<noteq> [] \<and> last addrs \<noteq> [] \<and> plain (last addrs) \<and> length (last addrs) < 400"
  shows "\<exists>cs fs1. raftKvDB_main argc opts startPort forks fs = Inr (cs, True, fs1) \<and>
    map arg_port cs = map (\<lambda>i. startPort + word_of_nat i) [0..<n] \<and>
    (\<forall>cs'. mset cs' = mset cs \<longrightarrow> (\<exists>fs2. register hosts cs' fs1 = Inr fs2 \<and>
      (\<forall>c \<in> set cs. \<forall>L now rf sf rs. \<exists>k.
         new_KvServer L now (int (arg_me c)) (arg_maxraftstate c) (read_file fs2 (arg_nodeInforFileName c)) rf sf rs = Inr k \<and>
         m_peers (m_raftNode k) =
           map (\<lambda>i. if i = arg_me c then None else Some (last (the (hosts i)), startPort + word_of_nat i)) [0..<n]) \<and>
      (\<forall>clerk. \<exists>clerk'. Clerk_Init (read_file fs2 ''test.conf'') clerk = Inr clerk' \<and>
         m_servers clerk' = m_servers clerk @
           map (\<lambda>i. \<lparr>m_clientFd = -1, m_ip = last (the (hosts i)), m_port = startPort + word_of_nat i\<rparr>) [0..<n])))"
proof -
  let ?cs = "map (child startPort ''test.conf'') [0..<n]" and ?fs1 = "truncate_file ''test.conf'' fs"
  let ?nodes = "map (\<lambda>i. (last (the (hosts i)), startPort + word_of_nat i)) [0..<n]"
  have main: "raftKvDB_main argc opts startPort forks fs = Inr (?cs, True, ?fs1)"
    using assms(1-4) fork_nodes_all[of 0 n forks startPort "''test.conf''"] by (simp add: raftKvDB_main_def)
  have "\<exists>fs2. register hosts cs' ?fs1 = Inr fs2 \<and>
      (\<forall>c \<in> set ?cs. \<forall>L now rf sf rs. \<exists>k.
         new_KvServer L now (int (arg_me c)) (arg_maxraftstate c) (read_file fs2 (arg_nodeInforFileName c)) rf sf rs = Inr k \<and>
         m_peers (m_raftNode k) = peers_of (int (arg_me c)) ?nodes) \<and>
      (\<forall>clerk. \<exists>clerk'. Clerk_Init (read_file fs2 ''test.conf'') clerk = Inr clerk' \<and>
         m_servers clerk' = m_servers clerk @ map (\<lambda>(ip, port). \<lparr>m_clientFd = -1, m_ip = ip, m_port = port\<rparr>) ?nodes)"
    if perm: "mset cs' = mset ?cs" for cs'
  proof -
    obtain fs2 config where r: "register hosts cs' ?fs1 = Inr fs2"
      "LoadConfigFile (read_file fs2 ''test.conf'') = Inr config" "read_node_list config = ?nodes"
      using registered_config[of ?fs1 cs' startPort "''test.conf''" n hosts] perm assms(3,5,6) by auto
    show ?thesis
    proof (intro exI[of _ fs2] conjI ballI allI)
      fix c L now rf sf rs assume "c \<in> set ?cs"
      then have "LoadConfigFile (read_file fs2 (arg_nodeInforFileName c)) = Inr config" using r(2) by auto
      from new_KvServer_peers[OF this] show "\<exists>k. new_KvServer L now (int (arg_me c)) (arg_maxraftstate c)
          (read_file fs2 (arg_nodeInforFileName c)) rf sf rs = Inr k \<and> m_peers (m_raftNode k) = peers_of (int (arg_me c)) ?nodes"
        using r(3) by metis
    qed (use r in \<open>simp_all add: Clerk_Init_def add_servers_all\<close>)
  qed
  moreover have "peers_of (int me) ?nodes =
      map (\<lambda>i. if i = me then None else Some (last (the (hosts i)), startPort + word_of_nat i)) [0..<n]" for me
    by (simp add: peers_of_def enumerate_map_upt comp_def)
  ultimately show ?thesis using main by (intro exI[of _ ?cs] exI[of _ ?fs1]) (simp add: comp_def)
qed

definition demo_hosts :: "nat \<Rightarrow> string list option" where
  "demo_hosts i = Some [''127.0.1.1'', ''10.0.0.1'']"

definition demo_files :: files where
  "demo_files name = demo_file"

theorem cluster_starts_witness:
  "\<exists>cs fs1 fs2 k. raftKvDB_main 5 [(CHR ''n'', ''2''), (CHR ''f'', ''test.conf'')] 10000 (\<lambda>_. True) demo_files = Inr (cs, True, fs1) \<and>
     register demo_hosts (rev cs) fs1 = Inr fs2 \<and>
     new_KvServer demo_lib 0 0 500 (read_file fs2 ''test.conf'') demo_file demo_file [] = Inr k \<and>
     m_peers (m_raftNode k) = [None, Some (''10.0.0.1'', 10001)]"
proof -
  let ?opts = "[(CHR ''n'', ''2''), (CHR ''f'', ''test.conf'')]"
  have n: "atoi ''2'' = 2" by code_simp
  have o: "parse_options ?opts (0, []) = Inr (int 2, ''test.conf'')" by code_simp
  have "plain ''10.0.0.1''" by code_simp
  then have h: "\<forall>i < 2. \<exists>addrs. demo_hosts i = Some addrs \<and> addrs \<noteq> [] \<and> last addrs \<noteq> [] \<and> plain (last addrs) \<and> length (last addrs) < 400"
    by (simp add: demo_hosts_def)
  have f: "file_ok (demo_files ''test.conf'')" by (simp add: demo_files_def demo_file_def)
  note starts = cluster_starts[of 5 ?opts 2 demo_files "\<lambda>_. True" demo_hosts 10000, OF _ o f _ _ h]
  obtain cs fs1 where m: "raftKvDB_main 5 ?opts 10000 (\<lambda>_. True) demo_files = Inr (cs, True, fs1)"
    and c: "\<exists>fs2. register demo_hosts (rev cs) fs1 = Inr fs2 \<and> (\<forall>c \<in> set cs. \<exists>k.
         new_KvServer demo_lib 0 (int (arg_me c)) (arg_maxraftstate c) (read_file fs2 (arg_nodeInforFileName c)) demo_file demo_file [] = Inr k \<and>
         m_peers (m_raftNode k) =
           map (\<lambda>i. if i = arg_me c then None else Some (last (the (demo_hosts i)), 10000 + word_of_nat i)) [0..<2])"
    using starts by (auto dest: spec[of _ "rev _"])
  have "cs = [child 10000 ''test.conf'' 0, child 10000 ''test.conf'' 1]"
    using m fork_nodes_all[of 0 2 "\<lambda>_. True" 10000 "''test.conf''"] f
    by (simp add: raftKvDB_main_def n upt_rec)
  then show ?thesis using m c
    by (fastforce simp: upt_rec child_def demo_hosts_def)
qed

text \<open>
  With any other file name no node finds another one: the driver empties the named file, every node writes to
  test.conf, and every server reads the named file. All peer lists are empty, so an election asks nobody
  and no node ever gets a vote; and every node but the first sleeps for about 136 years before it starts, since the
  number of seconds is the difference of an empty list's length and the node's number.
\<close>

theorem other_file_isolates:
  assumes "raftKvDB_main argc opts startPort forks fs = Inr (cs, ended, fs1)"
    and "parse_options opts (0, []) = Inr (nodeNum, name)" and "name \<noteq> ''test.conf''"
    and "register hosts cs' fs1 = Inr fs2" and "c \<in> set cs"
  shows "\<exists>config k. LoadConfigFile (read_file fs2 (arg_nodeInforFileName c)) = Inr config \<and>
      new_KvServer L now (int (arg_me c)) (arg_maxraftstate c) (read_file fs2 (arg_nodeInforFileName c)) rf sf rs = Inr k \<and>
      m_peers (m_raftNode k) = [] \<and> snd (doElection L now' (m_raftNode k)) = [] \<and>
      (0 < arg_me c \<and> arg_me c < 2 ^ 31 \<longrightarrow> uint (start_delay (length (read_node_list config)) (int (arg_me c))) = 2 ^ 32 - int (arg_me c))"
proof -
  obtain fs1': "fs1 = truncate_file name fs" "file_ok (fs name)" "fork_nodes forks startPort name (nat nodeNum) 0 = (cs, ended)"
    using assms(1,2) by (auto simp: raftKvDB_main_def split: if_splits prod.splits)
  have "fork_nodes forks p nm n i = (xs, e) \<Longrightarrow> x \<in> set xs \<Longrightarrow> arg_nodeInforFileName x = nm" for p nm n i xs e x
    by (induction n arbitrary: i xs) (auto simp: Let_def split: if_splits prod.splits)
  then have c: "arg_nodeInforFileName c = name" using fs1'(3) assms(5) by blast
  have "fs2 name = fs1 name" using register_other[OF assms(4,3)] .
  then have r: "read_file fs2 (arg_nodeInforFileName c) = Some []" using fs1' c by (simp add: read_file_def)
  have "LoadConfigFile (Some []) = Inr []" using load_lines_file[of "[]" "[]"] by (simp add: LoadConfigFile_def)
  then have l: "LoadConfigFile (read_file fs2 (arg_nodeInforFileName c)) = Inr []" using r by simp
  have n: "read_node_list [] = []" by (simp add: read_node_list_def)
  obtain k where k: "new_KvServer L now (int (arg_me c)) (arg_maxraftstate c) (read_file fs2 (arg_nodeInforFileName c)) rf sf rs = Inr k"
    "m_peers (m_raftNode k) = []"
    using new_KvServer_peers[OF l, of L now "int (arg_me c)" "arg_maxraftstate c" rf sf rs] n by (auto simp: peers_of_def)
  have "snd (doElection L now' (m_raftNode k)) = []"
    using k(2) by (auto simp: doElection_def Let_def split: prod.split)
  moreover have "uint (start_delay 0 (int me)) = 2 ^ 32 - int me" if "0 < me" "me < 2 ^ 31" for me
    unfolding start_delay_def uint_word_of_int using that by (simp add: zmod_zminus1_eq_if)
  ultimately show ?thesis using l k n by (intro exI[of _ "[]"] exI[of _ k]) simp
qed

end
