(* ===== verification/FdManager.thy ===== *)
theory FdManager
  imports Prelude "HOL-Library.Word"
begin

unbundle bit_operations_syntax

text \<open>
  The table of file descriptors of the fiber library: src/src/fiber/fd_manager.cpp and
  fd_manager.hpp.

  The system calls are parameters: a record \<open>sys\<close> of functions on a state \<open>'k\<close> of the kernel.
  \<open>sys_ok\<close> states what the manual pages promise of them and the proofs use: the status flags set
  by \<open>F_SETFL\<close> or \<open>FIONBIO\<close> are what \<open>F_GETFL\<close> reads afterwards, for this descriptor only.

  \<open>FdManager::get\<close> looks the descriptor up under the read lock and creates its context under the
  write lock; the two critical sections are separate definitions.
\<close>

section \<open>The kernel\<close>

definition O_NONBLOCK :: "32 word" where
  "O_NONBLOCK = 2048"

record 'k sys =
  sys_fstat :: "'k \<Rightarrow> int \<Rightarrow> bool option"
  sys_getfl :: "'k \<Rightarrow> int \<Rightarrow> 32 word"
  sys_setfl :: "int \<Rightarrow> 32 word \<Rightarrow> 'k \<Rightarrow> int \<times> 'k"
  sys_fionbio :: "int \<Rightarrow> bool \<Rightarrow> 'k \<Rightarrow> int \<times> 'k"

text \<open>
  \<open>sys_fstat\<close> tells whether the descriptor is a socket, \<open>None\<close> is an error. \<open>usable\<close> are the
  kernel states in which the calls on a descriptor succeed.
\<close>

definition sys_ok :: "'k sys \<Rightarrow> ('k \<Rightarrow> int \<Rightarrow> bool) \<Rightarrow> bool" where
  "sys_ok S usable \<longleftrightarrow>
     (\<forall>k fd fl k' r. usable k fd \<longrightarrow> sys_setfl S fd fl k = (r, k') \<longrightarrow>
        r = 0 \<and> usable k' fd \<and> sys_getfl S k' fd AND O_NONBLOCK = fl AND O_NONBLOCK \<and>
        (\<forall>g. g \<noteq> fd \<longrightarrow> sys_getfl S k' g = sys_getfl S k g)) \<and>
     (\<forall>k fd b k' r. usable k fd \<longrightarrow> sys_fionbio S fd b k = (r, k') \<longrightarrow>
        r = 0 \<and> usable k' fd \<and> (sys_getfl S k' fd AND O_NONBLOCK \<noteq> 0) = b)"

section \<open>Contexts\<close>

record FdCtx =
  m_isInit :: bool
  m_isSocket :: bool
  m_sysNonblock :: bool
  m_userNonblock :: bool
  m_isClosed :: bool
  m_fd :: int
  m_recvTimeout :: "64 word"
  m_sendTimeout :: "64 word"

definition FdCtx_init :: "'k sys \<Rightarrow> FdCtx \<Rightarrow> 'k \<Rightarrow> bool \<times> FdCtx \<times> 'k" where
  "FdCtx_init S c k =
     (if m_isInit c then (True, c, k)
      else
        let c1 = c\<lparr>m_recvTimeout := - 1, m_sendTimeout := - 1\<rparr>;
            c2 = (case sys_fstat S k (m_fd c1) of
                    None \<Rightarrow> c1\<lparr>m_isInit := False, m_isSocket := False\<rparr>
                  | Some sock \<Rightarrow> c1\<lparr>m_isInit := True, m_isSocket := sock\<rparr>);
            (c3, k1) =
              (if m_isSocket c2
               then let flags = sys_getfl S k (m_fd c2) in
                    (c2\<lparr>m_sysNonblock := True\<rparr>,
                     if flags AND O_NONBLOCK = 0 then snd (sys_setfl S (m_fd c2) (flags OR O_NONBLOCK) k) else k)
               else (c2\<lparr>m_sysNonblock := False\<rparr>, k));
            c4 = c3\<lparr>m_userNonblock := False, m_isClosed := False\<rparr> in
        (m_isInit c4, c4, k1))"

definition new_FdCtx :: "'k sys \<Rightarrow> int \<Rightarrow> 'k \<Rightarrow> FdCtx \<times> 'k" where
  "new_FdCtx S fd k =
     snd (FdCtx_init S \<lparr>m_isInit = False, m_isSocket = False, m_sysNonblock = False, m_userNonblock = False,
                        m_isClosed = False, m_fd = fd, m_recvTimeout = - 1, m_sendTimeout = - 1\<rparr> k)"

definition SO_RCVTIMEO :: int where
  "SO_RCVTIMEO = 20"

definition SO_SNDTIMEO :: int where
  "SO_SNDTIMEO = 21"

definition setTimeout :: "int \<Rightarrow> 64 word \<Rightarrow> FdCtx \<Rightarrow> FdCtx" where
  "setTimeout type v c = (if type = SO_RCVTIMEO then c\<lparr>m_recvTimeout := v\<rparr> else c\<lparr>m_sendTimeout := v\<rparr>)"

definition getTimeout :: "int \<Rightarrow> FdCtx \<Rightarrow> 64 word" where
  "getTimeout type c = (if type = SO_RCVTIMEO then m_recvTimeout c else m_sendTimeout c)"

definition setUserNonblock :: "bool \<Rightarrow> FdCtx \<Rightarrow> FdCtx" where
  "setUserNonblock v c = c\<lparr>m_userNonblock := v\<rparr>"

definition setSysNonblock :: "bool \<Rightarrow> FdCtx \<Rightarrow> FdCtx" where
  "setSysNonblock v c = c\<lparr>m_sysNonblock := v\<rparr>"

section \<open>The table\<close>

record FdManager =
  m_datas :: "FdCtx option list"

definition new_FdManager :: FdManager where
  "new_FdManager = \<lparr>m_datas = replicate 64 None\<rparr>"

definition vec_resize :: "nat \<Rightarrow> 'a \<Rightarrow> 'a list \<Rightarrow> 'a list" where
  "vec_resize n d xs = take n xs @ replicate (n - length xs) d"

text \<open>The read-locked part: \<open>Some\<close> is the value returned, \<open>None\<close> means that a context is to be created.\<close>

definition get_lookup :: "int \<Rightarrow> bool \<Rightarrow> FdManager \<Rightarrow> FdCtx option option res" where
  "get_lookup fd auto_create m =
     (if fd = - 1 then Inr (Some None)
      else if int (length (m_datas m)) \<le> fd then
        (if auto_create = False then Inr (Some None) else Inr None)
      else bindr (vec_at (m_datas m) fd) (\<lambda>d.
           if d \<noteq> None \<or> \<not> auto_create then Inr (Some d) else Inr None))"

text \<open>The write-locked part. \<open>fd * 1.5\<close> is rounded towards zero.\<close>

definition get_create :: "'k sys \<Rightarrow> int \<Rightarrow> 'k \<Rightarrow> FdManager \<Rightarrow> (FdCtx \<times> 'k \<times> FdManager) res" where
  "get_create S fd k m =
     (let (ctx, k1) = new_FdCtx S fd k;
          ds = (if fd \<ge> int (length (m_datas m)) then vec_resize (nat (fd * 3 div 2)) None (m_datas m) else m_datas m) in
      bindr (vec_set ds fd (Some ctx)) (\<lambda>ds'. Inr (ctx, k1, m\<lparr>m_datas := ds'\<rparr>)))"

definition fd_get :: "'k sys \<Rightarrow> int \<Rightarrow> bool \<Rightarrow> 'k \<Rightarrow> FdManager \<Rightarrow> (FdCtx option \<times> 'k \<times> FdManager) res" where
  "fd_get S fd auto_create k m =
     bindr (get_lookup fd auto_create m) (\<lambda>r.
     case r of
       Some d \<Rightarrow> Inr (d, k, m)
     | None \<Rightarrow> bindr (get_create S fd k m) (\<lambda>(ctx, k1, m1). Inr (Some ctx, k1, m1)))"

definition fd_del :: "int \<Rightarrow> FdManager \<Rightarrow> FdManager res" where
  "fd_del fd m =
     (if int (length (m_datas m)) \<le> fd then Inr m
      else bindr (vec_set (m_datas m) fd None) (\<lambda>ds. Inr (m\<lparr>m_datas := ds\<rparr>)))"

section \<open>Lemmas\<close>

text \<open>The context of a descriptor; descriptors beyond the table have none.\<close>

definition ctx_of :: "FdManager \<Rightarrow> int \<Rightarrow> FdCtx option" where
  "ctx_of m fd = (if 0 \<le> fd \<and> fd < int (length (m_datas m)) then m_datas m ! nat fd else None)"

text \<open>The table never has fewer than its first 64 slots, so \<open>fd * 1.5\<close> slots hold \<open>fd\<close>.\<close>

definition fds_wf :: "FdManager \<Rightarrow> bool" where
  "fds_wf m \<longleftrightarrow> 64 \<le> length (m_datas m) \<and> (\<forall>fd c. ctx_of m fd = Some c \<longrightarrow> m_fd c = fd)"

lemma new_FdCtx_fd: "new_FdCtx S fd k = (c, k') \<Longrightarrow> m_fd c = fd \<and> (m_isSocket c \<longrightarrow> m_sysNonblock c) \<and> \<not> m_isClosed c"
  by (auto simp: new_FdCtx_def FdCtx_init_def Let_def split: option.splits if_splits prod.splits)

lemma nth_vec_resize: "length xs \<le> n \<Longrightarrow> i < n \<Longrightarrow> vec_resize n d xs ! i = (if i < length xs then xs ! i else d)"
  by (simp add: vec_resize_def nth_append)

lemma length_vec_resize [simp]: "length (vec_resize n d xs) = n"
  by (simp add: vec_resize_def)

lemma get_lookup_spec:
  assumes "0 \<le> fd"
  shows "get_lookup fd auto m =
    Inr (if ctx_of m fd \<noteq> None \<or> \<not> auto then Some (ctx_of m fd) else None)"
  using assms by (auto simp: get_lookup_def ctx_of_def)

lemma get_create_spec:
  assumes "64 \<le> length (m_datas m)" and "0 \<le> fd" and n: "new_FdCtx S fd k = (c, k1)"
  obtains m1 where "get_create S fd k m = Inr (c, k1, m1)" "64 \<le> length (m_datas m1)"
    "ctx_of m1 = (ctx_of m)(fd := Some c)"
proof -
  define ds where "ds = (if fd \<ge> int (length (m_datas m)) then vec_resize (nat (fd * 3 div 2)) None (m_datas m) else m_datas m)"
  have len: "length (m_datas m) \<le> length ds" "fd < int (length ds)"
    using assms(1,2) by (auto simp: ds_def)
  have old: "ctx_of \<lparr>m_datas = ds\<rparr> = ctx_of m"
    using len by (auto simp: ds_def ctx_of_def nth_vec_resize fun_eq_iff)
  let ?m1 = "m\<lparr>m_datas := ds[nat fd := Some c]\<rparr>"
  have "get_create S fd k m = Inr (c, k1, ?m1)"
    using len assms(2) by (simp add: get_create_def n ds_def[symmetric] Let_def)
  moreover have "ctx_of ?m1 = (ctx_of \<lparr>m_datas = ds\<rparr>)(fd := Some c)"
    using len assms(2) by (auto simp: ctx_of_def fun_eq_iff nth_list_update)
  ultimately show thesis using that[of ?m1] len assms(1) old by simp
qed

lemma fd_get_cases:
  assumes "fds_wf m" and "0 \<le> fd"
  obtains k1 m1 where "fd_get S fd auto k m = Inr (ctx_of m1 fd, k1, m1)" "fds_wf m1"
    "ctx_of m fd \<noteq> None \<or> \<not> auto \<Longrightarrow> k1 = k \<and> m1 = m"
    "ctx_of m fd = None \<and> auto \<Longrightarrow>
       ctx_of m1 = (ctx_of m)(fd := Some (fst (new_FdCtx S fd k))) \<and> k1 = snd (new_FdCtx S fd k)"
proof (cases "ctx_of m fd \<noteq> None \<or> \<not> auto")
  case True
  then show ?thesis using that[of m k] assms by (auto simp: fd_get_def get_lookup_spec)
next
  case False
  obtain c k1 where n: "new_FdCtx S fd k = (c, k1)" by (metis surj_pair)
  obtain m1 where c: "get_create S fd k m = Inr (c, k1, m1)" "64 \<le> length (m_datas m1)"
    "ctx_of m1 = (ctx_of m)(fd := Some c)"
    using get_create_spec[OF _ assms(2) n] assms(1) by (auto simp: fds_wf_def)
  then have "fds_wf m1" using assms(1) new_FdCtx_fd[OF n] by (auto simp: fds_wf_def)
  then show ?thesis using that[of m1 k1] False c n assms(2) by (auto simp: fd_get_def get_lookup_spec)
qed

lemma fd_del_spec:
  assumes "fds_wf m" and "0 \<le> fd"
  obtains m1 where "fd_del fd m = Inr m1" "fds_wf m1" "ctx_of m1 = (ctx_of m)(fd := None)"
proof (cases "int (length (m_datas m)) \<le> fd")
  case True
  then have "ctx_of m = (ctx_of m)(fd := None)" by (auto simp: ctx_of_def fun_eq_iff)
  then show ?thesis using that[of m] True assms by (simp add: fd_del_def)
next
  case False
  let ?m1 = "m\<lparr>m_datas := (m_datas m)[nat fd := None]\<rparr>"
  have c: "ctx_of ?m1 = (ctx_of m)(fd := None)"
    using False assms(2) by (auto simp: ctx_of_def fun_eq_iff nth_list_update)
  then show ?thesis using that[of ?m1] False assms by (auto simp: fd_del_def fds_wf_def)
qed

section \<open>Contract\<close>

text \<open>
  What the interposed system calls rely on: a lookup returns the context of the descriptor and
  changes nothing, a lookup that creates returns a fresh context for a descriptor that had none, a
  deletion forgets the descriptor and no other.
\<close>

locale descriptor_table =
  fixes get :: "int \<Rightarrow> bool \<Rightarrow> 'k \<Rightarrow> 'm \<Rightarrow> ('c option \<times> 'k \<times> 'm) res"
    and del :: "int \<Rightarrow> 'm \<Rightarrow> 'm res"
    and look :: "'m \<Rightarrow> int \<Rightarrow> 'c option"
    and wf :: "'m \<Rightarrow> bool"
    and fresh :: "int \<Rightarrow> 'k \<Rightarrow> 'c \<times> 'k"
  assumes get_known: "wf m \<Longrightarrow> 0 \<le> fd \<Longrightarrow> look m fd \<noteq> None \<or> \<not> auto \<Longrightarrow> get fd auto k m = Inr (look m fd, k, m)"
    and get_new: "wf m \<Longrightarrow> 0 \<le> fd \<Longrightarrow> look m fd = None \<Longrightarrow>
      \<exists>m1. get fd True k m = Inr (Some (fst (fresh fd k)), snd (fresh fd k), m1) \<and> wf m1 \<and>
           look m1 = (look m)(fd := Some (fst (fresh fd k)))"
    and del_law: "wf m \<Longrightarrow> 0 \<le> fd \<Longrightarrow> \<exists>m1. del fd m = Inr m1 \<and> wf m1 \<and> look m1 = (look m)(fd := None)"
begin

lemma get_again:
  assumes "wf m" "0 \<le> fd" "get fd True k m = Inr (c, k1, m1)"
  shows "wf m1 \<and> c \<noteq> None \<and> get fd auto k2 m1 = Inr (c, k2, m1)"
proof (cases "look m fd")
  case None
  then show ?thesis using get_new[OF assms(1,2) None, of k] get_known[of m1 fd auto k2] assms(2,3) by auto
next
  case (Some d)
  then show ?thesis
    using get_known[OF assms(1,2), of True k] get_known[OF assms(1,2), of auto k2] assms by simp
qed

lemma reopened:
  assumes "wf m" "0 \<le> fd"
  shows "\<exists>m1 m2. del fd m = Inr m1 \<and> get fd False k m1 = Inr (None, k, m1) \<and>
    get fd True k m1 = Inr (Some (fst (fresh fd k)), snd (fresh fd k), m2) \<and> wf m2 \<and>
    (\<forall>g. g \<noteq> fd \<longrightarrow> look m2 g = look m g)"
proof -
  obtain m1 where m1: "del fd m = Inr m1" "wf m1" "look m1 = (look m)(fd := None)"
    using del_law[OF assms] by blast
  then obtain m2 where "get fd True k m1 = Inr (Some (fst (fresh fd k)), snd (fresh fd k), m2)" "wf m2"
    "look m2 = (look m1)(fd := Some (fst (fresh fd k)))"
    using get_new[of m1 fd k] assms(2) by auto
  then show ?thesis using m1 get_known[of m1 fd False k] assms(2) by auto
qed

end

interpretation fdt: descriptor_table "fd_get S" fd_del ctx_of fds_wf "new_FdCtx S" for S :: "'k sys"
proof unfold_locales
  fix m fd auto and k :: 'k
  assume wf: "fds_wf m" and fd: "(0 :: int) \<le> fd"
  show "ctx_of m fd \<noteq> None \<or> \<not> auto \<Longrightarrow> fd_get S fd auto k m = Inr (ctx_of m fd, k, m)"
    by (rule fd_get_cases[OF wf fd, of S auto k]) auto
  show "ctx_of m fd = None \<Longrightarrow>
    \<exists>m1. fd_get S fd True k m = Inr (Some (fst (new_FdCtx S fd k)), snd (new_FdCtx S fd k), m1) \<and> fds_wf m1 \<and>
         ctx_of m1 = (ctx_of m)(fd := Some (fst (new_FdCtx S fd k)))"
    by (rule fd_get_cases[OF wf fd, of S True k]) auto
  show "\<exists>m1. fd_del fd m = Inr m1 \<and> fds_wf m1 \<and> ctx_of m1 = (ctx_of m)(fd := None)"
    by (rule fd_del_spec[OF wf fd]) auto
qed

lemma new_FdManager_wf: "fds_wf new_FdManager" "ctx_of new_FdManager fd = None"
  by (auto simp: fds_wf_def new_FdManager_def ctx_of_def)

end
