(* ===== verification/Hook.thy ===== *)
theory Hook
  imports FdManager
begin

unbundle bit_operations_syntax

text \<open>
  System calls interposed by the fiber library: the part of src/src/fiber/hook.cpp that keeps the
  user's view of a descriptor apart from the kernel's (\<open>socket\<close>, \<open>fcntl\<close>, \<open>ioctl\<close>, \<open>setsockopt\<close>).

  Sockets are kept non-blocking in the kernel so that a fiber can wait without its thread, while the
  program sees the mode it asked for. The state is the thread's flag, the table of
  descriptors and the kernel. A context is shared by pointer with the table, so a setter changes
  the entry of the table.
\<close>

section \<open>State\<close>

record 'k hooks =
  t_hook_enable :: bool
  fd_mgr :: FdManager
  kernel :: 'k

definition set_hook_enable :: "bool \<Rightarrow> 'k hooks \<Rightarrow> 'k hooks" where
  "set_hook_enable flag h = h\<lparr>t_hook_enable := flag\<rparr>"

definition is_hook_enable :: "'k hooks \<Rightarrow> bool" where
  "is_hook_enable h = t_hook_enable h"

text \<open>
  The pointers to the real functions, filled in by \<open>dlsym\<close>. \<open>hook_init\<close> tests a flag that nothing sets, so
  every call looks the functions up again.
\<close>

record hook_table =
  is_inited :: bool
  real_fun :: "string \<Rightarrow> nat option"

definition hook_funs :: "string list" where
  "hook_funs = [''sleep'', ''usleep'', ''nanosleep'', ''socket'', ''connect'', ''accept'', ''read'', ''readv'', ''recv'',
     ''recvfrom'', ''recvmsg'', ''write'', ''writev'', ''send'', ''sendto'', ''sendmsg'', ''close'', ''fcntl'', ''ioctl'',
     ''getsockopt'', ''setsockopt'']"

definition hook_init :: "(string \<Rightarrow> nat option) \<Rightarrow> hook_table \<Rightarrow> hook_table" where
  "hook_init dlsym h =
     (if is_inited h then h
      else h\<lparr>real_fun := (\<lambda>name. if name \<in> set hook_funs then dlsym name else real_fun h name)\<rparr>)"

lemma hook_init_again:
  "\<not> is_inited h \<Longrightarrow> hook_init dlsym' (hook_init dlsym h) = hook_init dlsym' h \<and> \<not> is_inited (hook_init dlsym h)"
  by (simp add: hook_init_def fun_eq_iff)

text \<open>A write through the shared pointer the table returned for \<open>fd\<close>.\<close>

definition ctx_write :: "int \<Rightarrow> (FdCtx \<Rightarrow> FdCtx) \<Rightarrow> 'k hooks \<Rightarrow> 'k hooks" where
  "ctx_write fd f h = h\<lparr>fd_mgr := (fd_mgr h)\<lparr>m_datas := (m_datas (fd_mgr h))[nat fd := map_option f (m_datas (fd_mgr h) ! nat fd)]\<rparr>\<rparr>"

text \<open>\<open>FdMgr::GetInstance()->get(fd, auto_create)\<close>.\<close>

definition mgr_get :: "'k sys \<Rightarrow> int \<Rightarrow> bool \<Rightarrow> 'k hooks \<Rightarrow> (FdCtx option \<times> 'k hooks) res" where
  "mgr_get S fd auto_create h =
     bindr (fd_get S fd auto_create (kernel h) (fd_mgr h)) (\<lambda>(c, k, m). Inr (c, h\<lparr>kernel := k, fd_mgr := m\<rparr>))"

section \<open>Calls\<close>

text \<open>\<open>fd\<close> and \<open>k1\<close> are the result of the real \<open>socket\<close>.\<close>

definition hook_socket :: "'k sys \<Rightarrow> int \<times> 'k \<Rightarrow> 'k hooks \<Rightarrow> (int \<times> 'k hooks) res" where
  "hook_socket S socket_f h =
     (let (fd, k1) = socket_f; h1 = h\<lparr>kernel := k1\<rparr> in
      if \<not> t_hook_enable h then Inr (fd, h1)
      else if fd = - 1 then Inr (fd, h1)
      else bindr (mgr_get S fd True h1) (\<lambda>(_, h2). Inr (fd, h2)))"

definition unmanaged :: "FdCtx option \<Rightarrow> bool" where
  "unmanaged ctx = (case ctx of None \<Rightarrow> True | Some c \<Rightarrow> m_isClosed c \<or> \<not> m_isSocket c)"

definition fcntl_f_setfl :: "'k sys \<Rightarrow> int \<Rightarrow> 32 word \<Rightarrow> 'k hooks \<Rightarrow> int \<times> 'k hooks" where
  "fcntl_f_setfl S fd arg h = (let (r, k) = sys_setfl S fd arg (kernel h) in (r, h\<lparr>kernel := k\<rparr>))"

definition hook_fcntl_setfl :: "'k sys \<Rightarrow> int \<Rightarrow> 32 word \<Rightarrow> 'k hooks \<Rightarrow> (int \<times> 'k hooks) res" where
  "hook_fcntl_setfl S fd arg h =
     bindr (mgr_get S fd False h) (\<lambda>(ctx, h1).
     case ctx of
       None \<Rightarrow> Inr (fcntl_f_setfl S fd arg h1)
     | Some c \<Rightarrow>
         if unmanaged ctx then Inr (fcntl_f_setfl S fd arg h1)
         else
           let h2 = ctx_write fd (setUserNonblock (arg AND O_NONBLOCK \<noteq> 0)) h1 in
           if m_sysNonblock c then Inr (fcntl_f_setfl S fd (arg OR O_NONBLOCK) h2)
           else Inr (fcntl_f_setfl S fd (arg AND NOT O_NONBLOCK) h2))"

definition hook_fcntl_getfl :: "'k sys \<Rightarrow> int \<Rightarrow> 'k hooks \<Rightarrow> (32 word \<times> 'k hooks) res" where
  "hook_fcntl_getfl S fd h =
     (let arg = sys_getfl S (kernel h) fd in
      bindr (mgr_get S fd False h) (\<lambda>(ctx, h1).
      case ctx of
        None \<Rightarrow> Inr (arg, h1)
      | Some c \<Rightarrow>
          if unmanaged ctx then Inr (arg, h1)
          else if m_userNonblock c then Inr (arg OR O_NONBLOCK, h1)
          else Inr (arg AND NOT O_NONBLOCK, h1)))"

text \<open>\<open>ioctl\<close> with the request \<open>FIONBIO\<close>; \<open>arg\<close> is the integer the argument points to.\<close>

definition hook_ioctl_fionbio :: "'k sys \<Rightarrow> int \<Rightarrow> int \<Rightarrow> 'k hooks \<Rightarrow> (int \<times> 'k hooks) res" where
  "hook_ioctl_fionbio S d arg h =
     (let user_nonblock = (arg \<noteq> 0);
          ioctl_f = (\<lambda>h. let (r, k) = sys_fionbio S d user_nonblock (kernel h) in (r, h\<lparr>kernel := k\<rparr>)) in
      bindr (mgr_get S d False h) (\<lambda>(ctx, h1).
      if unmanaged ctx then Inr (ioctl_f h1)
      else Inr (ioctl_f (ctx_write d (setUserNonblock user_nonblock) h1))))"

text \<open>
  \<open>setsockopt\<close>; \<open>v\<close> is the pair of seconds and microseconds of a time-out option, \<open>real\<close> the call of
  the real \<open>setsockopt\<close>, which follows in every case.
\<close>

definition SOL_SOCKET :: int where
  "SOL_SOCKET = 1"

definition hook_setsockopt ::
  "'k sys \<Rightarrow> ('k \<Rightarrow> int \<times> 'k) \<Rightarrow> int \<Rightarrow> int \<Rightarrow> int \<Rightarrow> int \<times> int \<Rightarrow> 'k hooks \<Rightarrow> (int \<times> 'k hooks) res" where
  "hook_setsockopt S real sockfd level optname v h =
     (let call = (\<lambda>h. let (r, k) = real (kernel h) in (r, h\<lparr>kernel := k\<rparr>)) in
      if \<not> t_hook_enable h then Inr (call h)
      else if level = SOL_SOCKET \<and> (optname = SO_RCVTIMEO \<or> optname = SO_SNDTIMEO) then
        bindr (mgr_get S sockfd False h) (\<lambda>(ctx, h1).
        if ctx \<noteq> None
        then Inr (call (ctx_write sockfd (setTimeout optname (word_of_int (fst v * 1000 + snd v div 1000))) h1))
        else Inr (call h1))
      else Inr (call h))"

section \<open>Lemmas\<close>

lemma bit_O_NONBLOCK [simp]: "bit O_NONBLOCK n \<longleftrightarrow> n = 11"
proof -
  have "O_NONBLOCK = 2 ^ 11" by (simp add: O_NONBLOCK_def)
  then have "bit O_NONBLOCK n \<longleftrightarrow> bit ((2 :: 32 word) ^ 11) n" by (rule arg_cong)
  also have "\<dots> \<longleftrightarrow> n = 11" unfolding bit_exp_iff by auto
  finally show ?thesis .
qed

lemma O_NONBLOCK_bits:
  "(w OR O_NONBLOCK) AND O_NONBLOCK = O_NONBLOCK" "(w AND NOT O_NONBLOCK) AND O_NONBLOCK = 0"
  "O_NONBLOCK \<noteq> 0" "w AND O_NONBLOCK = 0 \<or> w AND O_NONBLOCK = O_NONBLOCK"
proof -
  show "(w OR O_NONBLOCK) AND O_NONBLOCK = O_NONBLOCK" "(w AND NOT O_NONBLOCK) AND O_NONBLOCK = 0"
    "w AND O_NONBLOCK = 0 \<or> w AND O_NONBLOCK = O_NONBLOCK"
    by (auto simp: bit_word_eqI bit_simps intro!: bit_word_eqI)
  show "O_NONBLOCK \<noteq> 0" by (simp add: O_NONBLOCK_def)
qed

lemma mgr_get_known:
  assumes "fds_wf (fd_mgr h)" "0 \<le> fd" "ctx_of (fd_mgr h) fd = Some c"
  shows "mgr_get S fd auto h = Inr (Some c, h)"
  using fdt.get_known[OF assms(1,2), of auto S "kernel h"] assms(3) by (simp add: mgr_get_def)

lemma ctx_write_ctx:
  assumes "0 \<le> fd" "ctx_of (fd_mgr h) fd = Some c"
  shows "ctx_of (fd_mgr (ctx_write fd f h)) = (ctx_of (fd_mgr h))(fd := Some (f c))"
proof
  fix g
  have "fd < int (length (m_datas (fd_mgr h)))" "m_datas (fd_mgr h) ! nat fd = Some c"
    using assms by (auto simp: ctx_of_def split: if_splits)
  then show "ctx_of (fd_mgr (ctx_write fd f h)) g = ((ctx_of (fd_mgr h))(fd := Some (f c))) g"
    using assms(1) by (cases "g = fd") (auto simp: ctx_write_def ctx_of_def nth_list_update)
qed

lemma ctx_write_wf:
  assumes "0 \<le> fd" "ctx_of (fd_mgr h) fd = Some c" "fds_wf (fd_mgr h)" "\<And>c. m_fd (f c) = m_fd c"
  shows "fds_wf (fd_mgr (ctx_write fd f h))"
proof -
  have "64 \<le> length (m_datas (fd_mgr (ctx_write fd f h)))" using assms(3) by (simp add: ctx_write_def fds_wf_def)
  then show ?thesis using assms by (auto simp: fds_wf_def ctx_write_ctx[OF assms(1,2)])
qed

lemma ctx_write_kernel [simp]: "kernel (ctx_write fd f h) = kernel h"
  by (simp add: ctx_write_def)

lemma setUserNonblock_fields [simp]:
  "m_fd (setUserNonblock v c) = m_fd c" "m_isSocket (setUserNonblock v c) = m_isSocket c"
  "m_isClosed (setUserNonblock v c) = m_isClosed c" "m_sysNonblock (setUserNonblock v c) = m_sysNonblock c"
  "m_userNonblock (setUserNonblock v c) = v"
  by (simp_all add: setUserNonblock_def)

lemma sys_ok_setfl:
  "sys_ok S usable \<Longrightarrow> usable k fd \<Longrightarrow> sys_setfl S fd fl k = (r, k') \<Longrightarrow>
   r = 0 \<and> sys_getfl S k' fd AND O_NONBLOCK = fl AND O_NONBLOCK"
  unfolding sys_ok_def by blast

lemma sys_ok_fionbio:
  "sys_ok S usable \<Longrightarrow> usable k fd \<Longrightarrow> sys_fionbio S fd b k = (r, k') \<Longrightarrow>
   r = 0 \<and> (sys_getfl S k' fd AND O_NONBLOCK \<noteq> 0) = b"
  unfolding sys_ok_def by blast

section \<open>An example kernel\<close>

definition demo_sys :: "(int \<Rightarrow> 32 word) sys" where
  "demo_sys = \<lparr>sys_fstat = (\<lambda>k fd. Some True), sys_getfl = (\<lambda>k fd. k fd), sys_setfl = (\<lambda>fd fl k. (0, k(fd := fl))),
     sys_fionbio = (\<lambda>fd b k. (0, k(fd := if b then k fd OR O_NONBLOCK else k fd AND NOT O_NONBLOCK)))\<rparr>"

lemma demo_sys_ok: "sys_ok demo_sys (\<lambda>k fd. True)"
  by (auto simp: sys_ok_def demo_sys_def O_NONBLOCK_bits)

definition demo_ctx :: FdCtx where
  "demo_ctx = \<lparr>m_isInit = True, m_isSocket = True, m_sysNonblock = True, m_userNonblock = False, m_isClosed = False,
     m_fd = 7, m_recvTimeout = - 1, m_sendTimeout = - 1\<rparr>"

definition demo_hooks :: "(int \<Rightarrow> 32 word) hooks" where
  "demo_hooks = \<lparr>t_hook_enable = True, fd_mgr = \<lparr>m_datas = (replicate 64 None)[7 := Some demo_ctx]\<rparr>, kernel = (\<lambda>_. 2050)\<rparr>"

lemma demo_hooks_wf: "fds_wf (fd_mgr demo_hooks)" "ctx_of (fd_mgr demo_hooks) 7 = Some demo_ctx"
  by (auto simp: fds_wf_def ctx_of_def demo_hooks_def demo_ctx_def nth_list_update split: if_splits)

section \<open>Properties\<close>

text \<open>
  The program's view of the blocking mode of a managed socket: after
  \<open>fcntl(F_SETFL)\<close> the flag \<open>O_NONBLOCK\<close> that \<open>fcntl(F_GETFL)\<close> reports is the one that was
  set, while the kernel keeps the socket non-blocking in either case.
\<close>

theorem nonblock_mode_roundtrip:
  assumes "sys_ok S usable" and "usable (kernel h) fd" and "fds_wf (fd_mgr h)" and "0 \<le> fd"
    and "ctx_of (fd_mgr h) fd = Some c" and "m_isSocket c" and "\<not> m_isClosed c" and "m_sysNonblock c"
  shows "\<exists>h1 fl. hook_fcntl_setfl S fd arg h = Inr (0, h1) \<and> hook_fcntl_getfl S fd h1 = Inr (fl, h1) \<and>
    fl AND O_NONBLOCK = arg AND O_NONBLOCK \<and> sys_getfl S (kernel h1) fd AND O_NONBLOCK \<noteq> 0"
proof -
  let ?u = "setUserNonblock (arg AND O_NONBLOCK \<noteq> 0)"
  obtain r k' where k: "sys_setfl S fd (arg OR O_NONBLOCK) (kernel h) = (r, k')" by (metis surj_pair)
  have r: "r = 0" "sys_getfl S k' fd AND O_NONBLOCK = O_NONBLOCK"
    using sys_ok_setfl[OF assms(1,2) k] O_NONBLOCK_bits(1) by auto
  let ?h1 = "(ctx_write fd ?u h)\<lparr>kernel := k'\<rparr>"
  have "hook_fcntl_setfl S fd arg h = Inr (0, ?h1)"
    using assms(6-8) k r(1)
    by (simp add: hook_fcntl_setfl_def mgr_get_known[OF assms(3-5)] unmanaged_def fcntl_f_setfl_def Let_def)
  moreover have g: "mgr_get S fd False ?h1 = Inr (Some (?u c), ?h1)"
    by (rule mgr_get_known) (simp_all add: assms(4) ctx_write_wf[OF assms(4,5,3)] ctx_write_ctx[OF assms(4,5)])
  have "hook_fcntl_getfl S fd ?h1 = Inr (if arg AND O_NONBLOCK \<noteq> 0 then sys_getfl S k' fd OR O_NONBLOCK
      else sys_getfl S k' fd AND NOT O_NONBLOCK, ?h1)"
    using assms(6,7) by (simp add: hook_fcntl_getfl_def g unmanaged_def)
  ultimately show ?thesis using r O_NONBLOCK_bits(1-3) O_NONBLOCK_bits(4)[of arg] by auto
qed

theorem nonblock_mode_roundtrip_witness:
  "\<exists>h1 fl. hook_fcntl_setfl demo_sys 7 2 demo_hooks = Inr (0, h1) \<and> hook_fcntl_getfl demo_sys 7 h1 = Inr (fl, h1) \<and>
     fl AND O_NONBLOCK = 0 \<and> sys_getfl demo_sys (kernel h1) 7 AND O_NONBLOCK \<noteq> 0"
  using nonblock_mode_roundtrip[OF demo_sys_ok, of demo_hooks 7 demo_ctx 2] demo_hooks_wf
  by (simp add: demo_ctx_def O_NONBLOCK_def)

text \<open>
  \<open>ioctl(FIONBIO)\<close> with the value 0 is passed on to the kernel unchanged: the socket really
  becomes blocking although the library still takes it for non-blocking, and the next call that has
  to wait blocks the thread with all its fibers.
\<close>

theorem ioctl_makes_socket_blocking:
  assumes "sys_ok S usable" and "usable (kernel h) fd" and "fds_wf (fd_mgr h)" and "0 \<le> fd"
    and "ctx_of (fd_mgr h) fd = Some c" and "m_isSocket c" and "\<not> m_isClosed c" and "m_sysNonblock c"
  shows "\<exists>h1 c1. hook_ioctl_fionbio S fd 0 h = Inr (0, h1) \<and> ctx_of (fd_mgr h1) fd = Some c1 \<and> m_sysNonblock c1 \<and>
    sys_getfl S (kernel h1) fd AND O_NONBLOCK = 0"
proof -
  obtain r k' where k: "sys_fionbio S fd False (kernel h) = (r, k')" by (metis surj_pair)
  have "hook_ioctl_fionbio S fd 0 h = Inr (r, (ctx_write fd (setUserNonblock False) h)\<lparr>kernel := k'\<rparr>)"
    using assms(6,7) k by (simp add: hook_ioctl_fionbio_def mgr_get_known[OF assms(3-5)] unmanaged_def Let_def)
  then show ?thesis using sys_ok_fionbio[OF assms(1,2) k] ctx_write_ctx[OF assms(4,5)] assms(8) by simp
qed

theorem ioctl_makes_socket_blocking_witness:
  "\<exists>h1. hook_ioctl_fionbio demo_sys 7 0 demo_hooks = Inr (0, h1) \<and> sys_getfl demo_sys (kernel h1) 7 AND O_NONBLOCK = 0"
  using ioctl_makes_socket_blocking[OF demo_sys_ok, of demo_hooks 7 demo_ctx] demo_hooks_wf
  by (auto simp: demo_ctx_def)

text \<open>
  A descriptor that was closed and opened again starts with a fresh context: nothing of the
  time-outs and modes set for the old one remains, and no other descriptor is affected.
\<close>

theorem reopened_descriptor_fresh:
  assumes "fds_wf m" and "0 \<le> fd"
  shows "\<exists>m1 m2. fd_del fd m = Inr m1 \<and> fd_get S fd False k m1 = Inr (None, k, m1) \<and>
    fd_get S fd True k m1 = Inr (Some (fst (new_FdCtx S fd k)), snd (new_FdCtx S fd k), m2) \<and> fds_wf m2 \<and>
    (\<forall>g. g \<noteq> fd \<longrightarrow> ctx_of m2 g = ctx_of m g)"
  by (rule fdt.reopened[OF assms])

theorem reopened_descriptor_fresh_witness:
  "\<exists>m1 m2. fd_del 100 (fd_mgr demo_hooks) = Inr m1 \<and>
     fd_get demo_sys 100 True (\<lambda>_. 0) m1 = Inr (Some (fst (new_FdCtx demo_sys 100 (\<lambda>_. 0))), snd (new_FdCtx demo_sys 100 (\<lambda>_. 0)), m2) \<and>
     ctx_of m2 7 = Some demo_ctx"
  using reopened_descriptor_fresh[OF demo_hooks_wf(1), of 100 demo_sys "\<lambda>_. 0"] demo_hooks_wf(2) by fastforce

end
