(* ===== verification/Fiber.thy ===== *)
theory Fiber
  imports Prelude "HOL-Library.Word"
begin

text \<open>
  Fibers: src/src/fiber/fiber.cpp and fiber.hpp.

  A fiber is an object in a heap; \<open>cur_fiber\<close>, \<open>cur_thread_fiber\<close> and the scheduler's
  \<open>cur_scheduler_fiber\<close> are thread local, so they are functions of the thread. \<open>focus\<close> is the
  fiber whose context a thread executes: \<open>swapcontext\<close> is an assignment to it. \<open>getcontext\<close>,
  \<open>makecontext\<close> and \<open>swapcontext\<close> are taken to succeed. A failed \<open>CondPanic\<close> ends the process
  (\<open>AssertFail\<close>). The address of a new fiber is chosen by the allocator and is an argument. \<open>'c\<close>
  is the type of the functions a fiber runs; what a function does is not part of a fiber, only
  that it yields or ends. The state \<open>TERM\<close> of the source is called \<open>FTERM\<close>.
\<close>

section \<open>State\<close>

type_synonym fptr = nat

datatype State = READY | RUNNING | FTERM

record 'c Fiber =
  f_id :: "64 word"
  f_stackSize :: "32 word"
  f_state :: State
  f_stack :: bool
  f_cb :: "'c option"
  isRunInScheduler :: bool

record 'c fibers =
  fiber_at :: "fptr \<Rightarrow> 'c Fiber option"
  cur_fiber :: "int \<Rightarrow> fptr option"
  cur_thread_fiber :: "int \<Rightarrow> fptr option"
  cur_scheduler_fiber :: "int \<Rightarrow> fptr option"
  focus :: "int \<Rightarrow> fptr option"
  cur_fiber_id :: "64 word"
  fiber_count :: "64 word"

definition new_fibers :: "'c fibers" where
  "new_fibers = \<lparr>fiber_at = Map.empty, cur_fiber = Map.empty, cur_thread_fiber = Map.empty,
     cur_scheduler_fiber = Map.empty, focus = Map.empty, cur_fiber_id = 0, fiber_count = 0\<rparr>"

definition g_fiber_stack_size :: "32 word" where
  "g_fiber_stack_size = 128 * 1024"

section \<open>Operations\<close>

definition SetThis :: "int \<Rightarrow> fptr option \<Rightarrow> 'c fibers \<Rightarrow> 'c fibers" where
  "SetThis t f s = s\<lparr>cur_fiber := (cur_fiber s)(t := f)\<rparr>"

text \<open>
  The private constructor makes the context a thread already runs on into a fiber. It does not set
  \<open>isRunInScheduler\<close>, which only a fiber that is resumed or yields reads.
\<close>

definition new_main_Fiber :: "int \<Rightarrow> fptr \<Rightarrow> bool \<Rightarrow> 'c fibers \<Rightarrow> 'c fibers" where
  "new_main_Fiber t p garbage s =
     (let s1 = SetThis t (Some p) s in
      s1\<lparr>fiber_at := (fiber_at s1)(p \<mapsto>
           \<lparr>f_id = cur_fiber_id s1, f_stackSize = 0, f_state = RUNNING, f_stack = False, f_cb = None,
            isRunInScheduler = garbage\<rparr>),
         fiber_count := fiber_count s1 + 1, cur_fiber_id := cur_fiber_id s1 + 1,
         focus := (focus s1)(t := Some p)\<rparr>)"

definition fiber_GetThis :: "int \<Rightarrow> fptr \<Rightarrow> bool \<Rightarrow> 'c fibers \<Rightarrow> (fptr \<times> 'c fibers) res" where
  "fiber_GetThis t p garbage s =
     (case cur_fiber s t of
        Some f \<Rightarrow> Inr (f, s)
      | None \<Rightarrow>
          let s1 = new_main_Fiber t p garbage s in
          bindr (myAssert (cur_fiber s1 t = Some p)) (\<lambda>_.
          Inr (p, s1\<lparr>cur_thread_fiber := (cur_thread_fiber s1)(t := Some p)\<rparr>)))"

definition new_Fiber :: "'c option \<Rightarrow> 64 word \<Rightarrow> bool \<Rightarrow> fptr \<Rightarrow> 'c fibers \<Rightarrow> 'c fibers" where
  "new_Fiber cb stacksize run_inscheduler p s =
     s\<lparr>fiber_at := (fiber_at s)(p \<mapsto>
         \<lparr>f_id = cur_fiber_id s, f_stackSize = (if stacksize > 0 then ucast stacksize else g_fiber_stack_size),
          f_state = READY, f_stack = True, f_cb = cb, isRunInScheduler = run_inscheduler\<rparr>),
       cur_fiber_id := cur_fiber_id s + 1, fiber_count := fiber_count s + 1\<rparr>"

definition read_fiber :: "'c fibers \<Rightarrow> fptr \<Rightarrow> 'c Fiber res" where
  "read_fiber s p = (case fiber_at s p of None \<Rightarrow> Inl NullDeref | Some f \<Rightarrow> Inr f)"

definition set_state :: "fptr \<Rightarrow> State \<Rightarrow> 'c fibers \<Rightarrow> 'c fibers" where
  "set_state p st s = s\<lparr>fiber_at := (fiber_at s)(p := map_option (\<lambda>f. f\<lparr>f_state := st\<rparr>) (fiber_at s p))\<rparr>"

text \<open>The fiber whose context is saved by \<open>resume\<close> and restored by \<open>yield\<close>.\<close>

definition partner :: "int \<Rightarrow> 'c Fiber \<Rightarrow> 'c fibers \<Rightarrow> fptr res" where
  "partner t f s =
     (case (if isRunInScheduler f then cur_scheduler_fiber s t else cur_thread_fiber s t) of
        None \<Rightarrow> Inl NullDeref
      | Some q \<Rightarrow> Inr q)"

definition resume :: "int \<Rightarrow> fptr \<Rightarrow> 'c fibers \<Rightarrow> 'c fibers res" where
  "resume t p s =
     bindr (read_fiber s p) (\<lambda>f.
     bindr (myAssert (f_state f \<noteq> FTERM \<and> f_state f \<noteq> RUNNING)) (\<lambda>_.
     let s1 = set_state p RUNNING (SetThis t (Some p) s) in
     bindr (partner t f s1) (\<lambda>q. Inr (s1\<lparr>focus := (focus s1)(t := Some p)\<rparr>))))"

definition yield :: "int \<Rightarrow> fptr \<Rightarrow> 'c fibers \<Rightarrow> 'c fibers res" where
  "yield t p s =
     bindr (read_fiber s p) (\<lambda>f.
     bindr (myAssert (f_state f = FTERM \<or> f_state f = RUNNING)) (\<lambda>_.
     let s1 = SetThis t (cur_thread_fiber s t) s;
         s2 = (if f_state f \<noteq> FTERM then set_state p READY s1 else s1) in
     bindr (partner t f s2) (\<lambda>q. Inr (s2\<lparr>focus := (focus s2)(t := Some q)\<rparr>))))"

text \<open>
  \<open>MainFunc\<close> around the call of the function: its beginning returns the function to call, its end
  runs when that has returned.
\<close>

definition MainFunc_begin :: "int \<Rightarrow> 'c fibers \<Rightarrow> (fptr \<times> 'c) res" where
  "MainFunc_begin t s =
     (case cur_fiber s t of
        None \<Rightarrow> Inl NullDeref
      | Some p \<Rightarrow> bindr (read_fiber s p) (\<lambda>f.
          case f_cb f of None \<Rightarrow> Inl NullDeref | Some c \<Rightarrow> Inr (p, c)))"

definition MainFunc_end :: "int \<Rightarrow> fptr \<Rightarrow> 'c fibers \<Rightarrow> 'c fibers res" where
  "MainFunc_end t p s =
     bindr (read_fiber s p) (\<lambda>f.
     yield t p (s\<lparr>fiber_at := (fiber_at s)(p \<mapsto> f\<lparr>f_cb := None, f_state := FTERM\<rparr>)\<rparr>))"

definition fiber_reset :: "'c option \<Rightarrow> fptr \<Rightarrow> 'c fibers \<Rightarrow> 'c fibers res" where
  "fiber_reset cb p s =
     bindr (read_fiber s p) (\<lambda>f.
     bindr (myAssert (f_stack f)) (\<lambda>_.
     bindr (myAssert (f_state f = FTERM)) (\<lambda>_.
     Inr (s\<lparr>fiber_at := (fiber_at s)(p \<mapsto> f\<lparr>f_cb := cb, f_state := READY\<rparr>)\<rparr>))))"

definition delete_Fiber :: "int \<Rightarrow> fptr \<Rightarrow> 'c fibers \<Rightarrow> 'c fibers res" where
  "delete_Fiber t p s =
     bindr (read_fiber s p) (\<lambda>f.
     let s1 = s\<lparr>fiber_count := fiber_count s - 1\<rparr> in
     bindr (if f_stack f then bindr (myAssert (f_state f = FTERM)) (\<lambda>_. Inr s1)
            else bindr (myAssert (f_cb f = None)) (\<lambda>_.
                 bindr (myAssert (f_state f = RUNNING)) (\<lambda>_.
                 Inr (if cur_fiber s1 t = Some p then SetThis t None s1 else s1)))) (\<lambda>s2.
     Inr (s2\<lparr>fiber_at := (fiber_at s2)(p := None)\<rparr>)))"

section \<open>Lemmas\<close>

definition state_of :: "'c fibers \<Rightarrow> fptr \<Rightarrow> State option" where
  "state_of s p = map_option f_state (fiber_at s p)"

lemma SetThis_fields [simp]:
  "fiber_at (SetThis t f s) = fiber_at s" "cur_thread_fiber (SetThis t f s) = cur_thread_fiber s"
  "cur_scheduler_fiber (SetThis t f s) = cur_scheduler_fiber s" "focus (SetThis t f s) = focus s"
  "cur_fiber (SetThis t f s) = (cur_fiber s)(t := f)"
  by (simp_all add: SetThis_def)

lemma set_state_fields [simp]:
  "cur_fiber (set_state p st s) = cur_fiber s" "cur_thread_fiber (set_state p st s) = cur_thread_fiber s"
  "cur_scheduler_fiber (set_state p st s) = cur_scheduler_fiber s" "focus (set_state p st s) = focus s"
  by (simp_all add: set_state_def)

lemma state_of_set_state [simp]:
  "state_of (set_state p st s) q = (if q = p then map_option (\<lambda>_. st) (state_of s p) else state_of s q)"
  by (simp add: state_of_def set_state_def option.map_comp comp_def)

lemma resume_effect:
  assumes "resume t p s = Inr s'"
  shows "state_of s p = Some READY" "state_of s' = (state_of s)(p \<mapsto> RUNNING)" "cur_fiber s' = (cur_fiber s)(t \<mapsto> p)"
    "focus s' = (focus s)(t \<mapsto> p)" "cur_thread_fiber s' = cur_thread_fiber s" "cur_scheduler_fiber s' = cur_scheduler_fiber s"
proof -
  obtain f where f: "fiber_at s p = Some f" "f_state f = READY"
    and s': "s' = (set_state p RUNNING (SetThis t (Some p) s))\<lparr>focus := (focus s)(t \<mapsto> p)\<rparr>"
    using assms State.exhaust[of "f_state _"]
    by (auto simp: resume_def read_fiber_def bindr_eq_Inr myAssert_def Let_def split: option.splits if_splits)
  show "state_of s p = Some READY" using f by (simp add: state_of_def)
  show "state_of s' = (state_of s)(p \<mapsto> RUNNING)"
    using f by (auto simp: s' state_of_def set_state_def fun_eq_iff)
  show "cur_fiber s' = (cur_fiber s)(t \<mapsto> p)" "focus s' = (focus s)(t \<mapsto> p)"
    "cur_thread_fiber s' = cur_thread_fiber s" "cur_scheduler_fiber s' = cur_scheduler_fiber s"
    by (simp_all add: s')
qed

lemma yield_effect:
  assumes "yield t p s = Inr s'"
  shows "state_of s p = Some FTERM \<or> state_of s p = Some RUNNING"
    "state_of s' = (if state_of s p = Some FTERM then state_of s else (state_of s)(p \<mapsto> READY))"
    "cur_fiber s' = (cur_fiber s)(t := cur_thread_fiber s t)"
    "cur_thread_fiber s' = cur_thread_fiber s" "cur_scheduler_fiber s' = cur_scheduler_fiber s"
  using assms
  by (auto simp: yield_def read_fiber_def bindr_eq_Inr myAssert_def Let_def state_of_def set_state_def fun_eq_iff
      split: option.splits if_splits)

lemma MainFunc_end_effect:
  assumes "MainFunc_end t p s = Inr s'"
  shows "state_of s p \<noteq> None" "state_of s' = (state_of s)(p \<mapsto> FTERM)"
    "cur_thread_fiber s' = cur_thread_fiber s" "cur_scheduler_fiber s' = cur_scheduler_fiber s"
proof -
  obtain f where f: "fiber_at s p = Some f"
    and y: "yield t p (s\<lparr>fiber_at := (fiber_at s)(p \<mapsto> f\<lparr>f_cb := None, f_state := FTERM\<rparr>)\<rparr>) = Inr s'"
    using assms by (auto simp: MainFunc_end_def read_fiber_def bindr_eq_Inr split: option.splits)
  show "state_of s p \<noteq> None" using f by (simp add: state_of_def)
  show "state_of s' = (state_of s)(p \<mapsto> FTERM)" "cur_thread_fiber s' = cur_thread_fiber s"
    "cur_scheduler_fiber s' = cur_scheduler_fiber s"
    using yield_effect[OF y] by (auto simp: state_of_def fun_eq_iff)
qed

lemma new_Fiber_effect [simp]:
  "state_of (new_Fiber cb n b p s) = (state_of s)(p \<mapsto> READY)" "cur_thread_fiber (new_Fiber cb n b p s) = cur_thread_fiber s"
  "cur_scheduler_fiber (new_Fiber cb n b p s) = cur_scheduler_fiber s"
  by (auto simp: new_Fiber_def state_of_def fun_eq_iff)

end
