(* ===== verification/Scheduler.thy ===== *)
theory Scheduler
  imports Fiber "HOL-Library.Multiset"
begin

text \<open>
  The scheduler of fibers: src/src/fiber/scheduler.cpp and scheduler.hpp.

  The record \<open>Scheduler\<close> holds the fields of the class and the fibers; the thread-local pointer to
  the current scheduler is a set of threads. The counters are \<open>int\<close>, so that a count below zero
  would be visible. \<open>run\<close> is split where its lock is released and where control passes to a fiber
  and comes back; \<open>worker\<close> holds the local variables of one thread's \<open>run\<close>. \<open>tickle\<close>, which
  subclasses override, is reported as a flag. Finished fibers keep their place in the heap, so an
  address is never reused.

  \<open>sched_step\<close> interleaves the sections of all threads with tasks submitted by anyone, by the
  running fibers too. Two history variables record the tasks submitted and the tasks taken by a
  worker.
\<close>

section \<open>State\<close>

record 'c SchedulerTask =
  task_fiber :: "fptr option"
  task_cb :: "'c option"
  task_thread :: int

record 'c Scheduler =
  s_name :: string
  threadPool :: "int list"
  tasks :: "'c SchedulerTask list"
  threadIds :: "int list"
  threadCnt :: nat
  activeThreadCnt :: int
  idleThreadCnt :: int
  isUseCaller :: bool
  rootFiber :: "fptr option"
  rootThread :: int
  isStopped :: bool
  cur_scheduler :: "int \<Rightarrow> bool"
  fib :: "'c fibers"

section \<open>Operations\<close>

text \<open>
  The constructor on thread \<open>t\<close>; \<open>run_cb\<close> is the function bound to \<open>run\<close>, \<open>p\<close> and \<open>q\<close> the addresses of
  the fibers it may create.
\<close>

definition new_Scheduler ::
  "nat \<Rightarrow> bool \<Rightarrow> string \<Rightarrow> 'c \<Rightarrow> int \<Rightarrow> fptr \<Rightarrow> fptr \<Rightarrow> bool \<Rightarrow> (int \<Rightarrow> bool) \<Rightarrow> 'c fibers \<Rightarrow> 'c Scheduler res" where
  "new_Scheduler threads use_caller name run_cb t p q garbage cur fb =
     bindr (myAssert (threads > 0)) (\<lambda>_.
     let s = \<lparr>s_name = name, threadPool = [], tasks = [], threadIds = [], threadCnt = threads, activeThreadCnt = 0,
              idleThreadCnt = 0, isUseCaller = use_caller, rootFiber = None, rootThread = - 1, isStopped = False,
              cur_scheduler = cur, fib = fb\<rparr> in
     if use_caller then
       bindr (fiber_GetThis t p garbage fb) (\<lambda>(_, fb1).
       bindr (myAssert (\<not> cur t)) (\<lambda>_.
       let fb2 = new_Fiber (Some run_cb) 0 False q fb1 in
       Inr (s\<lparr>threadCnt := threads - 1, cur_scheduler := cur(t := True), rootFiber := Some q, rootThread := t,
              threadIds := [t], fib := fb2\<lparr>cur_scheduler_fiber := (cur_scheduler_fiber fb2)(t \<mapsto> q)\<rparr>\<rparr>)))
     else Inr s)"

definition delete_Scheduler :: "int \<Rightarrow> 'c Scheduler \<Rightarrow> (int \<Rightarrow> bool) res" where
  "delete_Scheduler t s =
     bindr (myAssert (isStopped s)) (\<lambda>_.
     Inr (if cur_scheduler s t then (cur_scheduler s)(t := False) else cur_scheduler s))"

definition schedulerNoLock :: "'c SchedulerTask \<Rightarrow> 'c Scheduler \<Rightarrow> bool \<times> 'c Scheduler" where
  "schedulerNoLock task s =
     (tasks s = [], if task_fiber task \<noteq> None \<or> task_cb task \<noteq> None then s\<lparr>tasks := tasks s @ [task]\<rparr> else s)"

text \<open>
  The ids the loop of \<open>start\<close> reads from the new threads are an argument: the constructor of a
  thread does not wait until the thread has set its id.
\<close>

definition start :: "int list \<Rightarrow> int list \<Rightarrow> 'c Scheduler \<Rightarrow> 'c Scheduler res" where
  "start new_threads read_ids s =
     (if isStopped s then Inr s
      else bindr (myAssert (threadPool s = [])) (\<lambda>_.
           Inr (s\<lparr>threadPool := take (threadCnt s) new_threads,
                  threadIds := threadIds s @ take (threadCnt s) read_ids\<rparr>)))"

definition stopping :: "'c Scheduler \<Rightarrow> bool" where
  "stopping s \<longleftrightarrow> isStopped s \<and> tasks s = [] \<and> activeThreadCnt s = 0"

text \<open>\<open>stop\<close> up to the moment the root fiber runs; \<open>None\<close> if there is nothing to stop.\<close>

definition stop_begin :: "int \<Rightarrow> 'c Scheduler \<Rightarrow> 'c Scheduler option res" where
  "stop_begin t s =
     (if stopping s then Inr None
      else
        let s1 = s\<lparr>isStopped := True\<rparr> in
        bindr (if isUseCaller s1 then myAssert (cur_scheduler s1 t) else myAssert (\<not> cur_scheduler s1 t)) (\<lambda>_.
        case rootFiber s1 of
          None \<Rightarrow> Inr (Some s1)
        | Some r \<Rightarrow> bindr (resume t r (fib s1)) (\<lambda>fb. Inr (Some (s1\<lparr>fib := fb\<rparr>)))))"

definition stop_end :: "'c Scheduler \<Rightarrow> int list \<times> 'c Scheduler" where
  "stop_end s = (threadPool s, s\<lparr>threadPool := []\<rparr>)"

text \<open>\<open>run\<close> up to its loop; \<open>p\<close> and \<open>q\<close> are the addresses of a main fiber and of the idle fiber.\<close>

definition run_begin :: "'c \<Rightarrow> int \<Rightarrow> fptr \<Rightarrow> fptr \<Rightarrow> bool \<Rightarrow> 'c Scheduler \<Rightarrow> 'c Scheduler res" where
  "run_begin idle_cb t p q garbage s =
     (let s1 = s\<lparr>cur_scheduler := (cur_scheduler s)(t := True)\<rparr> in
      bindr (if t \<noteq> rootThread s1
             then bindr (fiber_GetThis t p garbage (fib s1)) (\<lambda>(f, fb).
                  Inr (fb\<lparr>cur_scheduler_fiber := (cur_scheduler_fiber fb)(t \<mapsto> f)\<rparr>))
             else Inr (fib s1)) (\<lambda>fb1.
      Inr (s1\<lparr>fib := new_Fiber (Some idle_cb) 0 True q fb1\<rparr>)))"

text \<open>
  The loop that looks for a task, under the lock: the task taken, the tasks left, and \<open>tickle_me\<close>.
\<close>

fun pick :: "'c fibers \<Rightarrow> int \<Rightarrow> 'c SchedulerTask list \<Rightarrow> ('c SchedulerTask option \<times> 'c SchedulerTask list \<times> bool) res" where
  "pick fb t [] = Inr (None, [], False)"
| "pick fb t (x # xs) =
     (if task_thread x \<noteq> - 1 \<and> task_thread x \<noteq> t then
        bindr (pick fb t xs) (\<lambda>(r, ys, _). Inr (r, x # ys, True))
      else
        bindr (myAssert (task_fiber x \<noteq> None \<or> task_cb x \<noteq> None)) (\<lambda>_.
        bindr (case task_fiber x of
                 None \<Rightarrow> Inr ()
               | Some f \<Rightarrow> bindr (read_fiber fb f) (\<lambda>g. myAssert (f_state g = READY))) (\<lambda>_.
        Inr (Some x, xs, xs \<noteq> []))))"

definition run_pick :: "int \<Rightarrow> 'c Scheduler \<Rightarrow> ('c SchedulerTask option \<times> bool \<times> 'c Scheduler) res" where
  "run_pick t s =
     bindr (pick (fib s) t (tasks s)) (\<lambda>(r, ts, tickle_me).
     Inr (r, tickle_me, s\<lparr>tasks := ts, activeThreadCnt := activeThreadCnt s + (if r = None then 0 else 1)\<rparr>))"

text \<open>
  The local variables of \<open>run\<close> with the place where the thread is: in its loop, with a task in its hands, inside
  a fiber (of the task itself, or the one that runs its callback), inside the idle fiber, or done.
\<close>

datatype 'c pc = Loop | Holding "'c SchedulerTask" | Running fptr bool | IdleRun | Exited

record 'c worker =
  w_pc :: "'c pc"
  idleFiber :: fptr
  cbFiber :: "fptr option"

text \<open>The transfer of control to a task: the fiber entered, and whether it is the callback's.\<close>

definition exec_begin ::
  "int \<Rightarrow> fptr \<Rightarrow> 'c SchedulerTask \<Rightarrow> 'c worker \<Rightarrow> 'c Scheduler \<Rightarrow> ('c worker \<times> 'c Scheduler) res" where
  "exec_begin t p task w s =
     (case task_fiber task of
        Some f \<Rightarrow> bindr (resume t f (fib s)) (\<lambda>fb. Inr (w\<lparr>w_pc := Running f False\<rparr>, s\<lparr>fib := fb\<rparr>))
      | None \<Rightarrow>
          bindr (case cbFiber w of
                   Some c \<Rightarrow> bindr (fiber_reset (task_cb task) c (fib s)) (\<lambda>fb. Inr (c, fb))
                 | None \<Rightarrow> Inr (p, new_Fiber (task_cb task) 0 True p (fib s))) (\<lambda>(c, fb).
          bindr (resume t c fb) (\<lambda>fb1.
          Inr (w\<lparr>cbFiber := Some c, w_pc := Running c True\<rparr>, s\<lparr>fib := fb1\<rparr>))))"

text \<open>What follows when control comes back from the fiber of a task.\<close>

definition exec_end :: "bool \<Rightarrow> 'c worker \<Rightarrow> 'c Scheduler \<Rightarrow> 'c worker \<times> 'c Scheduler" where
  "exec_end is_cb w s =
     (w\<lparr>w_pc := Loop, cbFiber := if is_cb then None else cbFiber w\<rparr>, s\<lparr>activeThreadCnt := activeThreadCnt s - 1\<rparr>)"

text \<open>The branch without a task, and one turn of the loop in \<open>idle\<close>, up to its \<open>yield\<close> or its end.\<close>

definition idle_begin :: "int \<Rightarrow> 'c worker \<Rightarrow> 'c Scheduler \<Rightarrow> ('c worker \<times> 'c Scheduler) res" where
  "idle_begin t w s =
     bindr (read_fiber (fib s) (idleFiber w)) (\<lambda>f.
     if f_state f = FTERM then Inr (w\<lparr>w_pc := Exited\<rparr>, s)
     else
       bindr (resume t (idleFiber w) (fib s)) (\<lambda>fb.
       Inr (w\<lparr>w_pc := IdleRun\<rparr>, s\<lparr>idleThreadCnt := idleThreadCnt s + 1, fib := fb\<rparr>)))"

definition idle_end :: "int \<Rightarrow> 'c worker \<Rightarrow> 'c Scheduler \<Rightarrow> ('c worker \<times> 'c Scheduler) res" where
  "idle_end t w s =
     bindr (if \<not> stopping s then yield t (idleFiber w) (fib s) else MainFunc_end t (idleFiber w) (fib s)) (\<lambda>fb.
     Inr (w\<lparr>w_pc := Loop\<rparr>, s\<lparr>idleThreadCnt := idleThreadCnt s - 1, fib := fb\<rparr>))"

section \<open>Threads\<close>

record 'c sched_sys =
  sched :: "'c Scheduler"
  workers :: "int \<Rightarrow> 'c worker option"
  submitted :: "'c SchedulerTask multiset"
  taken :: "'c SchedulerTask multiset"

definition set_worker :: "int \<Rightarrow> 'c worker \<times> 'c Scheduler \<Rightarrow> 'c sched_sys \<Rightarrow> 'c sched_sys" where
  "set_worker t r s = s\<lparr>sched := snd r, workers := (workers s)(t \<mapsto> fst r)\<rparr>"

inductive sched_step :: "'c sched_sys \<Rightarrow> 'c sched_sys \<Rightarrow> bool" where
  submit: "task_fiber task \<noteq> None \<or> task_cb task \<noteq> None \<Longrightarrow>
    sched_step s (s\<lparr>sched := snd (schedulerNoLock task (sched s)), submitted := submitted s + {#task#}\<rparr>)"
| enter: "workers s t = None \<Longrightarrow> fiber_at (fib (sched s)) p = None \<Longrightarrow> fiber_at (fib (sched s)) q = None \<Longrightarrow> p \<noteq> q \<Longrightarrow>
    run_begin idle_cb t p q garbage (sched s) = Inr sc \<Longrightarrow>
    sched_step s (set_worker t (\<lparr>w_pc = Loop, idleFiber = q, cbFiber = None\<rparr>, sc) s)"
| take: "workers s t = Some w \<Longrightarrow> w_pc w = Loop \<Longrightarrow> run_pick t (sched s) = Inr (Some task, b, sc) \<Longrightarrow>
    sched_step s ((set_worker t (w\<lparr>w_pc := Holding task\<rparr>, sc) s)\<lparr>taken := taken s + {#task#}\<rparr>)"
| exec: "workers s t = Some w \<Longrightarrow> w_pc w = Holding task \<Longrightarrow> fiber_at (fib (sched s)) p = None \<Longrightarrow>
    exec_begin t p task w (sched s) = Inr r \<Longrightarrow> sched_step s (set_worker t r s)"
| suspend: "workers s t = Some w \<Longrightarrow> w_pc w = Running f is_cb \<Longrightarrow> yield t f (fib (sched s)) = Inr fb \<Longrightarrow>
    sched_step s (set_worker t (exec_end is_cb w ((sched s)\<lparr>fib := fb\<rparr>)) s)"
| finish: "workers s t = Some w \<Longrightarrow> w_pc w = Running f is_cb \<Longrightarrow> MainFunc_end t f (fib (sched s)) = Inr fb \<Longrightarrow>
    sched_step s (set_worker t (exec_end is_cb w ((sched s)\<lparr>fib := fb\<rparr>)) s)"
| no_task: "workers s t = Some w \<Longrightarrow> w_pc w = Loop \<Longrightarrow> run_pick t (sched s) = Inr (None, b, sc) \<Longrightarrow>
    idle_begin t w sc = Inr r \<Longrightarrow> sched_step s (set_worker t r s)"
| idle_turn: "workers s t = Some w \<Longrightarrow> w_pc w = IdleRun \<Longrightarrow> idle_end t w (sched s) = Inr r \<Longrightarrow>
    sched_step s (set_worker t r s)"
| stop: "sched_step s (s\<lparr>sched := (sched s)\<lparr>isStopped := True\<rparr>\<rparr>)"

definition sched_init :: "'c sched_sys \<Rightarrow> bool" where
  "sched_init s \<longleftrightarrow> workers s = Map.empty \<and> tasks (sched s) = [] \<and> activeThreadCnt (sched s) = 0 \<and>
     idleThreadCnt (sched s) = 0 \<and> submitted s = {#} \<and> taken s = {#}"

section \<open>Choice of a task\<close>

definition allowed :: "int \<Rightarrow> 'c SchedulerTask \<Rightarrow> bool" where
  "allowed t x \<longleftrightarrow> task_thread x = - 1 \<or> task_thread x = t"

definition ready_task :: "'c fibers \<Rightarrow> 'c SchedulerTask \<Rightarrow> bool" where
  "ready_task fb x \<longleftrightarrow> (case task_fiber x of None \<Rightarrow> task_cb x \<noteq> None | Some f \<Rightarrow> state_of fb f = Some READY)"

lemma pick_skip: "\<forall>x \<in> set xs. \<not> allowed t x \<Longrightarrow> pick fb t xs = Inr (None, xs, xs \<noteq> [])"
  by (induction xs) (auto simp: allowed_def)

lemma pick_first:
  assumes "\<forall>x \<in> set xs. \<not> allowed t x" and "allowed t y" and "ready_task fb y"
  shows "pick fb t (xs @ y # ys) = Inr (Some y, xs @ ys, xs @ ys \<noteq> [])"
  using assms
  by (induction xs) (auto simp: allowed_def ready_task_def state_of_def read_fiber_def split: option.splits)

lemma pick_not_ready:
  assumes "\<forall>x \<in> set xs. \<not> allowed t x" and "allowed t y" and "task_fiber y = Some f"
    and "state_of fb f = Some st" and "st \<noteq> READY"
  shows "pick fb t (xs @ y # ys) = Inl AssertFail"
  using assms by (induction xs) (auto simp: allowed_def state_of_def read_fiber_def split: option.splits)

lemma pick_Some:
  assumes "pick fb t ts = Inr (Some y, us, b)"
  shows "allowed t y \<and> ready_task fb y \<and> (\<exists>xs ys. ts = xs @ y # ys \<and> us = xs @ ys \<and> (\<forall>x \<in> set xs. \<not> allowed t x))"
  using assms
proof (induction ts arbitrary: us b)
  case (Cons x ts)
  show ?case
  proof (cases "allowed t x")
    case True
    then have "y = x" "us = ts" "ready_task fb x"
      using Cons.prems
      by (auto simp: allowed_def ready_task_def bindr_eq_Inr myAssert_def state_of_def read_fiber_def
          split: if_splits option.splits)
    then show ?thesis using True by force
  next
    case False
    then obtain us' b' where p: "pick fb t ts = Inr (Some y, us', b')" "us = x # us'"
      using Cons.prems by (auto simp: allowed_def bindr_eq_Inr)
    then obtain xs ys where "allowed t y" "ready_task fb y" "ts = xs @ y # ys" "us' = xs @ ys" "\<forall>x \<in> set xs. \<not> allowed t x"
      using Cons.IH by blast
    then have "x # ts = (x # xs) @ y # ys \<and> us = (x # xs) @ ys \<and> (\<forall>z \<in> set (x # xs). \<not> allowed t z)"
      using False p(2) by auto
    then show ?thesis using \<open>allowed t y\<close> \<open>ready_task fb y\<close> by blast
  qed
qed simp

lemma pick_None: "pick fb t ts = Inr (None, us, b) \<Longrightarrow> us = ts"
  by (induction ts arbitrary: us b) (auto simp: bindr_eq_Inr split: if_splits)

section \<open>Invariant\<close>

fun busy :: "'c pc \<Rightarrow> bool" where
  "busy (Holding _) = True"
| "busy (Running _ _) = True"
| "busy _ = False"

fun runs :: "'c worker \<Rightarrow> fptr option" where
  "runs w = (case w_pc w of Running f _ \<Rightarrow> Some f | IdleRun \<Rightarrow> Some (idleFiber w) | _ \<Rightarrow> None)"

definition workers_in :: "('c pc \<Rightarrow> bool) \<Rightarrow> (int \<Rightarrow> 'c worker option) \<Rightarrow> int set" where
  "workers_in P ws = {t. \<exists>w. ws t = Some w \<and> P (w_pc w)}"

definition runs_ok :: "(int \<Rightarrow> 'c worker option) \<Rightarrow> 'c fibers \<Rightarrow> bool" where
  "runs_ok ws fb \<longleftrightarrow>
     (\<forall>t w f. ws t = Some w \<and> runs w = Some f \<longrightarrow>
        state_of fb f = Some RUNNING \<and> (\<forall>u v. ws u = Some v \<and> runs v = Some f \<longrightarrow> u = t))"

text \<open>The fiber for callbacks is set only while it runs.\<close>

definition cb_ok :: "'c worker \<Rightarrow> bool" where
  "cb_ok w \<longleftrightarrow> (case w_pc w of Running f b \<Rightarrow> cbFiber w = (if b then Some f else None) | _ \<Rightarrow> cbFiber w = None)"

definition sched_inv :: "'c sched_sys \<Rightarrow> bool" where
  "sched_inv s \<longleftrightarrow> finite (dom (workers s)) \<and>
     activeThreadCnt (sched s) = int (card (workers_in busy (workers s))) \<and>
     idleThreadCnt (sched s) = int (card (workers_in (\<lambda>p. p = IdleRun) (workers s))) \<and>
     runs_ok (workers s) (fib (sched s)) \<and>
     (\<forall>t w. workers s t = Some w \<longrightarrow> cb_ok w) \<and>
     submitted s = mset (tasks (sched s)) + taken s"

lemma in_upd: "workers_in P (ws(t \<mapsto> w)) = (if P (w_pc w) then insert t (workers_in P ws) else workers_in P ws - {t})"
  by (auto simp: workers_in_def)

lemma in_mem: "ws t = Some w \<Longrightarrow> t \<in> workers_in P ws \<longleftrightarrow> P (w_pc w)"
  by (auto simp: workers_in_def)

lemma in_none: "ws t = None \<Longrightarrow> t \<notin> workers_in P ws"
  by (auto simp: workers_in_def)

lemma finite_in: "finite (dom ws) \<Longrightarrow> finite (workers_in P ws)"
  by (rule finite_subset[of _ "dom ws"]) (auto simp: workers_in_def)

lemma card_in_upd:
  assumes "finite (dom ws)" and "ws t = Some v"
  shows "int (card (workers_in P (ws(t \<mapsto> w)))) = int (card (workers_in P ws)) + of_bool (P (w_pc w)) - of_bool (P (w_pc v))"
proof -
  note m = in_mem[where P = P, of ws t v, OF assms(2)] and fin = finite_in[OF assms(1), of P]
  show ?thesis
  proof (cases "P (w_pc v)")
    case True
    then have "1 \<le> card (workers_in P ws)" using m fin by (auto simp: Suc_le_eq card_gt_0_iff)
    then show ?thesis using True m fin by (auto simp: in_upd insert_absorb of_nat_diff)
  qed (use m fin in \<open>auto simp: in_upd\<close>)
qed

lemma runs_ok_resume:
  assumes ok: "runs_ok ws fb" and r: "resume t p fb = Inr fb'" and w: "runs w = Some p"
  shows "runs_ok (ws(t \<mapsto> w)) fb'"
proof -
  note e = resume_effect[OF r]
  have "runs v \<noteq> Some p" if "ws u = Some v" for u v using ok e(1) that unfolding runs_ok_def by force
  then show ?thesis using ok w unfolding runs_ok_def e(2) by (auto simp del: runs.simps split: if_splits)
qed

lemma runs_ok_release:
  assumes ok: "runs_ok ws fb" and "ws t = Some v" "runs v = Some f" "runs w = None"
    and fb': "\<And>g. g \<noteq> f \<Longrightarrow> state_of fb' g = state_of fb g"
  shows "runs_ok (ws(t \<mapsto> w)) fb'"
proof -
  have "g \<noteq> f" if "u \<noteq> t" "ws u = Some x" "runs x = Some g" for u x g
    using ok that assms(2,3) unfolding runs_ok_def by blast
  then show ?thesis using ok assms(4) fb' unfolding runs_ok_def by (auto simp del: runs.simps split: if_splits)
qed

lemma runs_ok_frame:
  assumes ok: "runs_ok ws fb" and "ws t = None \<or> ws t = Some v \<and> runs v = None" "runs w = None"
    and "\<And>g. state_of fb g = Some RUNNING \<Longrightarrow> state_of fb' g = Some RUNNING"
  shows "runs_ok (ws(t \<mapsto> w)) fb'"
  using assms unfolding runs_ok_def by (auto simp del: runs.simps split: if_splits)

lemma runs_ok_new:
  "runs_ok ws fb \<Longrightarrow> fiber_at fb p = None \<Longrightarrow> runs_ok ws (new_Fiber cb n b p fb)"
  unfolding runs_ok_def new_Fiber_effect by (force simp: state_of_def simp del: runs.simps)

lemma sched_inv_worker:
  assumes inv: "sched_inv s" and v: "workers s t = Some v"
    and "runs_ok ((workers s)(t \<mapsto> w)) (fib sc)" and "cb_ok w" and "submitted s = mset (tasks sc) + tk"
    and "activeThreadCnt sc = activeThreadCnt (sched s) + of_bool (busy (w_pc w)) - of_bool (busy (w_pc v))"
    and "idleThreadCnt sc = idleThreadCnt (sched s) + of_bool (w_pc w = IdleRun) - of_bool (w_pc v = IdleRun)"
  shows "sched_inv ((set_worker t (w, sc) s)\<lparr>taken := tk\<rparr>)"
proof -
  have fin: "finite (dom (workers s))" using inv by (simp add: sched_inv_def)
  show ?thesis
    using assms unfolding sched_inv_def by (auto simp: set_worker_def card_in_upd[OF fin v])
qed

lemma set_worker_taken: "(set_worker t r s)\<lparr>taken := taken s\<rparr> = set_worker t r s"
  by (simp add: set_worker_def)

lemmas sched_inv_same = sched_inv_worker[where tk = "taken s" and s = s for s, unfolded set_worker_taken]

lemma sched_invD:
  assumes "sched_inv s"
  shows "runs_ok (workers s) (fib (sched s))" "workers s t = Some w \<Longrightarrow> cb_ok w"
    "submitted s = mset (tasks (sched s)) + taken s" "finite (dom (workers s))"
  using assms by (auto simp: sched_inv_def)

lemma run_begin_effect:
  assumes "run_begin c t p q g s = Inr s'" "fiber_at (fib s) p = None" "fiber_at (fib s) q = None" "p \<noteq> q"
  shows "tasks s' = tasks s" "activeThreadCnt s' = activeThreadCnt s" "idleThreadCnt s' = idleThreadCnt s"
    "state_of (fib s) f = Some RUNNING \<Longrightarrow> state_of (fib s') f = Some RUNNING"
  using assms
  by (auto simp: run_begin_def Let_def bindr_eq_Inr fiber_GetThis_def new_main_Fiber_def new_Fiber_def state_of_def myAssert_def
      split: if_splits option.splits)

lemma inv_enter:
  assumes inv: "sched_inv s" and t: "workers s t = None"
    and r: "run_begin c t p q g (sched s) = Inr sc" "fiber_at (fib (sched s)) p = None" "fiber_at (fib (sched s)) q = None" "p \<noteq> q"
  shows "sched_inv (set_worker t (\<lparr>w_pc = Loop, idleFiber = q, cbFiber = None\<rparr>, sc) s)"
proof -
  let ?w = "\<lparr>w_pc = Loop, idleFiber = q, cbFiber = None\<rparr> :: 'a worker"
  have "runs_ok ((workers s)(t \<mapsto> ?w)) (fib sc)"
    by (rule runs_ok_frame[OF sched_invD(1)[OF inv]]) (use t run_begin_effect[OF r] in auto)
  then show ?thesis
    using inv run_begin_effect[OF r] t in_none[of "workers s" t]
    by (auto simp: sched_inv_def set_worker_def in_upd cb_ok_def)
qed

lemma inv_take:
  assumes inv: "sched_inv s" and w: "workers s t = Some w" "w_pc w = Loop"
    and r: "run_pick t (sched s) = Inr (Some task, b, sc)"
  shows "sched_inv ((set_worker t (w\<lparr>w_pc := Holding task\<rparr>, sc) s)\<lparr>taken := taken s + {#task#}\<rparr>)"
proof -
  obtain us where p: "pick (fib (sched s)) t (tasks (sched s)) = Inr (Some task, us, b)"
    and sc: "sc = (sched s)\<lparr>tasks := us, activeThreadCnt := activeThreadCnt (sched s) + 1\<rparr>"
    using r by (auto simp: run_pick_def bindr_eq_Inr split: if_splits)
  have "mset (tasks (sched s)) = add_mset task (mset us)" using pick_Some[OF p] by auto
  moreover have "runs_ok ((workers s)(t \<mapsto> w\<lparr>w_pc := Holding task\<rparr>)) (fib (sched s))"
    by (rule runs_ok_frame[OF sched_invD(1)[OF inv]]) (use w in auto)
  ultimately show ?thesis
    using w sched_invD(2)[OF inv w(1)] sched_invD(3)[OF inv]
    by (intro sched_inv_worker[OF inv w(1)]) (auto simp: sc cb_ok_def)
qed

lemma exec_begin_result:
  assumes "exec_begin t p task w s = Inr (w', s')" and "cbFiber w = None"
  obtains f c fb0 fb where "w_pc w' = Running f c" "cbFiber w' = (if c then Some f else None)" "s' = s\<lparr>fib := fb\<rparr>"
    "resume t f fb0 = Inr fb" "fb0 = fib s \<or> fb0 = new_Fiber (task_cb task) 0 True p (fib s)"
proof (cases "task_fiber task")
  case None
  then obtain fb where "resume t p (new_Fiber (task_cb task) 0 True p (fib s)) = Inr fb"
    "w' = w\<lparr>cbFiber := Some p, w_pc := Running p True\<rparr>" "s' = s\<lparr>fib := fb\<rparr>"
    using assms by (auto simp: exec_begin_def bindr_eq_Inr)
  then show ?thesis using that[of p True fb] by simp
next
  case (Some f)
  then obtain fb where "resume t f (fib s) = Inr fb" "w' = w\<lparr>w_pc := Running f False\<rparr>" "s' = s\<lparr>fib := fb\<rparr>"
    using assms by (auto simp: exec_begin_def bindr_eq_Inr)
  then show ?thesis using that[of f False fb] assms(2) by simp
qed

lemma inv_exec:
  assumes inv: "sched_inv s" and w: "workers s t = Some w" "w_pc w = Holding task"
    and p: "fiber_at (fib (sched s)) p = None" and r: "exec_begin t p task w (sched s) = Inr (w', sc)"
  shows "sched_inv (set_worker t (w', sc) s)"
proof -
  have cb: "cbFiber w = None" using sched_invD(2)[OF inv w(1)] w(2) by (simp add: cb_ok_def)
  obtain f c fb0 fb where w': "w_pc w' = Running f c" "cbFiber w' = (if c then Some f else None)" "sc = (sched s)\<lparr>fib := fb\<rparr>"
    and f: "resume t f fb0 = Inr fb" "fb0 = fib (sched s) \<or> fb0 = new_Fiber (task_cb task) 0 True p (fib (sched s))"
    by (rule exec_begin_result[OF r cb])
  have "runs_ok (workers s) fb0" using f(2) sched_invD(1)[OF inv] runs_ok_new p by auto
  then have "runs_ok ((workers s)(t \<mapsto> w')) fb" by (rule runs_ok_resume[OF _ f(1)]) (simp add: w')
  then show ?thesis
    using w sched_invD(3)[OF inv] by (intro sched_inv_same[OF inv w(1)]) (auto simp: w' cb_ok_def)
qed

lemma inv_return:
  assumes inv: "sched_inv s" and w: "workers s t = Some w" "w_pc w = Running f c"
    and fb: "\<And>g. g \<noteq> f \<Longrightarrow> state_of fb g = state_of (fib (sched s)) g"
  shows "sched_inv (set_worker t (exec_end c w ((sched s)\<lparr>fib := fb\<rparr>)) s)"
proof -
  let ?w = "fst (exec_end c w ((sched s)\<lparr>fib := fb\<rparr>))"
  have "runs_ok ((workers s)(t \<mapsto> ?w)) fb"
    by (rule runs_ok_release[OF sched_invD(1)[OF inv] w(1)]) (use w(2) fb in \<open>auto simp: exec_end_def\<close>)
  moreover have "cb_ok ?w" using sched_invD(2)[OF inv w(1)] w(2) by (auto simp: cb_ok_def exec_end_def)
  ultimately show ?thesis
    using w sched_invD(3)[OF inv] unfolding exec_end_def fst_conv by (intro sched_inv_same[OF inv w(1)]) auto
qed

lemma inv_idle_begin:
  assumes inv: "sched_inv s" and w: "workers s t = Some w" "w_pc w = Loop"
    and r: "run_pick t (sched s) = Inr (None, b, sc)" "idle_begin t w sc = Inr (w', sc')"
  shows "sched_inv (set_worker t (w', sc') s)"
proof -
  have sc: "sc = sched s" using r(1) pick_None by (fastforce simp: run_pick_def bindr_eq_Inr split: if_splits)
  have cb: "cbFiber w = None" using sched_invD(2)[OF inv w(1)] w(2) by (simp add: cb_ok_def)
  consider (exit) "w' = w\<lparr>w_pc := Exited\<rparr>" "sc' = sched s"
    | (idle) fb where "w' = w\<lparr>w_pc := IdleRun\<rparr>" "resume t (idleFiber w) (fib (sched s)) = Inr fb"
        "sc' = (sched s)\<lparr>idleThreadCnt := idleThreadCnt (sched s) + 1, fib := fb\<rparr>"
    using r(2) sc by (auto simp: idle_begin_def bindr_eq_Inr split: if_splits)
  then show ?thesis
  proof cases
    case exit
    have "runs_ok ((workers s)(t \<mapsto> w')) (fib (sched s))"
      by (rule runs_ok_frame[OF sched_invD(1)[OF inv]]) (use w exit in auto)
    then show ?thesis
      using exit w cb sched_invD(3)[OF inv] by (intro sched_inv_same[OF inv w(1)]) (auto simp: cb_ok_def)
  next
    case idle
    have "runs_ok ((workers s)(t \<mapsto> w')) fb"
      by (rule runs_ok_resume[OF sched_invD(1)[OF inv] idle(2)]) (simp add: idle(1))
    then show ?thesis
      using idle w cb sched_invD(3)[OF inv] by (intro sched_inv_same[OF inv w(1)]) (auto simp: cb_ok_def)
  qed
qed

lemma inv_idle_end:
  assumes inv: "sched_inv s" and w: "workers s t = Some w" "w_pc w = IdleRun" and r: "idle_end t w (sched s) = Inr (w', sc)"
  shows "sched_inv (set_worker t (w', sc) s)"
proof -
  obtain fb where fb: "w' = w\<lparr>w_pc := Loop\<rparr>" "sc = (sched s)\<lparr>idleThreadCnt := idleThreadCnt (sched s) - 1, fib := fb\<rparr>"
    "yield t (idleFiber w) (fib (sched s)) = Inr fb \<or> MainFunc_end t (idleFiber w) (fib (sched s)) = Inr fb"
    using r by (auto simp: idle_end_def bindr_eq_Inr split: if_splits)
  have "state_of fb g = state_of (fib (sched s)) g" if "g \<noteq> idleFiber w" for g
    using fb(3) yield_effect(2)[of t "idleFiber w" "fib (sched s)" fb] MainFunc_end_effect(2)[of t "idleFiber w" "fib (sched s)" fb] that
    by (auto split: if_splits)
  then have "runs_ok ((workers s)(t \<mapsto> w')) fb"
    by (intro runs_ok_release[OF sched_invD(1)[OF inv] w(1)]) (use w(2) fb in auto)
  then show ?thesis
    using fb w sched_invD(2)[OF inv w(1)] sched_invD(3)[OF inv]
    by (intro sched_inv_same[OF inv w(1)]) (auto simp: cb_ok_def)
qed

lemma sched_inv_step:
  assumes inv: "sched_inv s" and "sched_step s s'"
  shows "sched_inv s'"
  using assms(2)
proof cases
  case (submit task)
  then show ?thesis using inv by (auto simp: sched_inv_def schedulerNoLock_def)
next
  case (enter t p q c g sc)
  then show ?thesis using inv_enter[OF inv] by blast
next
  case (take t w task b sc)
  then show ?thesis using inv_take[OF inv] by blast
next
  case (exec t w task p r)
  then show ?thesis using inv_exec[OF inv, of t w task p "fst r" "snd r"] by simp
next
  case (suspend t w f c fb)
  then show ?thesis using inv_return[OF inv suspend(2,3)] yield_effect(2)[OF suspend(4)] by auto
next
  case (finish t w f c fb)
  then show ?thesis using inv_return[OF inv finish(2,3)] MainFunc_end_effect(2)[OF finish(4)] by auto
next
  case (no_task t w b sc r)
  then show ?thesis using inv_idle_begin[OF inv, of t w b sc "fst r" "snd r"] by simp
next
  case (idle_turn t w r)
  then show ?thesis using inv_idle_end[OF inv, of t w "fst r" "snd r"] by simp
next
  case stop
  then show ?thesis using inv by (simp add: sched_inv_def)
qed

lemma sched_inv_init: "sched_init s \<Longrightarrow> sched_inv s"
  by (simp add: sched_init_def sched_inv_def runs_ok_def workers_in_def)

interpretation schi: inductive_invariant sched_init sched_step sched_inv
  by unfold_locales (auto intro: sched_inv_init sched_inv_step)

section \<open>An example run\<close>

text \<open>Thread 7 enters \<open>run\<close>, takes a callback and is inside the fiber that runs it.\<close>

definition demo_sched :: "nat Scheduler" where
  "demo_sched = projr (new_Scheduler 2 False ''demo'' 0 1 0 0 False (\<lambda>_. False) new_fibers)"

definition demo_s0 :: "nat sched_sys" where
  "demo_s0 = \<lparr>sched = demo_sched, workers = Map.empty, submitted = {#}, taken = {#}\<rparr>"

definition demo_task :: "nat SchedulerTask" where
  "demo_task = \<lparr>task_fiber = None, task_cb = Some 5, task_thread = 7\<rparr>"

definition demo_w :: "nat worker" where
  "demo_w = \<lparr>w_pc = Loop, idleFiber = 12, cbFiber = None\<rparr>"

definition demo_sc1 :: "nat Scheduler" where
  "demo_sc1 = projr (run_begin 3 7 11 12 False demo_sched)"

definition demo_sc2 :: "nat Scheduler" where
  "demo_sc2 = snd (schedulerNoLock demo_task demo_sc1)"

definition demo_sc3 :: "nat Scheduler" where
  "demo_sc3 = snd (snd (projr (run_pick 7 demo_sc2)))"

definition demo_r4 :: "nat worker \<times> nat Scheduler" where
  "demo_r4 = projr (exec_begin 7 13 demo_task (demo_w\<lparr>w_pc := Holding demo_task\<rparr>) demo_sc3)"

definition demo_s4 :: "nat sched_sys" where
  "demo_s4 = \<lparr>sched = snd demo_r4, workers = [7 \<mapsto> fst demo_r4], submitted = {#demo_task#}, taken = {#demo_task#}\<rparr>"

lemmas demo_defs = demo_sched_def demo_sc1_def demo_sc2_def demo_sc3_def demo_r4_def demo_task_def demo_w_def
  new_Scheduler_def new_fibers_def run_begin_def fiber_GetThis_def new_main_Fiber_def SetThis_def new_Fiber_def
  schedulerNoLock_def run_pick_def exec_begin_def resume_def read_fiber_def partner_def set_state_def Let_def

lemma demo_s0_init: "sched_init demo_s0"
  by (simp add: sched_init_def demo_s0_def demo_sched_def new_Scheduler_def new_fibers_def)

lemma demo_parts:
  "run_begin 3 7 11 12 False demo_sched = Inr demo_sc1"
  "run_pick 7 demo_sc2 = Inr (Some demo_task, False, demo_sc3)"
  "exec_begin 7 13 demo_task (demo_w\<lparr>w_pc := Holding demo_task\<rparr>) demo_sc3 = Inr demo_r4"
  "fiber_at (fib demo_sched) 11 = None" "fiber_at (fib demo_sched) 12 = None" "fiber_at (fib demo_sc3) 13 = None"
  "tasks (snd demo_r4) = []" "w_pc (fst demo_r4) = Running 13 True" "tasks demo_sc1 = []"
  by (simp_all add: demo_defs)

lemma demo_sched_run: "sched_step\<^sup>*\<^sup>* demo_s0 demo_s4"
proof -
  let ?s1 = "set_worker 7 (demo_w, demo_sc1) demo_s0"
  let ?s2 = "?s1\<lparr>sched := demo_sc2, submitted := {#demo_task#}\<rparr>"
  let ?s3 = "(set_worker 7 (demo_w\<lparr>w_pc := Holding demo_task\<rparr>, demo_sc3) ?s2)\<lparr>taken := {#demo_task#}\<rparr>"
  have "sched_step demo_s0 ?s1"
    using enter[of demo_s0 7 11 12 3 False demo_sc1] by (simp add: demo_s0_def demo_parts demo_w_def)
  moreover have "sched_step ?s1 ?s2"
    using submit[of demo_task ?s1] by (simp add: demo_task_def demo_sc2_def set_worker_def demo_s0_def)
  moreover have "sched_step ?s2 ?s3"
    using take[of ?s2 7 demo_w demo_task False demo_sc3] demo_parts(2)
    by (simp add: set_worker_def demo_s0_def demo_w_def)
  moreover have "sched_step ?s3 (set_worker 7 demo_r4 ?s3)"
    by (rule exec[of _ 7 "demo_w\<lparr>w_pc := Holding demo_task\<rparr>" demo_task 13]) (simp_all add: set_worker_def demo_parts)
  moreover have "set_worker 7 demo_r4 ?s3 = demo_s4" by (simp add: set_worker_def demo_s4_def demo_s0_def)
  ultimately show ?thesis by (metis (no_types, lifting) rtranclp.rtrancl_refl converse_rtranclp_into_rtranclp)
qed

section \<open>Properties\<close>



text \<open>
  \<open>stopping\<close> means that the work is done: when it holds, every task that was ever submitted has been taken,
  and no thread has a task in its hands or is inside the fiber of one.
\<close>

theorem stopping_means_done:
  assumes "sched_init s0" and "sched_step\<^sup>*\<^sup>* s0 s" and "stopping (sched s)"
  shows "taken s = submitted s \<and> (\<forall>t w. workers s t = Some w \<longrightarrow> \<not> busy (w_pc w))"
proof -
  have inv: "sched_inv s" by (rule schi.holds_reachable[OF assms(1,2)])
  then have "card (workers_in busy (workers s)) = 0" using assms(3) by (simp add: sched_inv_def stopping_def)
  then have "workers_in busy (workers s) = {}" using finite_in[OF sched_invD(4)[OF inv]] by simp
  then show ?thesis using assms(3) sched_invD(3)[OF inv] by (auto simp: workers_in_def stopping_def)
qed

theorem stopping_means_done_witness:
  "stopping (sched (demo_s0\<lparr>sched := (sched demo_s0)\<lparr>isStopped := True\<rparr>\<rparr>)) \<and> taken demo_s0 = submitted demo_s0"
proof -
  let ?s = "demo_s0\<lparr>sched := (sched demo_s0)\<lparr>isStopped := True\<rparr>\<rparr>"
  have "sched_step\<^sup>*\<^sup>* demo_s0 ?s" using stop by blast
  moreover have "stopping (sched ?s)" using demo_s0_init by (simp add: stopping_def sched_init_def)
  ultimately show ?thesis using stopping_means_done[OF demo_s0_init, of ?s] by simp
qed

text \<open>
  A thread takes the first task in the list that it is allowed to run, leaves the others in their
  order, and counts itself active; if there is none it takes nothing.
\<close>

lemma run_pick_first:
  assumes "\<forall>x \<in> set xs. \<not> allowed t x" and "allowed t y" and "ready_task (fib s) y" and "tasks s = xs @ y # ys"
  shows "run_pick t s = Inr (Some y, xs @ ys \<noteq> [], s\<lparr>tasks := xs @ ys, activeThreadCnt := activeThreadCnt s + 1\<rparr>)"
  using assms by (simp add: run_pick_def pick_first)

lemma run_pick_none: "\<forall>x \<in> set (tasks s). \<not> allowed t x \<Longrightarrow> run_pick t s = Inr (None, tasks s \<noteq> [], s)"
  by (simp add: run_pick_def pick_skip)



end
