(* ===== verification/Timer.thy ===== *)
theory Timer
  imports Prelude "HOL-Library.Word"
begin

text \<open>
  Timers of the fiber library: src/src/fiber/timer.cpp and timer.hpp.

  Timer objects are reached through \<open>std::shared_ptr\<close>, which never dangles, so the heap of
  timers is a total function from addresses; the address of a new object is chosen by the
  allocator and is an argument. A \<open>std::set\<close> ordered by \<open>Comparator\<close> is the list of its
  elements in order, its iterators are suffixes of that list. Times are 64-bit words, the
  clock \<open>GetElapsedMS\<close> is the argument \<open>now\<close>. Every operation holds the manager's lock.
  The virtual \<open>OnTimerInsertedAtFront\<close> is reported as a flag of the result.

  The locale \<open>ordered_keys\<close> is the contract of the comparison a \<open>std::set\<close> needs, with the
  laws of insertion and search proved from it; it is interpreted on \<open>Comparator\<close>. \<open>tm_wf\<close> is the
  invariant: the set is sorted under the present contents of its elements, and every timer that
  still has a callback is in it. A name of the source that ends in an underscore is written without
  it, or with the prefix \<open>t\<close>.
\<close>

section \<open>Ordered sets\<close>

fun set_insert :: "('a \<Rightarrow> 'a \<Rightarrow> bool) \<Rightarrow> 'a \<Rightarrow> 'a list \<Rightarrow> 'a list" where
  "set_insert lt x [] = [x]"
| "set_insert lt x (y # ys) =
     (if lt x y then x # y # ys else if lt y x then y # set_insert lt x ys else y # ys)"

definition lower_bound :: "('a \<Rightarrow> 'a \<Rightarrow> bool) \<Rightarrow> 'a \<Rightarrow> 'a list \<Rightarrow> 'a list" where
  "lower_bound lt x xs = dropWhile (\<lambda>y. lt y x) xs"

text \<open>\<open>None\<close> is the iterator \<open>end()\<close>.\<close>

definition set_find :: "('a \<Rightarrow> 'a \<Rightarrow> bool) \<Rightarrow> 'a \<Rightarrow> 'a list \<Rightarrow> 'a option" where
  "set_find lt x xs =
     (case lower_bound lt x xs of [] \<Rightarrow> None | y # ys \<Rightarrow> if lt x y then None else Some y)"

section \<open>State\<close>

type_synonym tptr = nat

record 'c Timer =
  t_recurring :: bool
  t_ms :: "64 word"
  t_next :: "64 word"
  t_cb :: "'c option"

record 'c TimerManager =
  timer_at :: "tptr \<Rightarrow> 'c Timer"
  timers :: "tptr list"
  tickled :: bool
  previouseTime :: "64 word"

fun Comparator :: "(tptr \<Rightarrow> 'c Timer) \<Rightarrow> tptr option \<Rightarrow> tptr option \<Rightarrow> bool" where
  "Comparator h None None = False"
| "Comparator h None (Some r) = True"
| "Comparator h (Some l) None = False"
| "Comparator h (Some l) (Some r) =
     (if t_next (h l) < t_next (h r) then True
      else if t_next (h r) < t_next (h l) then False
      else l < r)"

definition timer_less :: "(tptr \<Rightarrow> 'c Timer) \<Rightarrow> tptr \<Rightarrow> tptr \<Rightarrow> bool" where
  "timer_less h l r \<longleftrightarrow> Comparator h (Some l) (Some r)"

definition new_Timer :: "64 word \<Rightarrow> 64 word \<Rightarrow> 'c option \<Rightarrow> bool \<Rightarrow> 'c Timer" where
  "new_Timer now ms cb recuring = \<lparr>t_recurring = recuring, t_ms = ms, t_next = now + ms, t_cb = cb\<rparr>"

definition new_Timer_at :: "64 word \<Rightarrow> 'c Timer" where
  "new_Timer_at next = \<lparr>t_recurring = False, t_ms = 0, t_next = next, t_cb = None\<rparr>"

definition new_TimerManager :: "64 word \<Rightarrow> 'c TimerManager" where
  "new_TimerManager now =
     \<lparr>timer_at = (\<lambda>_. new_Timer_at 0), timers = [], tickled = False, previouseTime = now\<rparr>"

section \<open>Operations\<close>

text \<open>Erasing at \<open>end()\<close> is undefined behaviour.\<close>

definition cancel :: "tptr \<Rightarrow> 'c TimerManager \<Rightarrow> (bool \<times> 'c TimerManager) res" where
  "cancel this m =
     (if t_cb (timer_at m this) \<noteq> None then
        let h = (timer_at m)(this := (timer_at m this)\<lparr>t_cb := None\<rparr>) in
        case set_find (timer_less h) this (timers m) of
          None \<Rightarrow> Inl OutOfRange
        | Some it \<Rightarrow> Inr (True, m\<lparr>timer_at := h, timers := remove1 it (timers m)\<rparr>)
      else Inr (False, m))"

definition refresh :: "64 word \<Rightarrow> tptr \<Rightarrow> 'c TimerManager \<Rightarrow> bool \<times> 'c TimerManager" where
  "refresh now this m =
     (if t_cb (timer_at m this) = None then (False, m)
      else case set_find (timer_less (timer_at m)) this (timers m) of
          None \<Rightarrow> (False, m)
        | Some it \<Rightarrow>
            let ts = remove1 it (timers m);
                h = (timer_at m)(this := (timer_at m this)\<lparr>t_next := now + t_ms (timer_at m this)\<rparr>) in
            (True, m\<lparr>timer_at := h, timers := set_insert (timer_less h) this ts\<rparr>))"

text \<open>
  \<open>addTimer\<close> with the lock held; the flag says that \<open>OnTimerInsertedAtFront\<close> is called.
\<close>

definition addTimer_locked :: "tptr \<Rightarrow> 'c TimerManager \<Rightarrow> bool \<times> 'c TimerManager" where
  "addTimer_locked val m =
     (let ts = set_insert (timer_less (timer_at m)) val (timers m);
          at_front = (hd ts = val \<and> \<not> tickled m) in
      (at_front, m\<lparr>timers := ts, tickled := tickled m \<or> at_front\<rparr>))"

definition timer_reset ::
  "64 word \<Rightarrow> 64 word \<Rightarrow> bool \<Rightarrow> tptr \<Rightarrow> 'c TimerManager \<Rightarrow> bool \<times> bool \<times> 'c TimerManager" where
  "timer_reset now ms from_now this m =
     (let t = timer_at m this in
      if ms = t_ms t \<and> \<not> from_now then (True, False, m)
      else if t_cb t = None then (True, False, m)
      else case set_find (timer_less (timer_at m)) this (timers m) of
          None \<Rightarrow> (False, False, m)
        | Some it \<Rightarrow>
            let start = (if from_now then now else t_next t - t_ms t);
                m1 = m\<lparr>timers := remove1 it (timers m),
                       timer_at := (timer_at m)(this := t\<lparr>t_ms := ms, t_next := start + ms\<rparr>)\<rparr> in
            (True, addTimer_locked this m1))"

definition addTimer ::
  "64 word \<Rightarrow> tptr \<Rightarrow> 64 word \<Rightarrow> 'c option \<Rightarrow> bool \<Rightarrow> 'c TimerManager \<Rightarrow> bool \<times> 'c TimerManager" where
  "addTimer now p ms cb recurring m =
     addTimer_locked p (m\<lparr>timer_at := (timer_at m)(p := new_Timer now ms cb recurring)\<rparr>)"

text \<open>
  A callback is a function of the caller, or one bound to \<open>OnTimer\<close> with the weak pointer it
  depends on. \<open>run_callback\<close> is the call of it: \<open>OnTimer\<close> does nothing once the object is gone,
  and calling an empty function throws.
\<close>

datatype 'f callback = Callback 'f | BoundOnTimer nat "'f option"

definition OnTimer :: "(nat \<Rightarrow> bool) \<Rightarrow> nat \<Rightarrow> 'f option \<Rightarrow> 'f option res" where
  "OnTimer alive weak_cond cb =
     (if alive weak_cond then (case cb of None \<Rightarrow> Inl NullDeref | Some f \<Rightarrow> Inr (Some f)) else Inr None)"

definition run_callback :: "(nat \<Rightarrow> bool) \<Rightarrow> 'f callback \<Rightarrow> 'f option res" where
  "run_callback alive c = (case c of Callback f \<Rightarrow> Inr (Some f) | BoundOnTimer w cb \<Rightarrow> OnTimer alive w cb)"

definition addConditionTimer ::
  "64 word \<Rightarrow> tptr \<Rightarrow> 64 word \<Rightarrow> 'f option \<Rightarrow> nat \<Rightarrow> bool \<Rightarrow> 'f callback TimerManager \<Rightarrow>
     bool \<times> 'f callback TimerManager" where
  "addConditionTimer now p ms cb weak_cond recurring m =
     addTimer now p ms (Some (BoundOnTimer weak_cond cb)) recurring m"

definition getNextTimer :: "64 word \<Rightarrow> 'c TimerManager \<Rightarrow> 64 word \<times> 'c TimerManager" where
  "getNextTimer now_ms m =
     (let m1 = m\<lparr>tickled := False\<rparr> in
      case timers m of
        [] \<Rightarrow> (- 1, m1)
      | p # ps \<Rightarrow>
          if now_ms \<ge> t_next (timer_at m p) then (0, m1) else (t_next (timer_at m p) - now_ms, m1))"

definition hasTimer :: "'c TimerManager \<Rightarrow> bool" where
  "hasTimer m \<longleftrightarrow> timers m \<noteq> []"

definition detectClockRolllover :: "64 word \<Rightarrow> 'c TimerManager \<Rightarrow> bool \<times> 'c TimerManager" where
  "detectClockRolllover now_ms m =
     (now_ms < previouseTime m \<and> now_ms < previouseTime m - 60 * 60 * 1000, m\<lparr>previouseTime := now_ms\<rparr>)"

text \<open>The loop over the expired timers.\<close>

fun expire_loop :: "64 word \<Rightarrow> tptr list \<Rightarrow> 'c TimerManager \<Rightarrow> 'c option list \<times> 'c TimerManager" where
  "expire_loop now_ms [] m = ([], m)"
| "expire_loop now_ms (p # ps) m =
     (let t = timer_at m p;
          m1 = (if t_recurring t
                then let h = (timer_at m)(p := t\<lparr>t_next := now_ms + t_ms t\<rparr>) in
                     m\<lparr>timer_at := h, timers := set_insert (timer_less h) p (timers m)\<rparr>
                else m\<lparr>timer_at := (timer_at m)(p := t\<lparr>t_cb := None\<rparr>)\<rparr>);
          (cbs, m2) = expire_loop now_ms ps m1 in
      (t_cb t # cbs, m2))"

text \<open>
  \<open>p\<close> is the address of the local object \<open>now_timer\<close>, which is gone when the function returns.
\<close>

definition listExpiredCb ::
  "64 word \<Rightarrow> tptr \<Rightarrow> 'c option list \<Rightarrow> 'c TimerManager \<Rightarrow> 'c option list \<times> 'c TimerManager" where
  "listExpiredCb now_ms p cbs m =
     (if timers m = [] then (cbs, m)
      else
        let (rollover, m1) = detectClockRolllover now_ms m in
        if \<not> rollover \<and> t_next (timer_at m1 (hd (timers m1))) > now_ms then (cbs, m1)
        else
          let h = (timer_at m1)(p := new_Timer_at now_ms);
              lb = (if rollover then [] else lower_bound (timer_less h) p (timers m1));
              it = dropWhile (\<lambda>q. t_next (timer_at m1 q) = now_ms) lb;
              expired = take (length (timers m1) - length it) (timers m1);
              (cs, m2) = expire_loop now_ms expired (m1\<lparr>timers := it\<rparr>) in
          (cbs @ cs, m2))"

section \<open>Contract of the comparison\<close>

locale ordered_keys =
  fixes lt :: "'a \<Rightarrow> 'a \<Rightarrow> bool"
  assumes irrefl: "\<not> lt x x"
    and trans: "lt x y \<Longrightarrow> lt y z \<Longrightarrow> lt x z"
    and total: "x \<noteq> y \<Longrightarrow> lt x y \<or> lt y x"
begin

lemma asym: "lt x y \<Longrightarrow> \<not> lt y x"
  using irrefl trans by blast

lemma set_set_insert: "set (set_insert lt x xs) = insert x (set xs)"
  by (induction xs) (use total in \<open>auto split: if_splits\<close>)

lemma sorted_set_insert: "sorted_wrt lt xs \<Longrightarrow> sorted_wrt lt (set_insert lt x xs)"
  by (induction xs) (auto simp: set_set_insert dest: trans)

lemma sorted_distinct: "sorted_wrt lt xs \<Longrightarrow> distinct xs"
  by (induction xs) (use irrefl in auto)

lemma find_in: "sorted_wrt lt xs \<Longrightarrow> x \<in> set xs \<Longrightarrow> set_find lt x xs = Some x"
  by (induction xs) (use irrefl in \<open>auto simp: set_find_def lower_bound_def\<close>)

lemma find_not_in:
  assumes "x \<notin> set xs"
  shows "set_find lt x xs = None"
proof (cases "dropWhile (\<lambda>y. lt y x) xs")
  case (Cons y ys)
  then have "\<not> lt y x" "y \<in> set xs"
    by (metis hd_dropWhile list.sel(1) list.distinct(1)) (metis Cons list.set_intros(1) set_dropWhileD)
  then have "lt x y" using total[of x y] assms by auto
  then show ?thesis using Cons by (simp add: set_find_def lower_bound_def)
next
  case Nil
  then show ?thesis by (simp add: set_find_def lower_bound_def del: dropWhile_eq_Nil_conv)
qed

end

interpretation tset: ordered_keys "timer_less h" for h :: "tptr \<Rightarrow> 'c Timer"
proof unfold_locales
  fix x y z :: tptr
  show "\<not> timer_less h x x" by (simp add: timer_less_def)
  show "timer_less h x y \<Longrightarrow> timer_less h y z \<Longrightarrow> timer_less h x z"
    by (auto simp: timer_less_def split: if_splits)
  show "x \<noteq> y \<Longrightarrow> timer_less h x y \<or> timer_less h y x" by (auto simp: timer_less_def)
qed

lemmas tset_simps = tset.set_set_insert tset.sorted_set_insert tset.find_in tset.find_not_in

lemma sorted_heap_cong:
  assumes "\<And>x. x \<in> set ts \<Longrightarrow> t_next (h' x) = t_next (h x)"
  shows "sorted_wrt (timer_less h') ts = sorted_wrt (timer_less h) ts"
  using assms by (induction ts) (auto simp: timer_less_def)

lemma sorted_heap_upd [simp]:
  "p \<notin> set ts \<or> t_next t = t_next (h p) \<Longrightarrow>
   sorted_wrt (timer_less (h(p := t))) ts = sorted_wrt (timer_less h) ts"
  by (rule sorted_heap_cong) auto

section \<open>The invariant\<close>

definition tm_wf :: "'c TimerManager \<Rightarrow> bool" where
  "tm_wf m \<longleftrightarrow> sorted_wrt (timer_less (timer_at m)) (timers m) \<and>
     (\<forall>a. t_cb (timer_at m a) \<noteq> None \<longrightarrow> a \<in> set (timers m))"

lemma tm_wfD:
  assumes "tm_wf m"
  shows "sorted_wrt (timer_less (timer_at m)) (timers m)" "distinct (timers m)"
    and "t_cb (timer_at m a) \<noteq> None \<Longrightarrow> a \<in> set (timers m)"
  using assms tset.sorted_distinct by (auto simp: tm_wf_def)

lemma sorted_remove1: "sorted_wrt P ts \<Longrightarrow> sorted_wrt P (remove1 x ts)"
  by (induction ts) (auto dest: notin_set_remove1)

lemma tm_wf_insert:
  assumes "sorted_wrt (timer_less (timer_at m)) (timers m)"
    and "\<And>a. t_cb (timer_at m a) \<noteq> None \<Longrightarrow> a = p \<or> a \<in> set (timers m)"
  shows "tm_wf (m\<lparr>timers := set_insert (timer_less (timer_at m)) p (timers m), tickled := b\<rparr>)"
  using assms by (auto simp: tm_wf_def tset_simps)

lemma tm_wf_new: "tm_wf (new_TimerManager now)"
  by (simp add: tm_wf_def new_TimerManager_def new_Timer_at_def)

lemma tm_wf_addTimer_locked:
  assumes "sorted_wrt (timer_less (timer_at m)) (timers m)"
    and "\<And>a. t_cb (timer_at m a) \<noteq> None \<Longrightarrow> a = p \<or> a \<in> set (timers m)"
  shows "tm_wf (snd (addTimer_locked p m))"
  using tm_wf_insert[OF assms] by (simp add: addTimer_locked_def Let_def)

lemma tm_wf_addTimer:
  assumes "tm_wf m" and "p \<notin> set (timers m)"
  shows "tm_wf (snd (addTimer now p ms cb rec m))"
  unfolding addTimer_def
  by (rule tm_wf_addTimer_locked) (use assms in \<open>auto simp: tm_wf_def split: if_splits\<close>)

lemma cancel_spec:
  assumes wf: "tm_wf m"
  shows "cancel p m = Inr (t_cb (timer_at m p) \<noteq> None,
    m\<lparr>timer_at := (timer_at m)(p := (timer_at m p)\<lparr>t_cb := None\<rparr>),
      timers := if t_cb (timer_at m p) = None then timers m else remove1 p (timers m)\<rparr>)"
proof (cases "t_cb (timer_at m p)")
  case None
  then have "(timer_at m)(p := (timer_at m p)\<lparr>t_cb := None\<rparr>) = timer_at m" by (auto simp: fun_eq_iff)
  then show ?thesis using None by (simp add: cancel_def)
next
  case (Some c)
  let ?h = "(timer_at m)(p := (timer_at m p)\<lparr>t_cb := None\<rparr>)"
  have "sorted_wrt (timer_less ?h) (timers m)"
    using tm_wfD(1)[OF wf] by simp
  moreover have "p \<in> set (timers m)" using tm_wfD(3)[OF wf] Some by simp
  ultimately show ?thesis using Some by (simp add: cancel_def Let_def tset.find_in)
qed

lemma tm_wf_cancel:
  assumes "tm_wf m" and "cancel p m = Inr (b, m')"
  shows "tm_wf m'"
  using assms(2) tm_wfD[OF assms(1)] assms(1)
  by (auto simp: cancel_spec[OF assms(1)] tm_wf_def sorted_remove1 split: if_splits)

lemma remove_self:
  assumes wf: "tm_wf m" and "set_find (timer_less (timer_at m)) p (timers m) = Some it"
  shows "it = p" "sorted_wrt (timer_less ((timer_at m)(p := t))) (remove1 p (timers m))"
    "set (remove1 p (timers m)) = set (timers m) - {p}"
proof -
  show "it = p" using assms(2) tset.find_in[OF tm_wfD(1)[OF wf], of p] tset.find_not_in[of p "timers m" "timer_at m"]
    by (cases "p \<in> set (timers m)") auto
  show s: "set (remove1 p (timers m)) = set (timers m) - {p}" using tm_wfD(2)[OF wf] by simp
  show "sorted_wrt (timer_less ((timer_at m)(p := t))) (remove1 p (timers m))"
    using sorted_remove1[OF tm_wfD(1)[OF wf]] s by simp
qed

lemma tm_wf_refresh:
  assumes wf: "tm_wf m"
  shows "tm_wf (snd (refresh now p m))"
proof (cases "t_cb (timer_at m p) = None \<or> set_find (timer_less (timer_at m)) p (timers m) = None")
  case False
  then obtain it where it: "set_find (timer_less (timer_at m)) p (timers m) = Some it" by auto
  show ?thesis
    using False it remove_self[OF wf it] tm_wfD(3)[OF wf]
    by (auto simp: refresh_def Let_def tm_wf_def tset_simps)
qed (use wf in \<open>auto simp: refresh_def\<close>)

lemma tm_wf_timer_reset:
  assumes wf: "tm_wf m"
  shows "tm_wf (snd (snd (timer_reset now ms from_now p m)))"
proof (cases "set_find (timer_less (timer_at m)) p (timers m)")
  case (Some it)
  let ?m = "\<lambda>t. m\<lparr>timers := remove1 p (timers m), timer_at := (timer_at m)(p := t)\<rparr>"
  have "tm_wf (snd (addTimer_locked p (?m t)))" for t
    by (rule tm_wf_addTimer_locked)
      (use remove_self[OF wf Some] tm_wfD(3)[OF wf] in \<open>auto split: if_splits\<close>)
  then show ?thesis
    using Some wf remove_self(1)[OF wf Some] by (simp add: timer_reset_def Let_def)
qed (use wf in \<open>simp add: timer_reset_def Let_def\<close>)

section \<open>Expiry\<close>

definition fired :: "64 word \<Rightarrow> 'c Timer \<Rightarrow> 'c Timer" where
  "fired now t = (if t_recurring t then t\<lparr>t_next := now + t_ms t\<rparr> else t\<lparr>t_cb := None\<rparr>)"

definition fire :: "64 word \<Rightarrow> tptr \<Rightarrow> 'c TimerManager \<Rightarrow> 'c TimerManager" where
  "fire now p m =
     (let h = (timer_at m)(p := fired now (timer_at m p)) in
      m\<lparr>timer_at := h,
        timers := if t_recurring (timer_at m p) then set_insert (timer_less h) p (timers m) else timers m\<rparr>)"

lemma fire_fields [simp]:
  "timer_at (fire now p m) = (timer_at m)(p := fired now (timer_at m p))"
  "previouseTime (fire now p m) = previouseTime m" "tickled (fire now p m) = tickled m"
  "set (timers (fire now p m)) = (if t_recurring (timer_at m p) then insert p (set (timers m)) else set (timers m))"
  by (simp_all add: fire_def Let_def tset_simps)

lemma sorted_fire:
  "sorted_wrt (timer_less (timer_at m)) (timers m) \<Longrightarrow> p \<notin> set (timers m) \<Longrightarrow>
   sorted_wrt (timer_less ((timer_at m)(p := fired now (timer_at m p)))) (timers (fire now p m))"
  by (simp add: fire_def Let_def tset_simps)

lemma expire_loop_Cons:
  "expire_loop now (p # ps) m =
     (let (cbs, m2) = expire_loop now ps (fire now p m) in (t_cb (timer_at m p) # cbs, m2))"
  by (simp add: fire_def fired_def Let_def)

lemma expire_loop_spec:
  assumes "expire_loop now ps m = (cs, m')"
    and "sorted_wrt (timer_less (timer_at m)) (timers m)" "distinct ps" "set ps \<inter> set (timers m) = {}"
  shows "cs = map (\<lambda>p. t_cb (timer_at m p)) ps \<and>
    sorted_wrt (timer_less (timer_at m')) (timers m') \<and>
    set (timers m') = set (timers m) \<union> {p \<in> set ps. t_recurring (timer_at m p)} \<and>
    timer_at m' = (\<lambda>p. if p \<in> set ps then fired now (timer_at m p) else timer_at m p) \<and>
    previouseTime m' = previouseTime m \<and> tickled m' = tickled m"
  using assms
proof (induction ps arbitrary: m cs)
  case (Cons p ps)
  obtain cs1 where l: "expire_loop now ps (fire now p m) = (cs1, m')" "cs = t_cb (timer_at m p) # cs1"
    using Cons.prems(1) by (auto simp: expire_loop_Cons simp del: expire_loop.simps split: prod.splits)
  have p: "p \<notin> set ps" "p \<notin> set (timers m)" using Cons.prems by auto
  have d: "set ps \<inter> set (timers (fire now p m)) = {}" using Cons.prems p by auto
  have so: "sorted_wrt (timer_less (timer_at (fire now p m))) (timers (fire now p m))"
    using sorted_fire[OF Cons.prems(2) p(2)] unfolding fire_fields .
  show ?case using Cons.IH[OF l(1) so _ d] p l(2) Cons.prems(3) by auto
qed simp

text \<open>The timers whose time has come, in the order of the set.\<close>

definition due :: "64 word \<Rightarrow> 'c TimerManager \<Rightarrow> tptr list" where
  "due now m = (if fst (detectClockRolllover now m) then timers m
                else filter (\<lambda>p. t_next (timer_at m p) \<le> now) (timers m))"

lemma less_next: "timer_less h a b \<Longrightarrow> t_next (h a) \<le> t_next (h b)"
  by (auto simp: timer_less_def split: if_splits)

lemma sorted_drop_filter:
  assumes "sorted_wrt (timer_less h) ts"
  shows "takeWhile (\<lambda>p. t_next (h p) \<le> now) ts = filter (\<lambda>p. t_next (h p) \<le> now) ts"
  using assms
proof (induction ts)
  case (Cons a ts)
  then show ?case
    using less_next[of h a] by (auto simp: empty_filter_conv) (meson order_trans)
qed simp

lemma skip_now:
  assumes "sorted_wrt (timer_less h) ts" and "p \<notin> set ts"
  shows "dropWhile (\<lambda>q. t_next (h q) = now) (lower_bound (timer_less (h(p := new_Timer_at now))) p ts)
    = dropWhile (\<lambda>q. t_next (h q) \<le> now) ts"
  using assms
proof (induction ts)
  case (Cons a ts)
  show ?case
  proof (cases "timer_less (h(p := new_Timer_at now)) a p")
    case True
    then have "t_next (h a) \<le> now"
      using Cons.prems(2) by (auto simp: timer_less_def new_Timer_at_def split: if_splits)
    then show ?thesis using True Cons by (simp add: lower_bound_def del: fun_upd_apply)
  next
    case False
    then have "now \<le> t_next (h a)"
      using Cons.prems(2) by (auto simp: timer_less_def new_Timer_at_def split: if_splits)
    then have "t_next (h q) = now \<longleftrightarrow> t_next (h q) \<le> now" if "q \<in> set (a # ts)" for q
      using that Cons.prems(1) less_next[of h a q] by fastforce
    then have "dropWhile (\<lambda>q. t_next (h q) = now) (a # ts) = dropWhile (\<lambda>q. t_next (h q) \<le> now) (a # ts)"
      by (intro dropWhile_cong) auto
    then show ?thesis using False by (simp add: lower_bound_def del: fun_upd_apply)
  qed
qed (simp add: lower_bound_def)

lemma take_dropWhile: "take (length xs - length (dropWhile P xs)) xs = takeWhile P xs"
  by (metis append_eq_conv_conj length_append add_diff_cancel_right' takeWhile_dropWhile_id)

lemma listExpiredCb_due:
  assumes wf: "tm_wf m" and p: "p \<notin> set (timers m)"
  obtains m' where "listExpiredCb now p cbs m = (cbs @ map (\<lambda>q. t_cb (timer_at m q)) (due now m), m')"
    and "tm_wf m'" and "set (timers m') = set (timers m) - set (due now m) \<union> {q \<in> set (due now m). t_recurring (timer_at m q)}"
    and "timer_at m' = (\<lambda>q. if q \<in> set (due now m) then fired now (timer_at m q) else timer_at m q)"
proof -
  note s = tm_wfD[OF wf]
  obtain ro m1 where d: "detectClockRolllover now m = (ro, m1)" by (metis surj_pair)
  have m1: "timer_at m1 = timer_at m" "timers m1 = timers m"
    using d by (auto simp: detectClockRolllover_def)
  consider (none) "timers m = []" | (early) "timers m \<noteq> []" "\<not> ro" "t_next (timer_at m (hd (timers m))) > now"
    | (fire) "timers m \<noteq> []" "ro \<or> t_next (timer_at m (hd (timers m))) \<le> now" by fastforce
  then show thesis
  proof cases
    case none
    then have "due now m = []" by (simp add: due_def)
    then show ?thesis using none wf that[of m] by (simp add: listExpiredCb_def)
  next
    case early
    have "due now m = []"
      using early s(1) less_next[of "timer_at m" "hd (timers m)"] d
      by (cases "timers m") (auto simp: due_def filter_empty_conv not_le dest: less_le_trans)
    then show ?thesis using early wf that[of m1] d m1 by (simp add: listExpiredCb_def tm_wf_def)
  next
    case fire
    define it where "it = (if ro then [] else dropWhile (\<lambda>q. t_next (timer_at m q) \<le> now) (timers m))"
    have ex: "take (length (timers m) - length it) (timers m) = due now m"
      using d by (simp add: it_def due_def take_dropWhile sorted_drop_filter[OF s(1)])
    have app: "due now m @ it = timers m"
      using d by (simp add: it_def due_def flip: sorted_drop_filter[OF s(1)])
    obtain cs m2 where l: "expire_loop now (due now m) (m1\<lparr>timers := it\<rparr>) = (cs, m2)" by (metis surj_pair)
    have it: "dropWhile (\<lambda>q. t_next (timer_at m q) = now)
      (if ro then [] else lower_bound (timer_less ((timer_at m)(p := new_Timer_at now))) p (timers m)) = it"
      by (simp add: it_def skip_now[OF s(1) p])
    have guard: "\<not> (\<not> ro \<and> now < t_next (timer_at m (hd (timers m))))" using fire(2) by auto
    have "listExpiredCb now p cbs m = (cbs @ cs, m2)"
      unfolding listExpiredCb_def Let_def d prod.case m1 it ex l using fire(1) guard by auto
    moreover have "sorted_wrt (timer_less (timer_at m)) it" "distinct (due now m)" "set (due now m) \<inter> set it = {}"
      "set it = set (timers m) - set (due now m)"
      using s(1,2) unfolding app[symmetric] by (auto simp: sorted_wrt_append)
    note i = this
    have f: "timer_at (m1\<lparr>timers := it\<rparr>) = timer_at m" "timers (m1\<lparr>timers := it\<rparr>) = it"
      by (simp_all add: m1)
    have E: "cs = map (\<lambda>q. t_cb (timer_at m q)) (due now m)" "sorted_wrt (timer_less (timer_at m2)) (timers m2)"
      "set (timers m2) = set it \<union> {q \<in> set (due now m). t_recurring (timer_at m q)}"
      "timer_at m2 = (\<lambda>q. if q \<in> set (due now m) then fired now (timer_at m q) else timer_at m q)"
      using expire_loop_spec[OF l, unfolded f, OF i(1-3)] by blast+
    have "tm_wf m2" unfolding tm_wf_def
      using E(2-4) s(3) i(4) by (auto simp: fired_def split: if_splits)
    ultimately show ?thesis using that[of m2] E i(4) by simp
  qed
qed

section \<open>Runs of a manager\<close>

text \<open>
  Calls of the operations in any order, with any clock readings; a new timer gets an address that
  is not in use.
\<close>

inductive tm_step :: "'c TimerManager \<Rightarrow> 'c TimerManager \<Rightarrow> bool" where
  step_add: "p \<notin> set (timers m) \<Longrightarrow> tm_step m (snd (addTimer now p ms cb rec m))"
| step_cancel: "cancel p m = Inr (b, m') \<Longrightarrow> tm_step m m'"
| step_refresh: "tm_step m (snd (refresh now p m))"
| step_reset: "tm_step m (snd (snd (timer_reset now ms from_now p m)))"
| step_next: "tm_step m (snd (getNextTimer now m))"
| step_expire: "p \<notin> set (timers m) \<Longrightarrow> tm_step m (snd (listExpiredCb now p cbs m))"

lemma tm_wf_step:
  assumes wf: "tm_wf m" and "tm_step m m'"
  shows "tm_wf m'"
  using assms(2)
proof cases
  case (step_next now)
  then show ?thesis using wf by (auto simp: getNextTimer_def Let_def tm_wf_def split: list.split)
next
  case (step_expire p now cbs)
  obtain m2 where "listExpiredCb now p cbs m = (cbs @ map (\<lambda>q. t_cb (timer_at m q)) (due now m), m2)" "tm_wf m2"
    by (rule listExpiredCb_due[OF wf step_expire(2)])
  then show ?thesis using step_expire(1) by simp
qed (use wf in \<open>auto intro: tm_wf_addTimer tm_wf_cancel tm_wf_refresh tm_wf_timer_reset\<close>)

interpretation tmi: inductive_invariant "\<lambda>m. \<exists>now. m = new_TimerManager now" tm_step tm_wf
  by unfold_locales (auto intro: tm_wf_new tm_wf_step)

definition demo_tm :: "nat TimerManager" where
  "demo_tm = snd (addTimer 100 5 20 (Some 8) True (snd (addTimer 90 2 5000 (Some 7) False (new_TimerManager 90))))"

lemma demo_tm_run: "tm_step\<^sup>*\<^sup>* (new_TimerManager 90) demo_tm"
  unfolding demo_tm_def
  by (rule rtranclp.rtrancl_into_rtrancl[OF rtranclp.rtrancl_into_rtrancl[OF rtranclp.rtrancl_refl]])
    (rule step_add, simp add: new_TimerManager_def addTimer_def addTimer_locked_def)+

lemma demo_tm_simps:
  "timers demo_tm = [5, 2]" "timer_at demo_tm 5 = \<lparr>t_recurring = True, t_ms = 20, t_next = 120, t_cb = Some 8\<rparr>"
  "timer_at demo_tm 2 = \<lparr>t_recurring = False, t_ms = 5000, t_next = 5090, t_cb = Some 7\<rparr>" "previouseTime demo_tm = 90"
  by (simp_all add: demo_tm_def new_TimerManager_def addTimer_def addTimer_locked_def new_Timer_def new_Timer_at_def
      timer_less_def Let_def)

section \<open>Properties\<close>

text \<open>
  C40: In every reachable state of a timer manager the set of timers is sorted by time under the
  present contents of the timers, and \<open>cancel\<close> never erases at the end of the set: it returns
  whether the timer still had its callback, clears it and takes exactly this timer out.
\<close>

theorem timers_sorted_and_cancellable:
  assumes "tm_step\<^sup>*\<^sup>* (new_TimerManager start) m"
  shows "sorted_wrt (timer_less (timer_at m)) (timers m) \<and>
    (\<exists>m'. cancel p m = Inr (t_cb (timer_at m p) \<noteq> None, m') \<and> t_cb (timer_at m' p) = None \<and>
       set (timers m') = set (timers m) - (if t_cb (timer_at m p) = None then {} else {p}))"
proof -
  have wf: "tm_wf m" using tmi.holds_reachable assms by blast
  show ?thesis using tm_wfD[OF wf] cancel_spec[OF wf, of p] by simp
qed

theorem timers_sorted_and_cancellable_witness:
  "\<exists>m'. cancel 2 demo_tm = Inr (True, m') \<and> set (timers m') = {5}"
  using timers_sorted_and_cancellable[OF demo_tm_run, of 2] by (auto simp: demo_tm_simps)



text \<open>
  The waiting time \<open>getNextTimer\<close> returns is exact: as long as the clock does not run
  backwards, no timer is due before it has passed, and the first timer is due as soon as it has.
\<close>

theorem getNextTimer_exact:
  assumes "tm_wf m" and "hasTimer m" and "getNextTimer now m = (w, m')"
    and "now \<le> later" and "previouseTime m \<le> later"
  shows "due later m' = [] \<longleftrightarrow> later < now + w"
proof -
  obtain p ps where t: "timers m = p # ps" using assms(2) by (cases "timers m") (auto simp: hasTimer_def)
  have m': "m' = m\<lparr>tickled := False\<rparr>" and w: "w = (if now \<ge> t_next (timer_at m p) then 0 else t_next (timer_at m p) - now)"
    using assms(3) by (auto simp: getNextTimer_def t Let_def split: if_splits)
  have "later < now + w \<longleftrightarrow> later < t_next (timer_at m p)" using assms(4) w by auto
  moreover have "due later m' = [] \<longleftrightarrow> later < t_next (timer_at m p)"
    using tm_wfD(1)[OF assms(1)] less_next[of "timer_at m" p] assms(5)
    by (auto simp: due_def m' t detectClockRolllover_def filter_empty_conv not_le dest: less_le_trans)
  ultimately show ?thesis by simp
qed

theorem getNextTimer_exact_witness:
  "due 119 (snd (getNextTimer 100 demo_tm)) = [] \<and> due 120 (snd (getNextTimer 100 demo_tm)) \<noteq> []"
proof -
  have "tm_wf demo_tm" using tmi.holds_reachable demo_tm_run by blast
  then show ?thesis
    using getNextTimer_exact[of demo_tm 100 20 "snd (getNextTimer 100 demo_tm)" 119]
      getNextTimer_exact[of demo_tm 100 20 "snd (getNextTimer 100 demo_tm)" 120]
    by (simp add: hasTimer_def demo_tm_simps getNextTimer_def Let_def)
qed

text \<open>
  In the first hour of the clock, \<open>previouseTime - 60 * 60 * 1000\<close> wraps around, and any
  clock reading older than the last one, such as one taken by a thread that then waited for the
  lock, counts as a rollover: every timer fires at once, however far its time is.
\<close>

theorem rollover_in_first_hour:
  assumes "tm_wf m" and "p \<notin> set (timers m)" and "now < previouseTime m" and "previouseTime m < 3600000"
  shows "fst (listExpiredCb now p cbs m) = cbs @ map (\<lambda>q. t_cb (timer_at m q)) (timers m)"
proof -
  have "now < previouseTime m - 3600000"
    using assms(3,4) by (simp add: word_less_nat_alt unat_sub_if_size word_size)
  then have "due now m = timers m" using assms(3) by (simp add: due_def detectClockRolllover_def)
  then show ?thesis using listExpiredCb_due[OF assms(1,2), of now cbs] by (metis fst_conv)
qed

theorem rollover_in_first_hour_witness: "fst (listExpiredCb 89 9 [] demo_tm) = [Some 8, Some 7]"
proof -
  have "tm_wf demo_tm" using tmi.holds_reachable demo_tm_run by blast
  then show ?thesis using rollover_in_first_hour[of demo_tm 9 89 "[]"] by (simp add: demo_tm_simps)
qed

end
