(* ===== verification/IOManager.thy ===== *)
theory IOManager
  imports Scheduler Timer
begin

unbundle bit_operations_syntax

text \<open>
  The event manager: src/src/fiber/iomanager.cpp and iomanager.hpp, a scheduler and a timer manager
  in one object.

  An \<open>Event\<close> is a 32-bit value, as in the code; the kernel's event bits are those of epoll.
  What \<open>epoll_ctl\<close> and \<open>epoll_wait\<close> return are arguments. The context of a descriptor is its
  place in \<open>fdContexts\<close>; the pointer the kernel hands back is that place. \<open>tickles\<close> counts the
  bytes written to the pipe. There is one scheduler, so a pointer to it is set or null.

  \<open>io_wf\<close> is the invariant: an event bit is set exactly when a function or a fiber waits for it,
  and \<open>pendingEventCnt\<close> is the number of set bits.
\<close>

section \<open>State\<close>

definition NONE :: "32 word" where "NONE = 0"

definition READ :: "32 word" where "READ = 1"

definition WRITE :: "32 word" where "WRITE = 4"

definition EPOLLIN :: "32 word" where "EPOLLIN = 1"

definition EPOLLOUT :: "32 word" where "EPOLLOUT = 4"

definition EPOLLERR :: "32 word" where "EPOLLERR = 8"

definition EPOLLHUP :: "32 word" where "EPOLLHUP = 16"

record 'c EventContext =
  ec_scheduler :: bool
  ec_fiber :: "fptr option"
  ec_cb :: "'c option"

record 'c FdContext =
  ev_read :: "'c EventContext"
  ev_write :: "'c EventContext"
  ctx_fd :: int
  events :: "32 word"

record 'c IOManager =
  io_sched :: "'c Scheduler"
  io_timers :: "'c TimerManager"
  pendingEventCnt :: int
  fdContexts :: "'c FdContext list"
  tickles :: nat

section \<open>Contexts of descriptors\<close>

definition no_waiter :: "'c EventContext" where
  "no_waiter = \<lparr>ec_scheduler = False, ec_fiber = None, ec_cb = None\<rparr>"

definition new_FdContext :: "int \<Rightarrow> 'c FdContext" where
  "new_FdContext fd = \<lparr>ev_read = no_waiter, ev_write = no_waiter, ctx_fd = fd, events = NONE\<rparr>"

definition getEveContext :: "32 word \<Rightarrow> 'c FdContext \<Rightarrow> 'c EventContext res" where
  "getEveContext event c =
     (if event = READ then Inr (ev_read c) else if event = WRITE then Inr (ev_write c) else Inl AssertFail)"

text \<open>A write through the reference \<open>getEveContext\<close> returned.\<close>

definition put_ctx :: "32 word \<Rightarrow> 'c EventContext \<Rightarrow> 'c FdContext \<Rightarrow> 'c FdContext" where
  "put_ctx event e c = (if event = READ then c\<lparr>ev_read := e\<rparr> else c\<lparr>ev_write := e\<rparr>)"

definition io_tickle :: "'c IOManager \<Rightarrow> 'c IOManager" where
  "io_tickle m = (if \<not> (idleThreadCnt (io_sched m) > 0) then m else m\<lparr>tickles := tickles m + 1\<rparr>)"

text \<open>\<open>Scheduler::scheduler\<close> with the overridden \<open>tickle\<close>.\<close>

definition io_scheduler :: "'c SchedulerTask \<Rightarrow> 'c IOManager \<Rightarrow> 'c IOManager" where
  "io_scheduler task m =
     (let (isNeedTickle, s) = schedulerNoLock task (io_sched m); m1 = m\<lparr>io_sched := s\<rparr> in
      if isNeedTickle then io_tickle m1 else m1)"

definition waiter_task :: "'c EventContext \<Rightarrow> 'c SchedulerTask" where
  "waiter_task e =
     (if ec_cb e \<noteq> None then \<lparr>task_fiber = None, task_cb = ec_cb e, task_thread = - 1\<rparr>
      else \<lparr>task_fiber = ec_fiber e, task_cb = None, task_thread = - 1\<rparr>)"

definition triggerEvent :: "32 word \<Rightarrow> 'c FdContext \<Rightarrow> 'c IOManager \<Rightarrow> ('c FdContext \<times> 'c IOManager) res" where
  "triggerEvent event c m =
     bindr (myAssert (events c AND event \<noteq> 0)) (\<lambda>_.
     let c1 = c\<lparr>events := events c AND NOT event\<rparr> in
     bindr (getEveContext event c1) (\<lambda>ctx.
     if \<not> ec_scheduler ctx then Inl NullDeref
     else Inr (put_ctx event no_waiter c1, io_scheduler (waiter_task ctx) m)))"

definition contextResize :: "nat \<Rightarrow> 'c IOManager \<Rightarrow> 'c IOManager" where
  "contextResize n m =
     m\<lparr>fdContexts := take n (fdContexts m) @ map (\<lambda>i. new_FdContext (int i)) [length (fdContexts m)..<n]\<rparr>"

text \<open>
  The constructor, after those of the two base classes; \<open>pipe\<close>, \<open>fcntl\<close> and \<open>epoll_ctl\<close> return
  \<open>rets\<close>, and \<open>start\<close> creates the threads.
\<close>

definition new_IOManager ::
  "int list \<Rightarrow> int list \<Rightarrow> int list \<Rightarrow> 'c Scheduler \<Rightarrow> 'c TimerManager \<Rightarrow> 'c IOManager res" where
  "new_IOManager rets new_threads read_ids s tm =
     bindr (myAssert (\<forall>r \<in> set rets. r = 0)) (\<lambda>_.
     let m = contextResize 32 \<lparr>io_sched = s, io_timers = tm, pendingEventCnt = 0, fdContexts = [], tickles = 0\<rparr> in
     bindr (start new_threads read_ids (io_sched m)) (\<lambda>s1. Inr (m\<lparr>io_sched := s1\<rparr>)))"

text \<open>The destructor, after \<open>stop\<close>: every context is deleted.\<close>

definition delete_IOManager :: "'c IOManager \<Rightarrow> 'c IOManager" where
  "delete_IOManager m = m\<lparr>fdContexts := []\<rparr>"

definition set_ctx :: "int \<Rightarrow> 'c FdContext \<Rightarrow> 'c IOManager \<Rightarrow> 'c IOManager" where
  "set_ctx fd c m = m\<lparr>fdContexts := (fdContexts m)[nat fd := c]\<rparr>"

section \<open>Registration\<close>

text \<open>
  The second half of \<open>addEvent\<close> on thread \<open>t\<close>, when \<open>epoll_ctl\<close> has succeeded; \<open>p\<close> is the address of a
  main fiber that \<open>Fiber::GetThis\<close> may create.
\<close>

definition add_waiter ::
  "int \<Rightarrow> fptr \<Rightarrow> bool \<Rightarrow> int \<Rightarrow> 32 word \<Rightarrow> 'c option \<Rightarrow> 'c FdContext \<Rightarrow> 'c IOManager \<Rightarrow> (int \<times> 'c IOManager) res" where
  "add_waiter t p garbage fd event cb c m =
     (let m1 = m\<lparr>pendingEventCnt := pendingEventCnt m + 1\<rparr>;
          c1 = c\<lparr>events := events c OR event\<rparr>;
          sch = cur_scheduler (io_sched m1) t in
      bindr (getEveContext event c1) (\<lambda>ctx.
      bindr (myAssert (\<not> ec_scheduler ctx \<and> ec_fiber ctx = None \<and> ec_cb ctx = None)) (\<lambda>_.
      case cb of
        Some f \<Rightarrow> Inr (0, set_ctx fd (put_ctx event (ctx\<lparr>ec_scheduler := sch, ec_cb := cb\<rparr>) c1) m1)
      | None \<Rightarrow>
          bindr (fiber_GetThis t p garbage (fib (io_sched m1))) (\<lambda>(f, fb).
          bindr (read_fiber fb f) (\<lambda>g.
          bindr (myAssert (f_state g = RUNNING)) (\<lambda>_.
          Inr (0, set_ctx fd (put_ctx event (ctx\<lparr>ec_scheduler := sch, ec_fiber := Some f\<rparr>) c1)
                    (m1\<lparr>io_sched := (io_sched m1)\<lparr>fib := fb\<rparr>\<rparr>))))))))"

text \<open>\<open>ret\<close> is the result of \<open>epoll_ctl\<close>.\<close>

definition addEvent ::
  "int \<Rightarrow> fptr \<Rightarrow> bool \<Rightarrow> int \<Rightarrow> int \<Rightarrow> 32 word \<Rightarrow> 'c option \<Rightarrow> 'c IOManager \<Rightarrow> (int \<times> 'c IOManager) res" where
  "addEvent t p garbage ret fd event cb m =
     (let m1 = (if int (length (fdContexts m)) > fd then m else contextResize (nat (fd * 3 div 2)) m) in
      bindr (vec_at (fdContexts m1) fd) (\<lambda>c.
      bindr (myAssert (events c AND event = 0)) (\<lambda>_.
      if ret \<noteq> 0 then Inr (- 1, m1) else add_waiter t p garbage fd event cb c m1)))"

definition delEvent :: "int \<Rightarrow> int \<Rightarrow> 32 word \<Rightarrow> 'c IOManager \<Rightarrow> (bool \<times> 'c IOManager) res" where
  "delEvent ret fd event m =
     (if int (length (fdContexts m)) \<le> fd then Inr (False, m)
      else bindr (vec_at (fdContexts m) fd) (\<lambda>c.
        if events c AND event = 0 then Inr (False, m)
        else
          let new_events = events c AND NOT event in
          if ret \<noteq> 0 then Inr (False, m)
          else
            let c1 = c\<lparr>events := new_events\<rparr> in
            bindr (getEveContext event c1) (\<lambda>_.
            Inr (True, set_ctx fd (put_ctx event no_waiter c1) (m\<lparr>pendingEventCnt := pendingEventCnt m - 1\<rparr>)))))"

text \<open>\<open>triggerEvent\<close> on the context at \<open>fd\<close>, followed by the decrement of the pending count.\<close>

definition trigger_at :: "int \<Rightarrow> 32 word \<Rightarrow> 'c IOManager \<Rightarrow> 'c IOManager res" where
  "trigger_at fd event m =
     bindr (vec_at (fdContexts m) fd) (\<lambda>c.
     bindr (triggerEvent event c m) (\<lambda>(c1, m1).
     Inr (set_ctx fd c1 (m1\<lparr>pendingEventCnt := pendingEventCnt m1 - 1\<rparr>))))"

definition cancelEvent :: "int \<Rightarrow> int \<Rightarrow> 32 word \<Rightarrow> 'c IOManager \<Rightarrow> (bool \<times> 'c IOManager) res" where
  "cancelEvent ret fd event m =
     (if int (length (fdContexts m)) \<le> fd then Inr (False, m)
      else bindr (vec_at (fdContexts m) fd) (\<lambda>c.
        if events c AND event = 0 then Inr (False, m)
        else if ret \<noteq> 0 then Inr (False, m)
        else bindr (trigger_at fd event m) (\<lambda>m1. Inr (True, m1))))"

definition trigger_if :: "bool \<Rightarrow> int \<Rightarrow> 32 word \<Rightarrow> 'c IOManager \<Rightarrow> 'c IOManager res" where
  "trigger_if b fd event m = (if b then trigger_at fd event m else Inr m)"

definition cancelAll :: "int \<Rightarrow> int \<Rightarrow> 'c IOManager \<Rightarrow> (bool \<times> 'c IOManager) res" where
  "cancelAll ret fd m =
     (if int (length (fdContexts m)) \<le> fd then Inr (False, m)
      else bindr (vec_at (fdContexts m) fd) (\<lambda>c.
        if events c = 0 then Inr (False, m)
        else if ret \<noteq> 0 then Inr (False, m)
        else
          bindr (trigger_if (events c AND READ \<noteq> 0) fd READ m) (\<lambda>m1.
          bindr (vec_at (fdContexts m1) fd) (\<lambda>c1.
          bindr (trigger_if (events c1 AND WRITE \<noteq> 0) fd WRITE m1) (\<lambda>m2.
          bindr (vec_at (fdContexts m2) fd) (\<lambda>c2.
          bindr (myAssert (events c2 = 0)) (\<lambda>_. Inr (True, m2))))))))"

section \<open>The idle loop\<close>

definition io_stopping :: "64 word \<Rightarrow> 'c IOManager \<Rightarrow> bool \<times> 64 word \<times> 'c IOManager" where
  "io_stopping now m =
     (let (timeout, tm) = getNextTimer now (io_timers m); m1 = m\<lparr>io_timers := tm\<rparr> in
      (timeout = - 1 \<and> pendingEventCnt m1 = 0 \<and> stopping (io_sched m1), timeout, m1))"

text \<open>
  The argument of \<open>epoll_wait\<close>: the 64-bit time is converted to \<open>int\<close> before it is compared with
  5000, which drops its upper half and may make it negative.
\<close>

definition wait_ms :: "64 word \<Rightarrow> int" where
  "wait_ms next_timeout =
     (if next_timeout \<noteq> - 1 then min (sint (ucast next_timeout :: 32 word)) 5000 else 5000)"

datatype epoll_event = Tickled | Ready int "32 word"

text \<open>
  One element of the array \<open>epoll_wait\<close> filled; \<open>ret2\<close> is the result of \<open>epoll_ctl\<close>.
\<close>

definition handle_event :: "int \<Rightarrow> epoll_event \<Rightarrow> 'c IOManager \<Rightarrow> 'c IOManager res" where
  "handle_event ret2 ev m =
     (case ev of
        Tickled \<Rightarrow> Inr (m\<lparr>tickles := 0\<rparr>)
      | Ready fd bits \<Rightarrow>
          bindr (vec_at (fdContexts m) fd) (\<lambda>c.
          let bits1 = (if bits AND (EPOLLERR OR EPOLLHUP) \<noteq> 0
                       then bits OR ((EPOLLIN OR EPOLLOUT) AND events c) else bits);
              real_events = (if bits1 AND EPOLLIN \<noteq> 0 then READ else NONE) OR
                            (if bits1 AND EPOLLOUT \<noteq> 0 then WRITE else NONE) in
          if events c AND real_events = NONE then Inr m
          else if ret2 \<noteq> 0 then Inr m
          else
            bindr (trigger_if (real_events AND READ \<noteq> 0) fd READ m) (\<lambda>m1.
            trigger_if (real_events AND WRITE \<noteq> 0) fd WRITE m1)))"

fun handle_events :: "(int \<times> epoll_event) list \<Rightarrow> 'c IOManager \<Rightarrow> 'c IOManager res" where
  "handle_events [] m = Inr m"
| "handle_events ((ret2, ev) # es) m = bindr (handle_event ret2 ev m) (\<lambda>m1. handle_events es m1)"

fun schedule_all :: "'c option list \<Rightarrow> 'c IOManager \<Rightarrow> 'c IOManager" where
  "schedule_all [] m = m"
| "schedule_all (cb # cbs) m =
     schedule_all cbs (io_scheduler \<lparr>task_fiber = None, task_cb = cb, task_thread = - 1\<rparr> m)"

text \<open>One turn of the loop after \<open>epoll_wait\<close> has returned, up to the \<open>yield\<close>.\<close>

definition idle_round :: "64 word \<Rightarrow> tptr \<Rightarrow> (int \<times> epoll_event) list \<Rightarrow> 'c IOManager \<Rightarrow> 'c IOManager res" where
  "idle_round now p evs m =
     (let (cbs, tm) = listExpiredCb now p [] (io_timers m) in
      handle_events evs (schedule_all cbs (m\<lparr>io_timers := tm\<rparr>)))"

text \<open>
  The inner loop around \<open>epoll_wait\<close>: the time is converted again after an interruption. The outcomes of
  the calls are arguments; the code leaves the loop with an error as with no events.
\<close>

datatype wait_outcome = Interrupted | WaitError int | Reported "(int \<times> epoll_event) list"

definition next_wait :: "64 word \<Rightarrow> 64 word" where
  "next_wait next_timeout =
     (if next_timeout \<noteq> - 1 then word_of_int (min (sint (ucast next_timeout :: 32 word)) 5000) else 5000)"

fun epoll_loop :: "wait_outcome list \<Rightarrow> 64 word \<Rightarrow> (int \<times> epoll_event) list res" where
  "epoll_loop [] next_timeout = Inl Diverges"
| "epoll_loop (outcome # outcomes) next_timeout =
     (case outcome of
        Interrupted \<Rightarrow> epoll_loop outcomes (next_wait next_timeout)
      | WaitError err \<Rightarrow> Inr []
      | Reported evs \<Rightarrow> Inr evs)"

text \<open>
  One turn of the whole loop of \<open>idle\<close>, up to its exit or to the \<open>yield\<close>; the flag tells that the loop has
  been left.
\<close>

definition idle_pass ::
  "64 word \<Rightarrow> 64 word \<Rightarrow> tptr \<Rightarrow> wait_outcome list \<Rightarrow> 'c IOManager \<Rightarrow> (bool \<times> 'c IOManager) res" where
  "idle_pass now now' p outcomes m =
     (let (stop, next_timeout, m1) = io_stopping now m in
      if stop then Inr (True, m1)
      else
        bindr (epoll_loop outcomes next_timeout) (\<lambda>evs.
        bindr (idle_round now' p evs m1) (\<lambda>m2. Inr (False, m2))))"

definition OnTimerInsertedAtFront :: "'c IOManager \<Rightarrow> 'c IOManager" where
  "OnTimerInsertedAtFront m = io_tickle m"

definition io_addTimer ::
  "64 word \<Rightarrow> tptr \<Rightarrow> 64 word \<Rightarrow> 'c option \<Rightarrow> bool \<Rightarrow> 'c IOManager \<Rightarrow> 'c IOManager" where
  "io_addTimer now p ms cb recurring m =
     (let (at_front, tm) = addTimer now p ms cb recurring (io_timers m); m1 = m\<lparr>io_timers := tm\<rparr> in
      if at_front then OnTimerInsertedAtFront m1 else m1)"

section \<open>Invariant\<close>

definition has :: "32 word \<Rightarrow> 'c FdContext \<Rightarrow> bool" where
  "has event c \<longleftrightarrow> events c AND event \<noteq> 0"

definition waiter :: "32 word \<Rightarrow> 'c FdContext \<Rightarrow> 'c EventContext" where
  "waiter event c = (if event = READ then ev_read c else ev_write c)"

definition waits :: "'c EventContext \<Rightarrow> bool" where
  "waits e \<longleftrightarrow> ec_scheduler e \<and> (ec_fiber e \<noteq> None) \<noteq> (ec_cb e \<noteq> None)"

definition pend :: "'c FdContext \<Rightarrow> int" where
  "pend c = of_bool (has READ c) + of_bool (has WRITE c)"

definition ctx_wf :: "'c FdContext \<Rightarrow> bool" where
  "ctx_wf c \<longleftrightarrow> events c \<in> {0, READ, WRITE, READ OR WRITE} \<and>
     (\<forall>e \<in> {READ, WRITE}. if has e c then waits (waiter e c) else waiter e c = no_waiter)"

definition io_wf :: "'c IOManager \<Rightarrow> bool" where
  "io_wf m \<longleftrightarrow> (\<forall>c \<in> set (fdContexts m). ctx_wf c) \<and> pendingEventCnt m = sum_list (map pend (fdContexts m)) \<and>
     32 \<le> length (fdContexts m)"

lemmas event_defs = READ_def WRITE_def NONE_def

definition clear :: "32 word \<Rightarrow> 'c FdContext \<Rightarrow> 'c FdContext" where
  "clear event c = put_ctx event no_waiter (c\<lparr>events := events c AND NOT event\<rparr>)"

lemma clear_ctx:
  assumes "ctx_wf c" "e \<in> {READ, WRITE}" "has e c"
  shows "ctx_wf (clear e c)" "pend (clear e c) = pend c - 1" "\<not> has e (clear e c)"
    "e' \<in> {READ, WRITE} \<Longrightarrow> e' \<noteq> e \<Longrightarrow> has e' (clear e c) = has e' c"
  using assms
  by (auto simp: ctx_wf_def clear_def put_ctx_def pend_def has_def waiter_def event_defs)

lemma sum_list_upd:
  fixes f :: "'a \<Rightarrow> int"
  assumes "i < length xs"
  shows "sum_list (map f (xs[i := y])) = sum_list (map f xs) - f (xs ! i) + f y"
  using assms by (induction xs arbitrary: i) (auto split: nat.split)

lemma io_wf_set_ctx:
  assumes "io_wf m" "0 \<le> fd" "fd < int (length (fdContexts m))" "ctx_wf c"
    and "k = pend c - pend (fdContexts m ! nat fd)"
  shows "io_wf (set_ctx fd c (m\<lparr>pendingEventCnt := pendingEventCnt m + k\<rparr>))"
  using assms set_update_subset_insert[of "fdContexts m" "nat fd" c]
  by (auto simp: io_wf_def set_ctx_def sum_list_upd)

lemma io_wf_frame:
  "io_wf m \<Longrightarrow> fdContexts m' = fdContexts m \<Longrightarrow> pendingEventCnt m' = pendingEventCnt m \<Longrightarrow> io_wf m'"
  by (simp add: io_wf_def)

lemma io_wf_ctx: "io_wf m \<Longrightarrow> 0 \<le> fd \<Longrightarrow> fd < int (length (fdContexts m)) \<Longrightarrow> ctx_wf (fdContexts m ! nat fd)"
  by (simp add: io_wf_def)

lemma io_scheduler_fields [simp]:
  "fdContexts (io_scheduler x m) = fdContexts m" "pendingEventCnt (io_scheduler x m) = pendingEventCnt m"
  "io_timers (io_scheduler x m) = io_timers m" "io_sched (io_scheduler x m) = snd (schedulerNoLock x (io_sched m))"
  by (auto simp: io_scheduler_def io_tickle_def Let_def split: prod.split)

lemma schedule_all_fields [simp]:
  "fdContexts (schedule_all cbs m) = fdContexts m" "pendingEventCnt (schedule_all cbs m) = pendingEventCnt m"
  by (induction cbs arbitrary: m) auto

lemma triggerEvent_spec:
  assumes "ctx_wf c" "e \<in> {READ, WRITE}" "has e c"
  shows "triggerEvent e c m = Inr (clear e c, io_scheduler (waiter_task (waiter e c)) m)"
proof -
  have "waits (waiter e c)" using assms by (auto simp: ctx_wf_def)
  moreover have "getEveContext e (c\<lparr>events := x\<rparr>) = Inr (waiter e c)" for x
    using assms(2) by (auto simp: getEveContext_def waiter_def READ_def WRITE_def)
  ultimately show ?thesis
    using assms(3) by (simp add: triggerEvent_def has_def waits_def clear_def Let_def)
qed

lemma trigger_at_spec:
  assumes wf: "io_wf m" and fd: "0 \<le> fd" "fd < int (length (fdContexts m))" and e: "e \<in> {READ, WRITE}" "has e (fdContexts m ! nat fd)"
  obtains m' where "trigger_at fd e m = Inr m'" "io_wf m'" "io_timers m' = io_timers m"
    "fdContexts m' = (fdContexts m)[nat fd := clear e (fdContexts m ! nat fd)]"
    "io_sched m' = snd (schedulerNoLock (waiter_task (waiter e (fdContexts m ! nat fd))) (io_sched m))"
proof -
  let ?c = "fdContexts m ! nat fd" and ?m1 = "io_scheduler (waiter_task (waiter e (fdContexts m ! nat fd))) m"
  note c = io_wf_ctx[OF wf fd] and cl = clear_ctx[OF io_wf_ctx[OF wf fd] e]
  have t: "trigger_at fd e m = Inr (set_ctx fd (clear e ?c) (?m1\<lparr>pendingEventCnt := pendingEventCnt m - 1\<rparr>))"
    using fd by (simp add: trigger_at_def triggerEvent_spec[OF c e])
  have "io_wf ?m1" by (rule io_wf_frame[OF wf]) simp_all
  then have "io_wf (set_ctx fd (clear e ?c) (?m1\<lparr>pendingEventCnt := pendingEventCnt ?m1 + - 1\<rparr>))"
    by (rule io_wf_set_ctx) (use fd cl in simp_all)
  then show thesis using that[OF t] by (simp add: set_ctx_def)
qed

lemma new_FdContext_wf: "ctx_wf (new_FdContext fd)" "pend (new_FdContext fd) = 0"
  by (auto simp: ctx_wf_def new_FdContext_def has_def waiter_def pend_def NONE_def)

lemma contextResize_wf:
  assumes "io_wf m" "length (fdContexts m) \<le> n"
  shows "io_wf (contextResize n m)" "length (fdContexts (contextResize n m)) = n"
    "i < length (fdContexts m) \<Longrightarrow> fdContexts (contextResize n m) ! i = fdContexts m ! i"
  using assms by (auto simp: io_wf_def contextResize_def new_FdContext_wf nth_append comp_def sum_list_0)

lemma new_IOManager_wf: "new_IOManager rets ts ids s tm = Inr m \<Longrightarrow> io_wf m"
  by (auto simp: new_IOManager_def bindr_eq_Inr Let_def contextResize_def io_wf_def new_FdContext_wf comp_def sum_list_0)

lemma trigger_at_wf:
  assumes "io_wf m" "e \<in> {READ, WRITE}" "trigger_at fd e m = Inr m'"
  shows "io_wf m'"
proof -
  have c: "0 \<le> fd" "fd < int (length (fdContexts m))" "has e (fdContexts m ! nat fd)"
    using assms(3) by (auto simp: trigger_at_def triggerEvent_def bindr_eq_Inr vec_at_eq_Inr myAssert_def has_def split: if_splits)
  obtain m2 where "trigger_at fd e m = Inr m2" "io_wf m2"
    by (rule trigger_at_spec[OF assms(1) c(1,2) assms(2) c(3)])
  then show ?thesis using assms(3) by simp
qed

lemma trigger_if_wf: "io_wf m \<Longrightarrow> e \<in> {READ, WRITE} \<Longrightarrow> trigger_if b fd e m = Inr m' \<Longrightarrow> io_wf m'"
  using trigger_at_wf by (auto simp: trigger_if_def split: if_splits)

lemma register_ctx:
  assumes "ctx_wf c" "e \<in> {READ, WRITE}" "\<not> has e c" "waits w"
  shows "ctx_wf (put_ctx e w (c\<lparr>events := events c OR e\<rparr>))" "pend (put_ctx e w (c\<lparr>events := events c OR e\<rparr>)) = pend c + 1"
  using assms by (auto simp: ctx_wf_def put_ctx_def pend_def has_def waiter_def event_defs)

lemma add_waiter_result:
  assumes "add_waiter t p g fd e cb c m = Inr (r, m')" and "cur_scheduler (io_sched m) t"
  obtains w where "waits w" "pendingEventCnt m' = pendingEventCnt m + 1"
    "fdContexts m' = (fdContexts m)[nat fd := put_ctx e w (c\<lparr>events := events c OR e\<rparr>)]"
proof -
  obtain ctx where ctx: "getEveContext e (c\<lparr>events := events c OR e\<rparr>) = Inr ctx"
      "\<not> ec_scheduler ctx" "ec_fiber ctx = None" "ec_cb ctx = None"
    using assms(1) by (auto simp: add_waiter_def Let_def bindr_eq_Inr myAssert_def split: if_splits)
  show thesis
  proof (cases cb)
    case (Some f)
    then show ?thesis
      using that[of "ctx\<lparr>ec_scheduler := True, ec_cb := cb\<rparr>"] assms ctx
      by (auto simp: add_waiter_def Let_def set_ctx_def waits_def)
  next
    case None
    then obtain f fb where "m' = set_ctx fd (put_ctx e (ctx\<lparr>ec_scheduler := True, ec_fiber := Some f\<rparr>) (c\<lparr>events := events c OR e\<rparr>))
        (m\<lparr>pendingEventCnt := pendingEventCnt m + 1, io_sched := (io_sched m)\<lparr>fib := fb\<rparr>\<rparr>)"
      using assms ctx by (auto simp: add_waiter_def Let_def bindr_eq_Inr)
    then show ?thesis
      using that[of "ctx\<lparr>ec_scheduler := True, ec_fiber := Some f\<rparr>"] ctx by (simp add: set_ctx_def waits_def)
  qed
qed

lemma addEvent_wf:
  assumes wf: "io_wf m" and sch: "cur_scheduler (io_sched m) t" and e: "e \<in> {READ, WRITE}"
    and add: "addEvent t p g ret fd e cb m = Inr (r, m')"
  shows "io_wf m'"
proof -
  define m1 where "m1 = (if int (length (fdContexts m)) > fd then m else contextResize (nat (fd * 3 div 2)) m)"
  have sch1: "cur_scheduler (io_sched m1) t" using sch by (simp add: m1_def contextResize_def)
  have wf1: "io_wf m1"
  proof (cases "int (length (fdContexts m)) > fd")
    case False
    then have "length (fdContexts m) \<le> nat (fd * 3 div 2)" using wf by (simp add: io_wf_def)
    then show ?thesis using False contextResize_wf(1)[OF wf] by (simp add: m1_def)
  qed (use wf in \<open>simp add: m1_def\<close>)
  let ?c = "fdContexts m1 ! nat fd"
  have a: "0 \<le> fd" "fd < int (length (fdContexts m1))" "\<not> has e ?c"
    "(if ret \<noteq> 0 then Inr (- 1, m1) else add_waiter t p g fd e cb ?c m1) = Inr (r, m')"
    using add unfolding addEvent_def m1_def[symmetric] Let_def
    by (auto simp: bindr_eq_Inr vec_at_eq_Inr myAssert_def has_def split: if_splits)
  show ?thesis
  proof (cases "ret = 0")
    case True
    obtain w where w: "waits w" and m': "pendingEventCnt m' = pendingEventCnt m1 + 1"
      "fdContexts m' = (fdContexts m1)[nat fd := put_ctx e w (?c\<lparr>events := events ?c OR e\<rparr>)]"
      using add_waiter_result[of t p g fd e cb ?c m1 r m'] a(4) True sch1 by auto
    note r = register_ctx[OF io_wf_ctx[OF wf1 a(1,2)] e a(3) w]
    show ?thesis
      by (rule io_wf_frame[OF io_wf_set_ctx[OF wf1 a(1,2) r(1), of 1]]) (use r(2) m' in \<open>simp_all add: set_ctx_def\<close>)
  qed (use a(4) wf1 in simp)
qed

lemma delEvent_wf:
  assumes wf: "io_wf m" and e: "e \<in> {READ, WRITE}" and del: "delEvent ret fd e m = Inr (b, m')"
  shows "io_wf m'"
proof (cases "b")
  case True
  let ?c = "fdContexts m ! nat fd"
  have fd: "0 \<le> fd" "fd < int (length (fdContexts m))" and h: "has e ?c"
    and m': "m' = set_ctx fd (clear e ?c) (m\<lparr>pendingEventCnt := pendingEventCnt m + - 1\<rparr>)"
    using True del by (auto simp: delEvent_def bindr_eq_Inr vec_at_eq_Inr has_def clear_def Let_def split: if_splits)
  show ?thesis
    unfolding m' by (rule io_wf_set_ctx[OF wf fd]) (use clear_ctx[OF io_wf_ctx[OF wf fd] e h] in simp_all)
next
  case False
  then have "m' = m" using del by (auto simp: delEvent_def bindr_eq_Inr Let_def split: if_splits)
  then show ?thesis using wf by simp
qed

lemma cancelEvent_wf:
  "io_wf m \<Longrightarrow> e \<in> {READ, WRITE} \<Longrightarrow> cancelEvent ret fd e m = Inr (b, m') \<Longrightarrow> io_wf m'"
  using trigger_at_wf by (auto simp: cancelEvent_def bindr_eq_Inr split: if_splits)

lemma cancelAll_wf:
  "io_wf m \<Longrightarrow> cancelAll ret fd m = Inr (b, m') \<Longrightarrow> io_wf m'"
  by (auto simp: cancelAll_def bindr_eq_Inr split: if_splits) (metis insertCI trigger_if_wf)+

lemma handle_events_wf: "io_wf m \<Longrightarrow> handle_events evs m = Inr m' \<Longrightarrow> io_wf m'"
proof (induction evs m rule: handle_events.induct)
  case (2 ret2 ev es m)
  obtain m1 where h: "handle_event ret2 ev m = Inr m1" "handle_events es m1 = Inr m'"
    using 2(3) by (auto simp: bindr_eq_Inr)
  have "io_wf m1"
  proof (cases ev)
    case Tickled
    then show ?thesis using h(1) 2(2) io_wf_frame[OF 2(2), of m1] by (auto simp: handle_event_def)
  next
    case (Ready fd bits)
    then show ?thesis
      using h(1) 2(2) unfolding handle_event_def Let_def
      by (auto simp: bindr_eq_Inr split: if_splits) (metis insertCI trigger_if_wf)+
  qed
  then show ?case using 2(1) h by blast
qed simp

lemma idle_round_wf:
  assumes wf: "io_wf m" and r: "idle_round now p evs m = Inr m'"
  shows "io_wf m'"
proof -
  obtain cbs tm where "handle_events evs (schedule_all cbs (m\<lparr>io_timers := tm\<rparr>)) = Inr m'"
    using r by (auto simp: idle_round_def Let_def split: prod.splits)
  moreover have "io_wf (schedule_all cbs (m\<lparr>io_timers := tm\<rparr>))" by (rule io_wf_frame[OF wf]) simp_all
  ultimately show ?thesis using handle_events_wf by blast
qed

section \<open>Runs of an event manager\<close>

text \<open>
  The operations in any order, with any results of the system calls; the scheduler and the timers
  may change in any way between them.
\<close>

inductive io_step :: "'c IOManager \<Rightarrow> 'c IOManager \<Rightarrow> bool" where
  add: "cur_scheduler (io_sched m) t \<Longrightarrow> e \<in> {READ, WRITE} \<Longrightarrow> addEvent t p g ret fd e cb m = Inr (r, m') \<Longrightarrow> io_step m m'"
| del: "e \<in> {READ, WRITE} \<Longrightarrow> delEvent ret fd e m = Inr (b, m') \<Longrightarrow> io_step m m'"
| cancel: "e \<in> {READ, WRITE} \<Longrightarrow> cancelEvent ret fd e m = Inr (b, m') \<Longrightarrow> io_step m m'"
| cancel_all: "cancelAll ret fd m = Inr (b, m') \<Longrightarrow> io_step m m'"
| round: "idle_round now p evs m = Inr m' \<Longrightarrow> io_step m m'"
| others: "io_step m (m\<lparr>io_sched := s, io_timers := tm, tickles := k\<rparr>)"

lemma io_wf_step:
  assumes wf: "io_wf m" and "io_step m m'"
  shows "io_wf m'"
  using assms(2)
proof cases
  case (add t e p g ret fd cb r)
  then show ?thesis using addEvent_wf[OF wf] by blast
next
  case (del e ret fd b)
  then show ?thesis using delEvent_wf[OF wf] by blast
next
  case (cancel e ret fd b)
  then show ?thesis using cancelEvent_wf[OF wf] by blast
next
  case (cancel_all ret fd b)
  then show ?thesis using cancelAll_wf[OF wf] by blast
next
  case (round now p evs)
  then show ?thesis using idle_round_wf[OF wf] by blast
next
  case (others s tm k)
  then show ?thesis using io_wf_frame[OF wf] by simp
qed

interpretation ioi: inductive_invariant "\<lambda>m. \<exists>rets ts ids s tm. new_IOManager rets ts ids s tm = Inr m" io_step io_wf
  by unfold_locales (blast intro: new_IOManager_wf io_wf_step)+

text \<open>
  A turn of the idle loop is a sequence of these steps, and it leaves the loop exactly if no timer is set, no
  event is registered and the scheduler has stopped. It always gets past \<open>epoll_wait\<close> once a call is not
  interrupted. (At time 0 a timer set to the largest number would look like no timer.)
\<close>

lemma epoll_loop_returns: "(\<exists>evs. epoll_loop outcomes nt = Inr evs) \<longleftrightarrow> (\<exists>x \<in> set outcomes. x \<noteq> Interrupted)"
  by (induction outcomes arbitrary: nt) (auto split: wait_outcome.splits)

lemma wait_ms_passed: "wait_ms nt = sint (ucast (next_wait nt) :: 32 word)"
proof -
  have "sint (ucast (word_of_int k :: 64 word) :: 32 word) = k" if "- (2 ^ 31) \<le> k" "k < 2 ^ 31" for k
  proof -
    have "(ucast (word_of_int k :: 64 word) :: 32 word) = word_of_int k"
      by (rule bit_word_eqI) (auto simp: bit_simps)
    then show ?thesis using that by (simp add: sint_sbintrunc' signed_take_bit_int_eq_self)
  qed
  moreover have "sint (ucast nt :: 32 word) \<ge> - (2 ^ 31)" using sint_range_size[of "ucast nt :: 32 word"] by (simp add: word_size)
  ultimately show ?thesis by (simp add: wait_ms_def next_wait_def)
qed

lemma io_stopping_iff:
  assumes "0 < now" and "io_stopping now m = (b, nt, m')"
  shows "b \<longleftrightarrow> \<not> hasTimer (io_timers m) \<and> pendingEventCnt m = 0 \<and> stopping (io_sched m)" and "io_step m m'"
proof -
  have "x - now = - 1 \<Longrightarrow> \<not> x \<le> now \<Longrightarrow> False" for x :: "64 word"
  proof -
    assume "x - now = - 1" "\<not> x \<le> now"
    then have "x = now - 1" by (simp add: algebra_simps)
    then show False using \<open>\<not> x \<le> now\<close> assms(1) word_sub_le[of 1 now] by (metis linorder_not_less word_less_1 less_irrefl)
  qed
  then show "b \<longleftrightarrow> \<not> hasTimer (io_timers m) \<and> pendingEventCnt m = 0 \<and> stopping (io_sched m)"
    using assms(2) by (auto simp: io_stopping_def getNextTimer_def hasTimer_def Let_def split: list.splits if_splits)
  have "m' = m\<lparr>io_sched := io_sched m, io_timers := snd (getNextTimer now (io_timers m)), tickles := tickles m\<rparr>"
    using assms(2) by (auto simp: io_stopping_def Let_def split: prod.splits)
  then show "io_step m m'" using io_step.others by metis
qed

theorem idle_pass_leaves_iff:
  assumes "0 < now" and "idle_pass now now' p outcomes m = Inr (left, m')"
  shows "(left \<longleftrightarrow> \<not> hasTimer (io_timers m) \<and> pendingEventCnt m = 0 \<and> stopping (io_sched m)) \<and> io_step\<^sup>*\<^sup>* m m'"
proof -
  obtain b nt m1 where st: "io_stopping now m = (b, nt, m1)" by (metis prod_cases3)
  note s = io_stopping_iff[OF assms(1) st]
  show ?thesis
  proof (cases b)
    case True
    then show ?thesis using assms(2) st s by (auto simp: idle_pass_def)
  next
    case False
    then obtain evs where "\<not> left" "idle_round now' p evs m1 = Inr m'" using assms(2) st by (auto simp: idle_pass_def bindr_eq_Inr)
    then show ?thesis using s False io_step.round by (meson converse_rtranclp_into_rtranclp r_into_rtranclp)
  qed
qed

section \<open>Delivery\<close>

lemma trigger_if_simps [simp]: "trigger_if True fd e = trigger_at fd e" "trigger_if False fd e = Inr"
  by (simp_all add: fun_eq_iff trigger_if_def)

lemma bindr_unit [simp]: "bindr x Inr = x"
  by (cases x) simp_all

lemma trigger_at_fails:
  "0 \<le> fd \<Longrightarrow> fd < int (length (fdContexts m)) \<Longrightarrow> \<not> has e (fdContexts m ! nat fd) \<Longrightarrow> trigger_at fd e m = Inl AssertFail"
  by (simp add: trigger_at_def triggerEvent_def has_def)

lemma trigger_both:
  assumes wf: "io_wf m" and fd: "0 \<le> fd" "fd < int (length (fdContexts m))"
  shows "bindr (trigger_at fd READ m) (trigger_at fd WRITE) = Inl AssertFail \<longleftrightarrow>
    \<not> has READ (fdContexts m ! nat fd) \<or> \<not> has WRITE (fdContexts m ! nat fd)"
proof (cases "has READ (fdContexts m ! nat fd)")
  case True
  let ?c = "fdContexts m ! nat fd"
  have ne: "WRITE \<noteq> READ" by (simp add: event_defs)
  obtain m1 where m1: "trigger_at fd READ m = Inr m1" "io_wf m1" "fdContexts m1 = (fdContexts m)[nat fd := clear READ ?c]"
    by (rule trigger_at_spec[OF wf fd _ True]) simp_all
  have fd1: "fd < int (length (fdContexts m1))" using fd m1(3) by simp
  have w: "has WRITE (fdContexts m1 ! nat fd) = has WRITE ?c"
    using clear_ctx(4)[OF io_wf_ctx[OF wf fd] _ True, of WRITE] ne fd m1(3) by simp
  show ?thesis
  proof (cases "has WRITE ?c")
    case True
    obtain m2 where "trigger_at fd WRITE m1 = Inr m2" by (rule trigger_at_spec[OF m1(2) fd(1) fd1, of WRITE]) (simp_all add: w True)
    then show ?thesis using m1(1) True \<open>has READ ?c\<close> by simp
  qed (use m1(1) trigger_at_fails[OF fd(1) fd1] w in simp)
qed (use trigger_at_fails[OF fd] in simp)

lemma trigger_one:
  assumes wf: "io_wf m" and fd: "0 \<le> fd" "fd < int (length (fdContexts m))" and e: "e \<in> {READ, WRITE}"
  shows "trigger_at fd e m = Inl AssertFail \<longleftrightarrow> \<not> has e (fdContexts m ! nat fd)"
proof (cases "has e (fdContexts m ! nat fd)")
  case True
  obtain m1 where "trigger_at fd e m = Inr m1" by (rule trigger_at_spec[OF wf fd e True])
  then show ?thesis using True by simp
qed (use trigger_at_fails[OF fd] in simp)

lemma cancelEvent_spec:
  assumes "io_wf m" and "0 \<le> fd" and "fd < int (length (fdContexts m))" and "e \<in> {READ, WRITE}"
  shows "if events (fdContexts m ! nat fd) AND e \<noteq> 0 \<and> ret = 0
    then \<exists>m'. cancelEvent ret fd e m = Inr (True, m') \<and> io_wf m' \<and> pendingEventCnt m' = pendingEventCnt m - 1 \<and>
           tasks (io_sched m') = tasks (io_sched m) @ [waiter_task (waiter e (fdContexts m ! nat fd))] \<and>
           cancelEvent ret fd e m' = Inr (False, m')
    else cancelEvent ret fd e m = Inr (False, m)"
proof (cases "has e (fdContexts m ! nat fd) \<and> ret = 0")
  case True
  let ?c = "fdContexts m ! nat fd"
  have h: "has e ?c" using True by simp
  obtain m' where m': "trigger_at fd e m = Inr m'" "io_wf m'" "fdContexts m' = (fdContexts m)[nat fd := clear e ?c]"
    "io_sched m' = snd (schedulerNoLock (waiter_task (waiter e ?c)) (io_sched m))"
    by (rule trigger_at_spec[OF assms h])
  note cl = clear_ctx[OF io_wf_ctx[OF assms(1-3)] assms(4) h]
  have "waits (waiter e ?c)" using io_wf_ctx[OF assms(1-3)] assms(4) h by (auto simp: ctx_wf_def)
  then have t: "tasks (io_sched m') = tasks (io_sched m) @ [waiter_task (waiter e ?c)]"
    by (auto simp: m'(4) schedulerNoLock_def waiter_task_def waits_def)
  have p: "pendingEventCnt m' = pendingEventCnt m - 1"
    using assms(1-3) m'(2) cl(2) unfolding io_wf_def by (simp add: m'(3) sum_list_upd)
  have "fdContexts m' ! nat fd = clear e ?c" "fd < int (length (fdContexts m'))" using assms(2,3) m'(3) by simp_all
  then show ?thesis using True m'(1,2) t p cl(3) assms(2,3) by (simp add: cancelEvent_def has_def)
qed (use assms in \<open>auto simp: cancelEvent_def has_def\<close>)

lemma addEvent_fiber:
  assumes wf: "io_wf m" and sch: "cur_scheduler (io_sched m) t" and f: "cur_fiber (fib (io_sched m)) t = Some f"
      "state_of (fib (io_sched m)) f = Some RUNNING"
    and fd: "0 \<le> fd" and e: "e \<in> {READ, WRITE}" and free: "fd < int (length (fdContexts m)) \<longrightarrow> \<not> has e (fdContexts m ! nat fd)"
  obtains m' where "addEvent t p g 0 fd e None m = Inr (0, m')" "io_wf m'" "io_sched m' = io_sched m" "io_timers m' = io_timers m"
    "fd < int (length (fdContexts m'))" "has e (fdContexts m' ! nat fd)"
    "waiter e (fdContexts m' ! nat fd) = \<lparr>ec_scheduler = True, ec_fiber = Some f, ec_cb = None\<rparr>"
proof -
  define m1 where "m1 = (if int (length (fdContexts m)) > fd then m else contextResize (nat (fd * 3 div 2)) m)"
  have m1: "io_wf m1" "io_sched m1 = io_sched m" "io_timers m1 = io_timers m" "fd < int (length (fdContexts m1))"
      "\<not> has e (fdContexts m1 ! nat fd)"
  proof -
    have big: "length (fdContexts m) \<le> nat (fd * 3 div 2)" "nat fd < nat (fd * 3 div 2)" if "\<not> int (length (fdContexts m)) > fd"
      using that wf fd by (auto simp: io_wf_def)
    show "io_wf m1" using wf big contextResize_wf(1)[OF wf] by (simp add: m1_def)
    show "io_sched m1 = io_sched m" "io_timers m1 = io_timers m" by (simp_all add: m1_def contextResize_def)
    show "fd < int (length (fdContexts m1))" using big contextResize_wf(2)[OF wf] by (auto simp: m1_def)
    show "\<not> has e (fdContexts m1 ! nat fd)"
      using big fd free
      by (auto simp: m1_def contextResize_def nth_append new_FdContext_def has_def NONE_def not_less nat_le_iff)
  qed
  let ?c = "fdContexts m1 ! nat fd" and ?w = "\<lparr>ec_scheduler = True, ec_fiber = Some f, ec_cb = None :: 'a option\<rparr>"
  let ?c1 = "put_ctx e ?w (?c\<lparr>events := events ?c OR e\<rparr>)"
  let ?m' = "set_ctx fd ?c1 (m1\<lparr>pendingEventCnt := pendingEventCnt m1 + 1\<rparr>)"
  have cw: "ctx_wf ?c" by (rule io_wf_ctx[OF m1(1) fd m1(4)])
  then have nw: "waiter e ?c = no_waiter" using m1(5) e by (auto simp: ctx_wf_def)
  have g: "getEveContext e (?c\<lparr>events := x\<rparr>) = Inr no_waiter" for x
    using e nw by (auto simp: getEveContext_def waiter_def event_defs split: if_splits)
  obtain fo where fo: "fiber_at (fib (io_sched m1)) f = Some fo" "f_state fo = RUNNING"
    using f(2) m1(2) by (auto simp: state_of_def)
  have here: "cur_scheduler (io_sched m1) t" "cur_fiber (fib (io_sched m1)) t = Some f" using sch f(1) m1(2) by simp_all
  have a: "addEvent t p g 0 fd e None m = Inr (0, ?m')"
    unfolding addEvent_def m1_def[symmetric] Let_def
    using m1(4,5) fd here fo g
    by (simp add: has_def add_waiter_def Let_def fiber_GetThis_def read_fiber_def no_waiter_def)
  have w: "waits ?w" by (simp add: waits_def)
  note r = register_ctx[OF cw e m1(5) w]
  have wf': "io_wf ?m'" by (rule io_wf_set_ctx[OF m1(1) fd m1(4) r(1)]) (simp add: r(2))
  have "waiter e ?c1 = ?w" using e by (auto simp: waiter_def put_ctx_def event_defs)
  moreover have "has e ?c1" using cw e by (auto simp: ctx_wf_def has_def put_ctx_def event_defs)
  ultimately show thesis using that[OF a wf'] m1 fd by (simp add: set_ctx_def)
qed

section \<open>An example\<close>

definition demo_io :: "nat IOManager" where
  "demo_io = projr (new_IOManager [0, 0, 0] [7] [7]
     (demo_sched\<lparr>cur_scheduler := (\<lambda>t. t = 7)\<rparr>) (new_TimerManager 0))"

definition demo_io1 :: "nat IOManager" where
  "demo_io1 = snd (projr (addEvent 7 21 False 0 3 WRITE (Some 5) demo_io))"

lemma demo_io_new:
  "new_IOManager [0, 0, 0] [7] [7] (demo_sched\<lparr>cur_scheduler := (\<lambda>t. t = 7)\<rparr>) (new_TimerManager 0) = Inr demo_io"
  by (simp add: demo_io_def new_IOManager_def start_def contextResize_def demo_sched_def new_Scheduler_def Let_def)

lemma demo_io_simps:
  "length (fdContexts demo_io) = 32" "fdContexts demo_io ! 3 = new_FdContext 3" "cur_scheduler (io_sched demo_io) 7"
  "tasks (io_sched demo_io) = []" "pendingEventCnt demo_io = 0"
  by (simp_all add: demo_io_def new_IOManager_def start_def contextResize_def demo_sched_def new_Scheduler_def Let_def)

lemma demo_io1_add: "addEvent 7 21 False 0 3 WRITE (Some 5) demo_io = Inr (0, demo_io1)"
  using demo_io_simps
  by (simp add: demo_io1_def addEvent_def add_waiter_def new_FdContext_def getEveContext_def no_waiter_def event_defs)

lemma demo_io1_run: "io_step\<^sup>*\<^sup>* demo_io demo_io1"
  using add[OF demo_io_simps(3) _ demo_io1_add] by (intro r_into_rtranclp) simp

lemma demo_io1_ctx:
  "length (fdContexts demo_io1) = 32" "waiter WRITE (fdContexts demo_io1 ! 3) = \<lparr>ec_scheduler = True, ec_fiber = None, ec_cb = Some 5\<rparr>"
  "events (fdContexts demo_io1 ! 3) = WRITE" "tasks (io_sched demo_io1) = []" "pendingEventCnt demo_io1 = 1"
  using demo_io_simps
  by (simp_all add: demo_io1_def addEvent_def add_waiter_def new_FdContext_def getEveContext_def no_waiter_def event_defs
      set_ctx_def put_ctx_def waiter_def)

lemma demo_io1_wf: "io_wf demo_io1"
  using ioi.holds_reachable demo_io_new demo_io1_run by blast

section \<open>Properties\<close>



text \<open>
  \<open>cancelEvent\<close> on every branch: on a registered event it schedules exactly the function or
  fiber that waits for it, behind the tasks already there, removes the registration and lowers the
  pending count, so that a second call finds nothing; otherwise it returns false and changes nothing.
\<close>

theorem cancelEvent_wakes_waiter:
  assumes "io_wf m" and "0 \<le> fd" and "fd < int (length (fdContexts m))" and "e \<in> {READ, WRITE}"
  shows "if events (fdContexts m ! nat fd) AND e \<noteq> 0 \<and> ret = 0
    then \<exists>m'. cancelEvent ret fd e m = Inr (True, m') \<and> io_wf m' \<and> pendingEventCnt m' = pendingEventCnt m - 1 \<and>
           tasks (io_sched m') = tasks (io_sched m) @ [waiter_task (waiter e (fdContexts m ! nat fd))] \<and>
           cancelEvent ret fd e m' = Inr (False, m')
    else cancelEvent ret fd e m = Inr (False, m)"
  by (rule cancelEvent_spec[OF assms])

theorem cancelEvent_wakes_waiter_witness:
  "\<exists>m'. cancelEvent 0 3 WRITE demo_io1 = Inr (True, m') \<and>
     tasks (io_sched m') = [\<lparr>task_fiber = None, task_cb = Some 5, task_thread = - 1\<rparr>]"
  using cancelEvent_wakes_waiter[OF demo_io1_wf, of 3 WRITE 0] demo_io1_ctx
  by (auto simp: event_defs waiter_task_def)



end
