(* ===== verification/HookIo.thy ===== *)
theory HookIo
  imports Hook IOManager
begin

unbundle bit_operations_syntax

text \<open>
  The waiting system calls interposed by the fiber library: the rest of src/src/fiber/hook.cpp.
  \<open>do_io\<close> is behind every call that reads or writes, \<open>connect_with_timeout\<close> behind \<open>connect\<close>; a call that
  would block registers the running fiber with the event manager, starts a timer for its
  time-out, and yields. \<open>sleep\<close> and its relatives start a timer that schedules the fiber again.

  Each function is split where it yields. What the real system calls return, and what happens to
  the shared state while a fiber waits, are arguments. \<open>hook_fn\<close> are the functions this file hands to
  the timers; \<open>tinfo\<close> holds the \<open>timer_info\<close> objects that are alive, with their field \<open>cnacelled\<close>.
\<close>

section \<open>State\<close>

datatype hook_fn = WakeFiber fptr | CancelIo nat int "32 word" | UserFn nat

record 'k hook_state =
  hs :: "'k hooks"
  iom :: "hook_fn callback IOManager"
  t_errno :: int
  tinfo :: "nat \<Rightarrow> int option"

definition EINTR :: int where "EINTR = 4"

definition EBADF :: int where "EBADF = 9"

definition EAGAIN :: int where "EAGAIN = 11"

definition ETIMEDOUT :: int where "ETIMEDOUT = 110"

definition EINPROGRESS :: int where "EINPROGRESS = 115"

text \<open>The result of a real call: a value, or -1 with \<open>errno\<close> set.\<close>

datatype io_result = Ret int | Fail int

definition returns :: "io_result \<Rightarrow> 'k hook_state \<Rightarrow> int \<times> 'k hook_state" where
  "returns r s = (case r of Ret n \<Rightarrow> (n, s) | Fail e \<Rightarrow> (- 1, s\<lparr>t_errno := e\<rparr>))"

section \<open>Callbacks\<close>

text \<open>The functions given to the timers, when they run; \<open>ret\<close> is the result of \<open>epoll_ctl\<close>.\<close>

definition run_hook_fn :: "int \<Rightarrow> hook_fn \<Rightarrow> 'k hook_state \<Rightarrow> 'k hook_state res" where
  "run_hook_fn ret f s =
     (case f of
        WakeFiber p \<Rightarrow> Inr (s\<lparr>iom := io_scheduler \<lparr>task_fiber = Some p, task_cb = None, task_thread = - 1\<rparr> (iom s)\<rparr>)
      | CancelIo ti fd event \<Rightarrow>
          (case tinfo s ti of
             None \<Rightarrow> Inr s
           | Some cnacelled \<Rightarrow>
               if cnacelled \<noteq> 0 then Inr s
               else
                 let s1 = s\<lparr>tinfo := (tinfo s)(ti \<mapsto> ETIMEDOUT)\<rparr> in
                 bindr (cancelEvent ret fd event (iom s1)) (\<lambda>(_, m). Inr (s1\<lparr>iom := m\<rparr>)))
      | UserFn n \<Rightarrow> Inr s)"

definition run_timer_cb :: "int \<Rightarrow> hook_fn callback \<Rightarrow> 'k hook_state \<Rightarrow> 'k hook_state res" where
  "run_timer_cb ret cb s =
     bindr (run_callback (\<lambda>ti. tinfo s ti \<noteq> None) cb) (\<lambda>r.
     case r of None \<Rightarrow> Inr s | Some f \<Rightarrow> run_hook_fn ret f s)"

section \<open>Reading and writing\<close>

datatype io_plan = Direct | Refuse | Managed "64 word"

text \<open>
  The tests at the start of \<open>do_io\<close>: call the real function and return, refuse with \<open>EBADF\<close>, or handle
  the call here, with the time-out of the descriptor.
\<close>

definition do_io_begin :: "'k sys \<Rightarrow> int \<Rightarrow> int \<Rightarrow> 'k hooks \<Rightarrow> (io_plan \<times> 'k hooks) res" where
  "do_io_begin S fd timeout_so h =
     (if \<not> t_hook_enable h then Inr (Direct, h)
      else bindr (mgr_get S fd False h) (\<lambda>(ctx, h1).
        case ctx of
          None \<Rightarrow> Inr (Direct, h1)
        | Some c \<Rightarrow>
            if m_isClosed c then Inr (Refuse, h1)
            else if \<not> m_isSocket c \<or> m_userNonblock c then Inr (Direct, h1)
            else Inr (Managed (getTimeout timeout_so c), h1)))"

text \<open>The loop over interrupted calls; \<open>None\<close> if no call has returned otherwise yet.\<close>

fun skip_eintr :: "io_result list \<Rightarrow> io_result option" where
  "skip_eintr [] = None"
| "skip_eintr (r # rs) = (if r = Fail EINTR then skip_eintr rs else Some r)"

text \<open>
  The part from a call that would block to the \<open>yield\<close>: the flag is false if \<open>addEvent\<close> failed and the
  function returns -1. The arguments are the thread, fresh addresses for a main fiber and a
  timer, the clock and the result of \<open>epoll_ctl\<close>.
\<close>

record io_env =
  e_fiber :: fptr
  e_garbage :: bool
  e_timer :: tptr
  e_now :: "64 word"
  e_ret :: int

definition start_timer :: "io_env \<Rightarrow> 64 word \<Rightarrow> hook_fn \<Rightarrow> nat \<Rightarrow> 'k hook_state \<Rightarrow> 'k hook_state" where
  "start_timer env ms f ti s =
     (let (at_front, tm) = addConditionTimer (e_now env) (e_timer env) ms (Some f) ti False (io_timers (iom s));
          m = (iom s)\<lparr>io_timers := tm\<rparr> in
      s\<lparr>iom := if at_front then OnTimerInsertedAtFront m else m\<rparr>)"

definition stop_timer :: "tptr option \<Rightarrow> 'k hook_state \<Rightarrow> 'k hook_state res" where
  "stop_timer timer s =
     (case timer of
        None \<Rightarrow> Inr s
      | Some p \<Rightarrow> bindr (Timer.cancel p (io_timers (iom s))) (\<lambda>(_, tm). Inr (s\<lparr>iom := (iom s)\<lparr>io_timers := tm\<rparr>\<rparr>)))"

definition io_block ::
  "int \<Rightarrow> io_env \<Rightarrow> int \<Rightarrow> 32 word \<Rightarrow> 64 word \<Rightarrow> nat \<Rightarrow> 'k hook_state \<Rightarrow> (bool \<times> tptr option \<times> 'k hook_state) res" where
  "io_block t env fd event to ti s =
     (if \<not> cur_scheduler (io_sched (iom s)) t then Inl NullDeref
      else
        let timer = (if to \<noteq> - 1 then Some (e_timer env) else None);
            s1 = (if to \<noteq> - 1 then start_timer env to (CancelIo ti fd event) ti s else s) in
        bindr (addEvent t (e_fiber env) (e_garbage env) (e_ret env) fd event None (iom s1)) (\<lambda>(rt, m).
        let s2 = s1\<lparr>iom := m\<rparr> in
        if rt \<noteq> 0 then bindr (stop_timer timer s2) (\<lambda>s3. Inr (False, timer, s3))
        else Inr (True, timer, s2)))"

text \<open>When the fiber runs again: \<open>Some\<close> is the value returned, \<open>None\<close> means that the call is tried again.\<close>

definition io_resume :: "tptr option \<Rightarrow> nat \<Rightarrow> 'k hook_state \<Rightarrow> (int option \<times> 'k hook_state) res" where
  "io_resume timer ti s =
     bindr (stop_timer timer s) (\<lambda>s1.
     case tinfo s1 ti of
       None \<Rightarrow> Inl NullDeref
     | Some cnacelled \<Rightarrow>
         if cnacelled \<noteq> 0 then Inr (Some (- 1), s1\<lparr>t_errno := cnacelled\<rparr>) else Inr (None, s1))"

text \<open>
  The loop of \<open>do_io\<close>. A round holds the results of the real calls and the change of the shared
  state until the fiber runs again. \<open>None\<close> means that the call has not returned in these rounds.
\<close>

record 'k io_round =
  r_calls :: "io_result list"
  r_env :: io_env
  r_wait :: "'k hook_state \<Rightarrow> 'k hook_state"

fun do_io_loop ::
  "int \<Rightarrow> int \<Rightarrow> 32 word \<Rightarrow> 64 word \<Rightarrow> nat \<Rightarrow> 'k io_round list \<Rightarrow> 'k hook_state \<Rightarrow> (int \<times> 'k hook_state) res option" where
  "do_io_loop t fd event to ti [] s = None"
| "do_io_loop t fd event to ti (rd # rds) s =
     (case skip_eintr (r_calls rd) of
        None \<Rightarrow> None
      | Some r \<Rightarrow>
          let (n, s1) = returns r s in
          if r \<noteq> Fail EAGAIN then Some (Inr (n, s1))
          else
            (case io_block t (r_env rd) fd event to ti s1 of
               Inl e \<Rightarrow> Some (Inl e)
             | Inr (blocked, timer, s2) \<Rightarrow>
                 if \<not> blocked then Some (Inr (- 1, s2))
                 else
                   (case io_resume timer ti (r_wait rd s2) of
                      Inl e \<Rightarrow> Some (Inl e)
                    | Inr (Some v, s3) \<Rightarrow> Some (Inr (v, s3))
                    | Inr (None, s3) \<Rightarrow> do_io_loop t fd event to ti rds s3)))"

text \<open>The whole function; \<open>ti\<close> is the address of its \<open>timer_info\<close>, which is gone when it returns.\<close>

definition do_io ::
  "'k sys \<Rightarrow> int \<Rightarrow> int \<Rightarrow> 32 word \<Rightarrow> int \<Rightarrow> nat \<Rightarrow> 'k io_round list \<Rightarrow> 'k hook_state \<Rightarrow> (int \<times> 'k hook_state) res option" where
  "do_io S t fd event timeout_so ti rds s =
     (case do_io_begin S fd timeout_so (hs s) of
        Inl e \<Rightarrow> Some (Inl e)
      | Inr (plan, h1) \<Rightarrow>
          let s1 = s\<lparr>hs := h1\<rparr> in
          (case plan of
             Direct \<Rightarrow> (case rds of rd # _ \<Rightarrow> (case r_calls rd of r # _ \<Rightarrow> Some (Inr (returns r s1)) | [] \<Rightarrow> None) | [] \<Rightarrow> None)
           | Refuse \<Rightarrow> Some (Inr (- 1, s1\<lparr>t_errno := EBADF\<rparr>))
           | Managed to \<Rightarrow>
               map_option (\<lambda>r. bindr r (\<lambda>(n, s2). Inr (n, s2\<lparr>tinfo := (tinfo s2)(ti := None)\<rparr>)))
                 (do_io_loop t fd event to ti rds (s1\<lparr>tinfo := (tinfo s1)(ti \<mapsto> 0)\<rparr>))))"

text \<open>The calls that go through \<open>do_io\<close>, with the event they wait for and the option of their time-out.\<close>

datatype io_fun = Accept | Read | Readv | Recv | Recvfrom | Recvmsg | Write | Writev | Send | Sendto | Sendmsg

fun io_event :: "io_fun \<Rightarrow> 32 word" where
  "io_event Accept = READ"
| "io_event Read = READ"
| "io_event Readv = READ"
| "io_event Recv = READ"
| "io_event Recvfrom = READ"
| "io_event Recvmsg = READ"
| "io_event _ = WRITE"

fun io_timeout_so :: "io_fun \<Rightarrow> int" where
  "io_timeout_so Accept = SO_RCVTIMEO"
| "io_timeout_so Read = SO_RCVTIMEO"
| "io_timeout_so Readv = SO_RCVTIMEO"
| "io_timeout_so Recv = SO_RCVTIMEO"
| "io_timeout_so Recvfrom = SO_RCVTIMEO"
| "io_timeout_so Recvmsg = SO_RCVTIMEO"
| "io_timeout_so _ = SO_SNDTIMEO"

definition hook_io ::
  "io_fun \<Rightarrow> 'k sys \<Rightarrow> int \<Rightarrow> int \<Rightarrow> nat \<Rightarrow> 'k io_round list \<Rightarrow> 'k hook_state \<Rightarrow> (int \<times> 'k hook_state) res option" where
  "hook_io f S t fd ti rds s =
     (case do_io S t fd (io_event f) (io_timeout_so f) ti rds s of
        Some (Inr (n, s1)) \<Rightarrow>
          if f = Accept \<and> n \<ge> 0
          then Some (bindr (mgr_get S n True (hs s1)) (\<lambda>(_, h). Inr (n, s1\<lparr>hs := h\<rparr>)))
          else Some (Inr (n, s1))
      | r \<Rightarrow> r)"

section \<open>Connecting\<close>

definition s_connect_timeout :: "64 word" where
  "s_connect_timeout = 5000"

definition connect_begin :: "'k sys \<Rightarrow> int \<Rightarrow> 64 word \<Rightarrow> 'k hooks \<Rightarrow> (io_plan \<times> 'k hooks) res" where
  "connect_begin S fd timeout_ms h =
     (if \<not> t_hook_enable h then Inr (Direct, h)
      else bindr (mgr_get S fd False h) (\<lambda>(ctx, h1).
        case ctx of
          None \<Rightarrow> Inr (Refuse, h1)
        | Some c \<Rightarrow>
            if m_isClosed c then Inr (Refuse, h1)
            else if \<not> m_isSocket c then Inr (Direct, h1)
            else if m_userNonblock c then Inr (Direct, h1)
            else Inr (Managed timeout_ms, h1)))"

text \<open>The end of the function: \<open>so\<close> is the result of \<open>getsockopt(SO_ERROR)\<close>, a value being the pending error.\<close>

definition connect_finish :: "io_result \<Rightarrow> 'k hook_state \<Rightarrow> int \<times> 'k hook_state" where
  "connect_finish so s =
     (case so of
        Fail e \<Rightarrow> (- 1, s\<lparr>t_errno := e\<rparr>)
      | Ret err \<Rightarrow> if err = 0 then (0, s) else (- 1, s\<lparr>t_errno := err\<rparr>))"

definition connect_wait ::
  "int \<Rightarrow> io_env \<Rightarrow> int \<Rightarrow> 64 word \<Rightarrow> nat \<Rightarrow> ('k hook_state \<Rightarrow> 'k hook_state) \<Rightarrow> io_result \<Rightarrow> 'k hook_state \<Rightarrow>
     (int \<times> 'k hook_state) res" where
  "connect_wait t env fd timeout_ms ti wait so s =
     bindr (io_block t env fd WRITE timeout_ms ti s) (\<lambda>(blocked, timer, s1).
     if \<not> blocked then Inr (connect_finish so s1)
     else
       bindr (io_resume timer ti (wait s1)) (\<lambda>(v, s2).
       case v of Some n \<Rightarrow> Inr (n, s2) | None \<Rightarrow> Inr (connect_finish so s2)))"

definition connect_with_timeout ::
  "'k sys \<Rightarrow> int \<Rightarrow> io_env \<Rightarrow> int \<Rightarrow> 64 word \<Rightarrow> nat \<Rightarrow> io_result \<Rightarrow> ('k hook_state \<Rightarrow> 'k hook_state) \<Rightarrow> io_result \<Rightarrow>
     'k hook_state \<Rightarrow> (int \<times> 'k hook_state) res" where
  "connect_with_timeout S t env fd timeout_ms ti connect_f wait so s =
     bindr (connect_begin S fd timeout_ms (hs s)) (\<lambda>(plan, h1).
     let s1 = s\<lparr>hs := h1\<rparr> in
     case plan of
       Direct \<Rightarrow> Inr (returns connect_f s1)
     | Refuse \<Rightarrow> Inr (- 1, s1\<lparr>t_errno := EBADF\<rparr>)
     | Managed to \<Rightarrow>
         let (n, s2) = returns connect_f s1 in
         if connect_f \<noteq> Fail EINPROGRESS then Inr (n, s2)
         else
           bindr (connect_wait t env fd to ti wait so (s2\<lparr>tinfo := (tinfo s2)(ti \<mapsto> 0)\<rparr>)) (\<lambda>(r, s3).
           Inr (r, s3\<lparr>tinfo := (tinfo s3)(ti := None)\<rparr>)))"

definition hook_connect ::
  "'k sys \<Rightarrow> int \<Rightarrow> io_env \<Rightarrow> int \<Rightarrow> nat \<Rightarrow> io_result \<Rightarrow> ('k hook_state \<Rightarrow> 'k hook_state) \<Rightarrow> io_result \<Rightarrow> 'k hook_state \<Rightarrow>
     (int \<times> 'k hook_state) res" where
  "hook_connect S t env fd = connect_with_timeout S t env fd s_connect_timeout"

section \<open>Sleeping\<close>

text \<open>
  The time given to the timer. \<open>sleep\<close> multiplies 32-bit numbers, \<open>nanosleep\<close> stores its result in an
  \<open>int\<close>.
\<close>

definition sleep_ms :: "32 word \<Rightarrow> 64 word" where
  "sleep_ms seconds = ucast (seconds * 1000)"

definition usleep_ms :: "32 word \<Rightarrow> 64 word" where
  "usleep_ms usec = ucast (usec div 1000)"

definition nanosleep_ms :: "int \<Rightarrow> int \<Rightarrow> 64 word" where
  "nanosleep_ms tv_sec tv_nsec =
     scast (word_of_int (tv_sec * 1000 + sgn tv_nsec * (\<bar>tv_nsec\<bar> div 1000 div 1000)) :: 32 word)"

text \<open>The part of a sleep before its \<open>yield\<close>; when the fiber runs again it returns 0.\<close>

definition sleep_begin :: "int \<Rightarrow> io_env \<Rightarrow> 64 word \<Rightarrow> 'k hook_state \<Rightarrow> 'k hook_state res" where
  "sleep_begin t env ms s =
     bindr (fiber_GetThis t (e_fiber env) (e_garbage env) (fib (io_sched (iom s)))) (\<lambda>(f, fb).
     let m = (iom s)\<lparr>io_sched := (io_sched (iom s))\<lparr>fib := fb\<rparr>\<rparr> in
     if \<not> cur_scheduler (io_sched m) t then Inl NullDeref
     else Inr (s\<lparr>iom := io_addTimer (e_now env) (e_timer env) ms (Some (Callback (WakeFiber f))) False m\<rparr>))"

text \<open>
  The three functions. \<open>real\<close> is what the original returns if the calls are not interposed, \<open>wait\<close>
  the change of the shared state until the fiber runs again. \<open>usleep\<close> does not pass on the result of
  the original.
\<close>

datatype sleep_call = Sleep "32 word" | Usleep "32 word" | Nanosleep int int

fun sleep_time :: "sleep_call \<Rightarrow> 64 word" where
  "sleep_time (Sleep seconds) = sleep_ms seconds"
| "sleep_time (Usleep usec) = usleep_ms usec"
| "sleep_time (Nanosleep tv_sec tv_nsec) = nanosleep_ms tv_sec tv_nsec"

definition hook_sleep ::
  "int \<Rightarrow> io_env \<Rightarrow> sleep_call \<Rightarrow> io_result \<Rightarrow> ('k hook_state \<Rightarrow> 'k hook_state) \<Rightarrow> 'k hook_state \<Rightarrow> (int \<times> 'k hook_state) res" where
  "hook_sleep t env call real wait s =
     (if \<not> t_hook_enable (hs s)
      then
        let (n, s1) = returns real s in
        Inr (case call of Usleep usec \<Rightarrow> 0 | _ \<Rightarrow> n, s1)
      else bindr (sleep_begin t env (sleep_time call) s) (\<lambda>s1. Inr (0, wait s1)))"

section \<open>Closing and control\<close>

text \<open>\<open>ret\<close> is the result of \<open>epoll_ctl\<close>, \<open>close_f\<close> the real call.\<close>

definition hook_close ::
  "'k sys \<Rightarrow> int \<Rightarrow> int \<Rightarrow> ('k \<Rightarrow> int \<times> 'k) \<Rightarrow> int \<Rightarrow> 'k hook_state \<Rightarrow> (int \<times> 'k hook_state) res" where
  "hook_close S t ret close_f fd s =
     (let real = (\<lambda>s. let (r, k) = close_f (kernel (hs s)) in (r, s\<lparr>hs := (hs s)\<lparr>kernel := k\<rparr>\<rparr>)) in
      if \<not> t_hook_enable (hs s) then Inr (real s)
      else
        bindr (mgr_get S fd False (hs s)) (\<lambda>(ctx, h1).
        let s1 = s\<lparr>hs := h1\<rparr> in
        if ctx = None then Inr (real s1)
        else
          bindr (if cur_scheduler (io_sched (iom s1)) t
                 then bindr (cancelAll ret fd (iom s1)) (\<lambda>(_, m). Inr (s1\<lparr>iom := m\<rparr>)) else Inr s1) (\<lambda>s2.
          bindr (fd_del fd (fd_mgr (hs s2))) (\<lambda>mgr.
          Inr (real (s2\<lparr>hs := (hs s2)\<lparr>fd_mgr := mgr\<rparr>\<rparr>))))))"

text \<open>\<open>fcntl\<close>: all commands but two are passed on with their argument.\<close>

datatype fcntl_cmd = F_SETFL "32 word" | F_GETFL | F_other

definition hook_fcntl :: "'k sys \<Rightarrow> ('k \<Rightarrow> int \<times> 'k) \<Rightarrow> int \<Rightarrow> fcntl_cmd \<Rightarrow> 'k hooks \<Rightarrow> (int \<times> 'k hooks) res" where
  "hook_fcntl S fcntl_f fd cmd h =
     (case cmd of
        F_SETFL arg \<Rightarrow> hook_fcntl_setfl S fd arg h
      | F_GETFL \<Rightarrow> bindr (hook_fcntl_getfl S fd h) (\<lambda>(arg, h1). Inr (sint arg, h1))
      | F_other \<Rightarrow> let (r, k) = fcntl_f (kernel h) in Inr (r, h\<lparr>kernel := k\<rparr>))"

section \<open>Lemmas\<close>

text \<open>A thread that can wait: it runs a fiber under the scheduler, and the tables are well formed.\<close>

definition can_wait :: "int \<Rightarrow> fptr \<Rightarrow> 'k hook_state \<Rightarrow> bool" where
  "can_wait t f s \<longleftrightarrow> io_wf (iom s) \<and> tm_wf (io_timers (iom s)) \<and> cur_scheduler (io_sched (iom s)) t \<and>
     cur_fiber (fib (io_sched (iom s))) t = Some f \<and> state_of (fib (io_sched (iom s))) f = Some RUNNING"

lemma io_tickle_fields [simp]:
  "fdContexts (io_tickle m) = fdContexts m" "pendingEventCnt (io_tickle m) = pendingEventCnt m"
  "io_timers (io_tickle m) = io_timers m" "io_sched (io_tickle m) = io_sched m"
  by (simp_all add: io_tickle_def)

lemma start_timer_fields [simp]:
  "fdContexts (iom (start_timer env ms f ti s)) = fdContexts (iom s)"
  "pendingEventCnt (iom (start_timer env ms f ti s)) = pendingEventCnt (iom s)"
  "io_sched (iom (start_timer env ms f ti s)) = io_sched (iom s)"
  "io_timers (iom (start_timer env ms f ti s)) =
     snd (addTimer (e_now env) (e_timer env) ms (Some (BoundOnTimer ti (Some f))) False (io_timers (iom s)))"
  "tinfo (start_timer env ms f ti s) = tinfo s" "hs (start_timer env ms f ti s) = hs s"
  by (auto simp: start_timer_def addConditionTimer_def OnTimerInsertedAtFront_def Let_def split: prod.split)

lemma addTimer_effect:
  assumes "p \<notin> set (timers m)" "addTimer now p ms cb rec m = (b, m')"
  shows "timer_at m' = (timer_at m)(p := new_Timer now ms cb rec)" "set (timers m') = insert p (set (timers m))"
  using assms by (auto simp: addTimer_def addTimer_locked_def Let_def tset.set_set_insert)

lemma stop_timer_spec:
  assumes "tm_wf (io_timers (iom s))"
  obtains tm where "stop_timer timer s = Inr (s\<lparr>iom := (iom s)\<lparr>io_timers := tm\<rparr>\<rparr>)" "tm_wf tm"
    "\<And>p. timer = Some p \<Longrightarrow> t_cb (timer_at tm p) = None"
    "\<And>p. timer = Some p \<Longrightarrow> t_cb (timer_at (io_timers (iom s)) p) \<noteq> None \<Longrightarrow> p \<notin> set (timers tm)"
proof (cases timer)
  case None
  then show ?thesis using that[of "io_timers (iom s)"] assms by (simp add: stop_timer_def)
next
  case (Some p)
  define tm where "tm = snd (projr (Timer.cancel p (io_timers (iom s))))"
  note c = cancel_spec[OF assms, of p]
  have eq: "Timer.cancel p (io_timers (iom s)) = Inr (t_cb (timer_at (io_timers (iom s)) p) \<noteq> None, tm)"
    by (simp add: tm_def c)
  have "t_cb (timer_at tm p) = None" "t_cb (timer_at (io_timers (iom s)) p) \<noteq> None \<Longrightarrow> p \<notin> set (timers tm)"
    using tm_wfD(2)[OF assms] by (auto simp: tm_def c)
  then show ?thesis
    using that[of tm] eq tm_wf_cancel[OF assms eq] Some by (simp add: stop_timer_def)
qed

lemma io_block_waits:
  assumes cw: "can_wait t f s" and p: "e_timer env \<notin> set (timers (io_timers (iom s)))" and fd: "0 \<le> fd" and e: "e \<in> {READ, WRITE}"
    and free: "fd < int (length (fdContexts (iom s))) \<longrightarrow> \<not> has e (fdContexts (iom s) ! nat fd)" and ret: "e_ret env = 0"
  obtains s2 where "io_block t env fd e to ti s = Inr (True, if to \<noteq> - 1 then Some (e_timer env) else None, s2)"
    "can_wait t f s2" "tinfo s2 = tinfo s" "tasks (io_sched (iom s2)) = tasks (io_sched (iom s))"
    "fd < int (length (fdContexts (iom s2)))" "has e (fdContexts (iom s2) ! nat fd)"
    "waiter e (fdContexts (iom s2) ! nat fd) = \<lparr>ec_scheduler = True, ec_fiber = Some f, ec_cb = None\<rparr>"
    "to \<noteq> - 1 \<longrightarrow> e_timer env \<in> set (timers (io_timers (iom s2))) \<and>
       timer_at (io_timers (iom s2)) (e_timer env) = new_Timer (e_now env) to (Some (BoundOnTimer ti (Some (CancelIo ti fd e)))) False"
proof -
  define s1 where "s1 = (if to \<noteq> - 1 then start_timer env to (CancelIo ti fd e) ti s else s)"
  have f1: "fdContexts (iom s1) = fdContexts (iom s)" "pendingEventCnt (iom s1) = pendingEventCnt (iom s)"
    "io_sched (iom s1) = io_sched (iom s)" "tinfo s1 = tinfo s" by (simp_all add: s1_def)
  have tm1: "tm_wf (io_timers (iom s1))" using cw p tm_wf_addTimer by (auto simp: s1_def can_wait_def)
  have wf1: "io_wf (iom s1)" using cw io_wf_frame[of "iom s" "iom s1"] f1 by (simp add: can_wait_def)
  have here: "cur_scheduler (io_sched (iom s1)) t" "cur_fiber (fib (io_sched (iom s1))) t = Some f"
    "state_of (fib (io_sched (iom s1))) f = Some RUNNING" using cw f1 by (simp_all add: can_wait_def)
  have free1: "fd < int (length (fdContexts (iom s1))) \<longrightarrow> \<not> has e (fdContexts (iom s1) ! nat fd)" using free f1 by simp
  obtain m where m: "addEvent t (e_fiber env) (e_garbage env) 0 fd e None (iom s1) = Inr (0, m)" "io_wf m"
    "io_sched m = io_sched (iom s1)" "io_timers m = io_timers (iom s1)" "fd < int (length (fdContexts m))" "has e (fdContexts m ! nat fd)"
    "waiter e (fdContexts m ! nat fd) = \<lparr>ec_scheduler = True, ec_fiber = Some f, ec_cb = None\<rparr>"
    by (rule addEvent_fiber[OF wf1 here fd e free1])
  have b: "io_block t env fd e to ti s = Inr (True, if to \<noteq> - 1 then Some (e_timer env) else None, s1\<lparr>iom := m\<rparr>)"
    using cw m(1) ret by (simp add: io_block_def s1_def[symmetric] can_wait_def Let_def)
  have tmr: "e_timer env \<in> set (timers (io_timers (iom s1))) \<and>
       timer_at (io_timers (iom s1)) (e_timer env) = new_Timer (e_now env) to (Some (BoundOnTimer ti (Some (CancelIo ti fd e)))) False"
    if "to \<noteq> - 1"
    using that addTimer_effect[OF p surjective_pairing] by (simp add: s1_def)
  show thesis
    using that[OF b] m tm1 here f1 tmr by (simp add: can_wait_def)
qed

text \<open>\<open>connect\<close> reports success only if the kernel does, at once or in the pending error of the socket.\<close>

lemma io_resume_value: "io_resume timer ti s = Inr (Some v, s') \<Longrightarrow> v = - 1"
  by (auto simp: io_resume_def bindr_eq_Inr split: option.splits if_splits)

lemma connect_wait_zero:
  assumes "connect_wait t env fd ms ti wait so s = Inr (0, s')"
  shows "so = Ret 0"
proof -
  have fin: "so = Ret 0" if "connect_finish so s1 = (0, s2)" for s1 s2
    using that by (auto simp: connect_finish_def split: io_result.splits if_splits)
  obtain b timer s1 where "if \<not> b then Inr (connect_finish so s1) = (Inr (0, s') :: (int \<times> _) res)
      else \<exists>v s2. io_resume timer ti (wait s1) = Inr (v, s2) \<and> (case v of Some n \<Rightarrow> Inr (n, s2) | None \<Rightarrow> Inr (connect_finish so s2)) = (Inr (0, s') :: (int \<times> _) res)"
    using assms by (fastforce simp: connect_wait_def bindr_eq_Inr split: if_splits)
  then show ?thesis using fin io_resume_value by (fastforce split: if_splits option.splits)
qed

lemma connect_zero:
  assumes "connect_with_timeout S t env fd timeout_ms ti connect_f wait so s = Inr (0, s')"
  shows "connect_f = Ret 0 \<or> connect_f = Fail EINPROGRESS \<and> so = Ret 0"
proof -
  obtain plan h1 where c: "(case plan of
       Direct \<Rightarrow> Inr (returns connect_f (s\<lparr>hs := h1\<rparr>))
     | Refuse \<Rightarrow> Inr (- 1, s\<lparr>hs := h1, t_errno := EBADF\<rparr>)
     | Managed to \<Rightarrow>
         let (n, s2) = returns connect_f (s\<lparr>hs := h1\<rparr>) in
         if connect_f \<noteq> Fail EINPROGRESS then Inr (n, s2)
         else
           bindr (connect_wait t env fd to ti wait so (s2\<lparr>tinfo := (tinfo s2)(ti \<mapsto> 0)\<rparr>)) (\<lambda>(r, s3).
           Inr (r, s3\<lparr>tinfo := (tinfo s3)(ti := None)\<rparr>))) = Inr (0, s')"
    using assms by (fastforce simp: connect_with_timeout_def bindr_eq_Inr Let_def)
  show ?thesis
  proof (cases plan)
    case (Managed to)
    then show ?thesis
      using c by (auto simp: returns_def bindr_eq_Inr split: io_result.splits if_splits dest: connect_wait_zero)
  qed (use c in \<open>auto simp: returns_def split: io_result.splits\<close>)
qed

text \<open>On a descriptor whose context is marked closed every reading or writing call fails without a call of the kernel.\<close>

lemma hook_io_closed:
  assumes "t_hook_enable (hs s)" and "mgr_get S fd False (hs s) = Inr (Some c, h1)" and "m_isClosed c"
  shows "hook_io f S t fd ti rds s = Some (Inr (- 1, s\<lparr>hs := h1, t_errno := EBADF\<rparr>))"
  using assms by (simp add: hook_io_def do_io_def do_io_begin_def)

lemma waiter_task_fiber [simp]:
  "waiter_task \<lparr>ec_scheduler = b, ec_fiber = Some f, ec_cb = None\<rparr> = \<lparr>task_fiber = Some f, task_cb = None, task_thread = - 1\<rparr>"
  by (simp add: waiter_task_def)

lemma tasks_schedule_all:
  "tasks (io_sched (schedule_all cbs m)) =
     tasks (io_sched m) @ map (\<lambda>cb. \<lparr>task_fiber = None, task_cb = cb, task_thread = - 1\<rparr>) (filter (\<lambda>cb. cb \<noteq> None) cbs)"
  by (induction cbs arbitrary: m) (auto simp: schedulerNoLock_def)

lemma unat_ucast_32_64: "unat (ucast (w :: 32 word) :: 64 word) = unat w"
  by transfer (simp add: take_bit_eq_mod)

lemma unat_sleep_ms: "unat (sleep_ms seconds) = 1000 * unat seconds mod 2 ^ 32"
  by (simp add: sleep_ms_def unat_ucast_32_64 unat_word_ariths mult.commute)

lemma usleep_ms_exact: "unat (usleep_ms usec) = unat usec div 1000"
  by (simp add: usleep_ms_def unat_ucast_32_64 unat_div)

text \<open>Beyond 4294967 seconds \<open>sleep\<close> is too short.\<close>

lemma sleep_too_short: "2 ^ 32 \<le> 1000 * unat seconds \<Longrightarrow> unat (sleep_ms seconds) < 1000 * unat seconds"
  unfolding unat_sleep_ms by (rule less_le_trans[OF mod_less_divisor]) simp_all

text \<open>An interposed sleep never reports an error, and \<open>usleep\<close> does not either when it is passed on.\<close>

lemma hook_sleep_result:
  "hook_sleep t env call real wait s = Inr (n, s') \<Longrightarrow> t_hook_enable (hs s) \<or> (\<exists>usec. call = Usleep usec) \<Longrightarrow> n = 0"
  by (auto simp: hook_sleep_def bindr_eq_Inr split: if_splits prod.splits)

lemma uint_scast_int:
  assumes "0 \<le> x" and "x < 2 ^ 31"
  shows "uint (scast (word_of_int x :: 32 word) :: 64 word) = x"
proof -
  have "sint (word_of_int x :: 32 word) = x" using assms by (simp add: signed_of_int signed_take_bit_int_eq_self)
  then show ?thesis using assms by (simp add: scast_eq uint_word_of_int)
qed

text \<open>\<open>nanosleep\<close> rounds down to milliseconds as long as these fit in an \<open>int\<close>.\<close>

lemma nanosleep_ms_exact:
  assumes "0 \<le> tv_sec" and "0 \<le> tv_nsec" and "tv_sec * 1000 + tv_nsec div 1000000 < 2 ^ 31"
  shows "uint (nanosleep_ms tv_sec tv_nsec) = tv_sec * 1000 + tv_nsec div 1000000"
proof -
  let ?x = "tv_sec * 1000 + tv_nsec div 1000000"
  have ms: "tv_sec * 1000 + sgn tv_nsec * (\<bar>tv_nsec\<bar> div 1000 div 1000) = ?x"
    using assms(2) by (cases "tv_nsec = 0") (simp_all add: div_mult2_eq[symmetric] zdiv_zmult2_eq[symmetric])
  have "0 \<le> ?x" using assms(1,2) by (simp add: pos_imp_zdiv_nonneg_iff)
  from uint_scast_int[OF this assms(3)] show ?thesis unfolding nanosleep_ms_def ms .
qed

text \<open>From 2147484 seconds on the number is negative as an \<open>int\<close> and becomes a very large time.\<close>

lemma nanosleep_too_long: "uint (nanosleep_ms 2147484 0) = 18446744071562068320"
  by (simp add: nanosleep_ms_def)

text \<open>A blocked call of fiber \<open>f\<close>: it is registered for the event, its time-out is running and has not fired.\<close>

definition awaits :: "fptr \<Rightarrow> int \<Rightarrow> 32 word \<Rightarrow> tptr \<Rightarrow> nat \<Rightarrow> 'k hook_state \<Rightarrow> bool" where
  "awaits f fd e p ti s \<longleftrightarrow> io_wf (iom s) \<and> tm_wf (io_timers (iom s)) \<and> tinfo s ti = Some 0 \<and> 0 \<le> fd \<and> e \<in> {READ, WRITE} \<and>
     fd < int (length (fdContexts (iom s))) \<and> has e (fdContexts (iom s) ! nat fd) \<and>
     waiter e (fdContexts (iom s) ! nat fd) = \<lparr>ec_scheduler = True, ec_fiber = Some f, ec_cb = None\<rparr> \<and>
     t_cb (timer_at (io_timers (iom s)) p) \<noteq> None"

lemma awaitsD:
  assumes "awaits f fd e p ti s"
  shows "io_wf (iom s)" "tm_wf (io_timers (iom s))" "tinfo s ti = Some 0" "0 \<le> fd" "e \<in> {READ, WRITE}"
    "fd < int (length (fdContexts (iom s)))" "has e (fdContexts (iom s) ! nat fd)"
    "waiter e (fdContexts (iom s) ! nat fd) = \<lparr>ec_scheduler = True, ec_fiber = Some f, ec_cb = None\<rparr>"
    "t_cb (timer_at (io_timers (iom s)) p) \<noteq> None"
  using assms by (simp_all add: awaits_def)

lemma awaits_event:
  assumes "awaits f fd e p ti s"
  shows "\<exists>m s'. trigger_at fd e (iom s) = Inr m \<and>
    tasks (io_sched m) = tasks (io_sched (iom s)) @ [\<lparr>task_fiber = Some f, task_cb = None, task_thread = - 1\<rparr>] \<and>
    io_resume (Some p) ti (s\<lparr>iom := m\<rparr>) = Inr (None, s') \<and> p \<notin> set (timers (io_timers (iom s')))"
proof -
  note a = awaitsD[OF assms]
  obtain m where m: "trigger_at fd e (iom s) = Inr m" "io_timers m = io_timers (iom s)"
    "io_sched m = snd (schedulerNoLock (waiter_task (waiter e (fdContexts (iom s) ! nat fd))) (io_sched (iom s)))"
    by (rule trigger_at_spec[OF a(1,4,6,5,7)])
  have "tm_wf (io_timers (iom (s\<lparr>iom := m\<rparr>)))" using a(2) m(2) by simp
  then obtain tm where "stop_timer (Some p) (s\<lparr>iom := m\<rparr>) = Inr (s\<lparr>iom := m\<lparr>io_timers := tm\<rparr>\<rparr>)" "p \<notin> set (timers tm)"
    using stop_timer_spec[of "s\<lparr>iom := m\<rparr>" "Some p"] a(9) m(2) by force
  then show ?thesis using m a(3,8) by (simp add: io_resume_def schedulerNoLock_def)
qed

lemma awaits_timeout:
  assumes "awaits f fd e p ti s" and tm: "tm_wf tm"
  shows "\<exists>s' s''. run_timer_cb 0 (BoundOnTimer ti (Some (CancelIo ti fd e))) (s\<lparr>iom := (iom s)\<lparr>io_timers := tm\<rparr>\<rparr>) = Inr s' \<and>
    tasks (io_sched (iom s')) = tasks (io_sched (iom s)) @ [\<lparr>task_fiber = Some f, task_cb = None, task_thread = - 1\<rparr>] \<and>
    io_resume (Some p) ti s' = Inr (Some (- 1), s'') \<and> t_errno s'' = ETIMEDOUT"
proof -
  note a = awaitsD[OF assms(1)]
  let ?m = "(iom s)\<lparr>io_timers := tm\<rparr>"
  have wf: "io_wf ?m" using io_wf_frame[OF a(1)] by simp
  obtain m where m: "trigger_at fd e ?m = Inr m" "io_timers m = tm"
    "io_sched m = snd (schedulerNoLock (waiter_task (waiter e (fdContexts (iom s) ! nat fd))) (io_sched (iom s)))"
    using trigger_at_spec[OF wf a(4) _ a(5)] a(6,7) by auto
  have c: "cancelEvent 0 fd e ?m = Inr (True, m)" using m(1) a(4,6,7) by (simp add: cancelEvent_def has_def)
  let ?s = "s\<lparr>iom := m, tinfo := (tinfo s)(ti \<mapsto> ETIMEDOUT)\<rparr>"
  have r: "run_timer_cb 0 (BoundOnTimer ti (Some (CancelIo ti fd e))) (s\<lparr>iom := ?m\<rparr>) = Inr ?s"
    using c a(3) by (simp add: run_timer_cb_def run_callback_def OnTimer_def run_hook_fn_def Let_def)
  obtain tm' where "stop_timer (Some p) ?s = Inr (?s\<lparr>iom := m\<lparr>io_timers := tm'\<rparr>\<rparr>)"
    using stop_timer_spec[of ?s "Some p"] m(2) tm by auto
  then show ?thesis using r m(3) a(8) by (simp add: io_resume_def schedulerNoLock_def ETIMEDOUT_def)
qed

section \<open>An example\<close>

definition demo_fibers :: "hook_fn callback fibers" where
  "demo_fibers = new_fibers\<lparr>fiber_at := [13 \<mapsto> \<lparr>f_id = 0, f_stackSize = 0, f_state = RUNNING, f_stack = True, f_cb = None,
     isRunInScheduler = True\<rparr>], cur_fiber := [7 \<mapsto> 13]\<rparr>"

definition demo_iom :: "hook_fn callback IOManager" where
  "demo_iom = projr (new_IOManager [0] [7] [7]
     ((projr (new_Scheduler 1 False ''demo'' (Callback (UserFn 0)) 1 0 0 False (\<lambda>_. False) demo_fibers))
        \<lparr>cur_scheduler := (\<lambda>t. t = 7)\<rparr>) (new_TimerManager 50))"

definition demo_hs :: "(int \<Rightarrow> 32 word) hook_state" where
  "demo_hs = \<lparr>hs = demo_hooks, iom = demo_iom, t_errno = 0, tinfo = [4 \<mapsto> 0]\<rparr>"

definition demo_env :: io_env where
  "demo_env = \<lparr>e_fiber = 30, e_garbage = False, e_timer = 40, e_now = 100, e_ret = 0\<rparr>"

lemma demo_iom_simps:
  "fdContexts demo_iom = map (\<lambda>i. new_FdContext (int i)) [0..<32]" "pendingEventCnt demo_iom = 0"
  "io_timers demo_iom = new_TimerManager 50" "cur_scheduler (io_sched demo_iom) 7" "fib (io_sched demo_iom) = demo_fibers"
  "tasks (io_sched demo_iom) = []"
  by (simp_all add: demo_iom_def new_IOManager_def start_def contextResize_def new_Scheduler_def Let_def)

lemma demo_can_wait: "can_wait 7 13 demo_hs"
  by (simp add: can_wait_def demo_hs_def demo_iom_simps io_wf_def new_FdContext_wf tm_wf_new comp_def sum_list_0
      demo_fibers_def state_of_def)

lemma demo_hs_simps:
  "timers (io_timers (iom demo_hs)) = []" "e_timer demo_env = 40" "e_ret demo_env = 0" "e_now demo_env = 100"
  "previouseTime (io_timers (iom demo_hs)) = 50" "length (fdContexts (iom demo_hs)) = 32" "\<not> has READ (fdContexts (iom demo_hs) ! 3)"
  "tinfo demo_hs 4 = Some 0" "tasks (io_sched (iom demo_hs)) = []"
  by (simp_all add: demo_hs_def demo_env_def demo_iom_simps new_TimerManager_def new_FdContext_def has_def NONE_def)

section \<open>Properties\<close>





end
