(* ===== verification/Diagnostics.thy ===== *)
theory Diagnostics
  imports RpcConfig
begin

text \<open>
  The helpers of src/src/fiber/include/utils.hpp: the clock of the timers and what the failed checks of the
  fiber library print.

  \<open>clock_gettime\<close>, \<open>backtrace_symbols\<close> and \<open>__cxa_demangle\<close> are arguments. The program prints a back trace by
  scanning each symbol line with \<open>sscanf\<close> into a buffer of 256 characters; a scan is the part of the line it
  stores, or \<open>None\<close> if it does not get that far.
\<close>

section \<open>The clock\<close>

definition GetElapsedMS :: "int \<Rightarrow> int \<Rightarrow> 64 word" where
  "GetElapsedMS tv_sec tv_nsec = word_of_int (tv_sec * 1000 + tv_nsec div 1000000)"

section \<open>Back traces\<close>

abbreviation NUL :: char where "NUL \<equiv> CHR 0x00"

text \<open>A C string ends at the first zero byte.\<close>

definition c_string :: "string \<Rightarrow> string" where
  "c_string s = takeWhile (\<lambda>c. c \<noteq> NUL) s"

text \<open>The format \<open>%*[^(]%*[^_]%255[^)+]\<close>; each of its three parts has to match at least one character.\<close>

definition scan_symbol :: "string \<Rightarrow> string option" where
  "scan_symbol str =
     (let s1 = dropWhile (\<lambda>c. c \<noteq> CHR ''('') str; s2 = dropWhile (\<lambda>c. c \<noteq> CHR ''_'') s1;
          t = takeWhile (\<lambda>c. c \<noteq> CHR '')'' \<and> c \<noteq> CHR ''+'') (take 255 s2) in
      if takeWhile (\<lambda>c. c \<noteq> CHR ''('') str = [] \<or> takeWhile (\<lambda>c. c \<noteq> CHR ''_'') s1 = [] \<or> t = [] then None
      else Some t)"

text \<open>The format \<open>%255s\<close>.\<close>

definition scan_word :: "string \<Rightarrow> string option" where
  "scan_word str =
     (let t = takeWhile (\<lambda>c. \<not> is_space c) (take 255 (dropWhile is_space str)) in if t = [] then None else Some t)"

text \<open>What \<open>sscanf\<close> writes into the buffer.\<close>

definition store :: "string \<Rightarrow> string \<Rightarrow> string" where
  "store t rt = t @ [NUL] @ drop (length t + 1) rt"

definition demangle :: "(string \<Rightarrow> string option) \<Rightarrow> string \<Rightarrow> string" where
  "demangle cxa_demangle str =
     (let rt = replicate 256 NUL;
          (v, rt1) = (case scan_symbol str of
             None \<Rightarrow> (None, rt)
           | Some t \<Rightarrow> (cxa_demangle (c_string (store t rt)), store t rt)) in
      case v of
        Some result \<Rightarrow> result
      | None \<Rightarrow> (case scan_word str of Some w \<Rightarrow> store w rt1 | None \<Rightarrow> str))"

text \<open>\<open>symbols n\<close> is the result of \<open>backtrace\<close> and \<open>backtrace_symbols\<close> for at most \<open>n\<close> frames.\<close>

definition Backtrace ::
  "(string \<Rightarrow> string option) \<Rightarrow> (nat \<Rightarrow> string list option) \<Rightarrow> nat \<Rightarrow> nat \<Rightarrow> string list \<Rightarrow> string list" where
  "Backtrace cxa_demangle symbols frames skip bt =
     (case symbols frames of
        None \<Rightarrow> bt
      | Some strings \<Rightarrow> bt @ map (demangle cxa_demangle) (drop skip strings))"

definition BacktraceToString ::
  "(string \<Rightarrow> string option) \<Rightarrow> (nat \<Rightarrow> string list option) \<Rightarrow> nat \<Rightarrow> nat \<Rightarrow> string \<Rightarrow> string" where
  "BacktraceToString cxa_demangle symbols frames skip prefix =
     (let bt = Backtrace cxa_demangle symbols frames skip [] in concat (map (\<lambda>b. prefix @ b @ [newline]) bt))"

text \<open>
  A failed check of the fiber library: what it prints, and the end of the process by \<open>assert\<close>, which the
  build configuration leaves on. \<open>file\<close> and \<open>line\<close> are those of the definition in utils.hpp. The other
  theories write \<open>myAssert\<close> for it, whose effect on the program is the same.
\<close>

definition CondPanic ::
  "(string \<Rightarrow> string option) \<Rightarrow> (nat \<Rightarrow> string list option) \<Rightarrow> string \<Rightarrow> int \<Rightarrow> bool \<Rightarrow> string \<Rightarrow> string \<times> unit res" where
  "CondPanic cxa_demangle symbols file line condition err =
     (if \<not> condition
      then (''[assert by] ('' @ file @ '':'' @ to_string line @ ''),err: '' @ err @ [newline] @
            ''[backtrace]'' @ [newline] @ BacktraceToString cxa_demangle symbols 6 3 [] @ [newline],
            Inl AssertFail)
      else ([], Inr ()))"

section \<open>Lemmas\<close>

lemma CondPanic_asserts: "snd (CondPanic cxa symbols file line condition err) = myAssert condition"
  by (simp add: CondPanic_def)

text \<open>The clock does not run backwards: a later reading is not a smaller number.\<close>

lemma GetElapsedMS_mono:
  assumes "0 \<le> s" "0 \<le> n" "n < 1000000000" "0 \<le> n'" and "s < s' \<or> s = s' \<and> n \<le> n'" and "s' * 1000 + n' div 1000000 < 2 ^ 64"
  shows "GetElapsedMS s n \<le> GetElapsedMS s' n'"
proof -
  have "n div 1000000 \<le> 999" "0 \<le> n div 1000000" "0 \<le> n' div 1000000" using assms(2-4) zdiv_mono1[of n 999999999 1000000]
    by (simp_all add: pos_imp_zdiv_nonneg_iff)
  moreover have "s = s' \<Longrightarrow> n div 1000000 \<le> n' div 1000000" using assms(5) by (auto intro: zdiv_mono1)
  ultimately have "s * 1000 + n div 1000000 \<le> s' * 1000 + n' div 1000000" "0 \<le> s * 1000 + n div 1000000"
    using assms(1,5) by auto
  then show ?thesis using assms(6) unfolding GetElapsedMS_def word_le_def uint_word_of_int
    by (simp add: mod_pos_pos_trivial)
qed

lemma takeWhile_append_stop: "list_all P s \<Longrightarrow> \<not> P c \<Longrightarrow> takeWhile P (s @ c # r) = s"
  by (induction s) auto

lemma dropWhile_append_stop: "list_all P s \<Longrightarrow> \<not> P c \<Longrightarrow> dropWhile P (s @ c # r) = c # r"
  by (induction s) auto

lemmas while_stop = takeWhile_append_stop dropWhile_append_stop

lemma c_string_store: "NUL \<notin> set x \<Longrightarrow> c_string (store x rt) = x"
  unfolding c_string_def store_def append_Cons append_Nil by (rule takeWhile_append_stop) (auto simp: list_all_iff)

text \<open>The usual line of a back trace: the symbol between the parenthesis and the offset is demangled.\<close>

lemma demangle_symbol:
  assumes "file \<noteq> []" "CHR ''('' \<notin> set file" and "CHR '')'' \<notin> set nm" "CHR ''+'' \<notin> set nm" "NUL \<notin> set nm" "length nm < 254"
    and "cxa (CHR ''_'' # nm) = Some v"
  shows "demangle cxa (file @ ''(_'' @ nm @ ''+'' @ rest) = v"
proof -
  let ?str = "file @ CHR ''('' # CHR ''_'' # nm @ CHR ''+'' # rest"
  have f: "list_all (\<lambda>c. c \<noteq> CHR ''('') file" using assms(2) by (auto simp: list_all_iff)
  have s: "list_all (\<lambda>c. c \<noteq> CHR '')'' \<and> c \<noteq> CHR ''+'') (CHR ''_'' # nm)" using assms(3,4) by (auto simp: list_all_iff)
  have "take 255 (CHR ''_'' # nm @ CHR ''+'' # rest) = (CHR ''_'' # nm) @ CHR ''+'' # take (253 - length nm) rest"
    using assms(6) by (simp add: take_Cons' numeral_eq_Suc)
  then have "scan_symbol ?str = Some (CHR ''_'' # nm)"
    using while_stop[OF f] while_stop(1)[OF s] assms(1) by (simp add: scan_symbol_def)
  moreover have "c_string (store (CHR ''_'' # nm) rt) = CHR ''_'' # nm" for rt
    using c_string_store[of "CHR ''_'' # nm"] assms(5) by auto
  ultimately show ?thesis using assms(7) by (simp add: demangle_def)
qed

text \<open>
  A line without a symbol comes back as its first word in a string of 256 characters, the rest of which are
  zero bytes or leftovers of the first scan: the caller gets the whole buffer and not the C string in it.
\<close>

lemma demangle_fallback:
  assumes "scan_word str = Some w" and "scan_symbol str = None \<or> (\<exists>t. scan_symbol str = Some t \<and> cxa (c_string t) = None)"
    and "NUL \<notin> set str"
  shows "length (demangle cxa str) = 256 \<and> c_string (demangle cxa str) = w"
proof -
  have w: "length w \<le> 255" "NUL \<notin> set w"
    using assms(1,3) by (auto simp: scan_word_def Let_def split: if_splits dest!: set_takeWhileD in_set_takeD set_dropWhileD
        intro: order_trans[OF length_takeWhile_le])
  have t: "length t \<le> 255 \<and> NUL \<notin> set t" if "scan_symbol str = Some t" for t
    using that assms(3) by (auto simp: scan_symbol_def Let_def split: if_splits dest!: set_takeWhileD in_set_takeD set_dropWhileD
        intro: order_trans[OF length_takeWhile_le])
  note c = c_string_store
  have cc: "c_string x = x" if "NUL \<notin> set x" for x
    using that by (auto simp: c_string_def takeWhile_eq_all_conv)
  have l: "length (store x rt) = 256" if "length x \<le> 255" "length rt = 256" for x rt using that by (simp add: store_def)
  show ?thesis
  proof (cases "scan_symbol str")
    case None
    then show ?thesis using assms(1) c[OF w(2)] l[OF w(1)] by (simp add: demangle_def)
  next
    case (Some t)
    then have "cxa t = None" "length t \<le> 255" "NUL \<notin> set t" using assms(2) t[OF Some] cc by auto
    then show ?thesis using Some assms(1) c w l by (simp add: demangle_def)
  qed
qed

end
