(* ===== verification/EchoServer.thy ===== *)
theory EchoServer
  imports HookIo Diagnostics
begin

text \<open>
  The example server src/example/fiberExample/server.cpp: an echo server on the event manager.

  Its callbacks are the values of a datatype, so that the event manager of the theory \<open>IOManager\<close> can hold them;
  \<open>test_accept\<close> and \<open>watch_io_read\<close> are functions on it. The loop of a connection runs
  on the results of \<open>recv\<close> and \<open>send\<close>, which are arguments; \<open>errno\<close> is kept as a variable, since the
  loop reads it after calls that do not set it.
\<close>

section \<open>Accepting connections\<close>

datatype callback = Test_accept | Watch_io_read | Client int

text \<open>
  \<open>t\<close>, \<open>p\<close>, \<open>garbage\<close> and \<open>ret\<close> are the arguments of \<open>addEvent\<close> for the calling thread and the result of \<open>epoll_ctl\<close>.
\<close>

definition watch_io_read ::
  "int \<Rightarrow> fptr \<Rightarrow> bool \<Rightarrow> int \<Rightarrow> int \<Rightarrow> callback IOManager \<Rightarrow> callback IOManager res" where
  "watch_io_read t p garbage ret listen_sock m =
     bindr (addEvent t p garbage ret listen_sock READ (Some Test_accept) m) (\<lambda>(_, m1). Inr m1)"

text \<open>\<open>fd\<close> is the result of \<open>accept\<close>.\<close>

definition test_accept :: "int \<Rightarrow> fptr \<Rightarrow> bool \<Rightarrow> int \<Rightarrow> int \<Rightarrow> callback IOManager \<Rightarrow> callback IOManager res" where
  "test_accept t p garbage ret fd m =
     bindr (if fd < 0 then Inr m
            else bindr (addEvent t p garbage ret fd READ (Some (Client fd)) m) (\<lambda>(_, m1). Inr m1)) (\<lambda>m2.
     Inr (io_scheduler \<lparr>task_fiber = None, task_cb = Some Watch_io_read, task_thread = - 1\<rparr> m2))"

section \<open>One connection\<close>

datatype recv_ret = Got string | Closed | RecvFail int

datatype send_ret = SentBytes nat | SendFail int

record conn =
  buffer :: string
  errno :: int
  said :: "string list"
  echoed :: "string list"

definition new_conn :: "int \<Rightarrow> conn" where
  "new_conn e = \<lparr>buffer = replicate 1024 NUL, errno = e, said = [], echoed = []\<rparr>"

text \<open>
  The loop; the result is \<open>None\<close> as long as it goes on, and the state in which it closes the
  connection. What is printed is the buffer up to the first zero byte, which may be left over from a longer message.
\<close>

fun client_loop :: "(recv_ret \<times> send_ret) list \<Rightarrow> conn \<Rightarrow> conn option" where
  "client_loop [] c = None"
| "client_loop ((r, w) # io) c =
     (let (ret, c1) =
        (case r of
           Got s \<Rightarrow>
             let buf = s @ drop (length s) (buffer c);
                 c0 = c\<lparr>buffer := buf, said := said c @ [c_string buf]\<rparr>
             in (case w of
                   SentBytes n \<Rightarrow> (int n, c0\<lparr>echoed := echoed c0 @ [take n s]\<rparr>)
                 | SendFail e \<Rightarrow> (-1, c0\<lparr>errno := e\<rparr>))
         | Closed \<Rightarrow> (0, c)
         | RecvFail e \<Rightarrow> (-1, c\<lparr>errno := e\<rparr>)) in
      if ret \<le> 0 then if errno c1 = EAGAIN then client_loop io c1 else Some c1
      else client_loop io c1)"

section \<open>Properties\<close>

text \<open>
  Accepting a connection is a sequence of operations of the event manager, so its invariant is kept.
\<close>

lemma test_accept_steps:
  assumes "cur_scheduler (io_sched m) t" and "test_accept t p garbage ret fd m = Inr m'"
  shows "io_step\<^sup>*\<^sup>* m m'"
proof -
  have sch: "io_step x (io_scheduler task x)" for task and x :: "callback IOManager"
  proof -
    have "io_scheduler task x = x\<lparr>io_sched := io_sched (io_scheduler task x), io_timers := io_timers x,
        tickles := tickles (io_scheduler task x)\<rparr>"
      by (cases x) (simp add: io_scheduler_def io_tickle_def Let_def split: prod.split)
    then show ?thesis using io_step.others by metis
  qed
  obtain m2 where m2: "m' = io_scheduler \<lparr>task_fiber = None, task_cb = Some Watch_io_read, task_thread = - 1\<rparr> m2"
    "m2 = m \<or> (\<exists>b. addEvent t p garbage ret fd READ (Some (Client fd)) m = Inr (b, m2))"
    using assms(2) by (auto simp: test_accept_def bindr_eq_Inr split: if_splits)
  then have "io_step\<^sup>*\<^sup>* m m2" using io_step.add[of m t READ, OF assms(1)] by auto
  then show ?thesis using m2(1) sch by (metis rtranclp.rtrancl_into_rtrancl)
qed

lemma test_accept_wf: "io_wf m \<Longrightarrow> cur_scheduler (io_sched m) t \<Longrightarrow> test_accept t p garbage ret fd m = Inr m' \<Longrightarrow> io_wf m'"
proof -
  assume "io_wf m" "cur_scheduler (io_sched m) t" "test_accept t p garbage ret fd m = Inr m'"
  then have "io_step\<^sup>*\<^sup>* m m'" "io_wf m" using test_accept_steps by blast+
  then show "io_wf m'" by (induction rule: rtranclp_induct) (auto intro: io_wf_step)
qed

text \<open>
  While every send succeeds in full the server answers with exactly the bytes it received, and the loop goes on.
\<close>

lemma client_echoes:
  assumes "\<forall>s \<in> set msgs. s \<noteq> []"
  shows "client_loop (map (\<lambda>s. (Got s, SentBytes (length s))) msgs @ io) c =
    client_loop io (fold (\<lambda>s c. let buf = s @ drop (length s) (buffer c) in
      c\<lparr>buffer := buf, said := said c @ [c_string buf], echoed := echoed c @ [s]\<rparr>) msgs c)"
  using assms by (induction msgs arbitrary: c) (auto simp: Let_def)

text \<open>
  The end of a connection is noticed only through a stale \<open>errno\<close>: \<open>recv\<close> returns 0 without setting it. If
  an earlier call left \<open>EAGAIN\<close> there, the loop spins for ever and never closes the descriptor; otherwise it
  closes at once.
\<close>

theorem closed_connection_spins:
  "errno c = EAGAIN \<Longrightarrow> client_loop (replicate n (Closed, w)) c = None"
  "errno c \<noteq> EAGAIN \<Longrightarrow> client_loop ((Closed, w) # io) c = Some c"
  by (induction n) auto

end
