(* ===== verification/Threads.thy ===== *)
theory Threads
  imports Prelude "HOL-Library.Multiset"
begin

text \<open>
  Locks and threads: src/src/fiber/include/mutex.hpp and src/src/fiber/thread.cpp.

  A lock is the state of the POSIX object behind it; an operation that would have to wait has the
  value \<open>None\<close>, and a thread that asks for a lock it already holds in a conflicting way waits for
  itself. Releasing a lock one does not hold is undefined in POSIX; here it is the failed check of
  \<open>Mutex::unlock\<close>. The three guard classes differ only in the operation they call, so the methods
  \<open>guard_ctor\<close>, \<open>guard_lock\<close>, \<open>guard_unlock\<close> and \<open>guard_dtor\<close> take it as an argument, and the methods of
  \<open>ReadScopedLockImpl\<close> and \<open>WriteScopedLockImpl\<close> are their instances.

  The locale \<open>lockable\<close> is what a guard relies on; its lemmas show that guards used in any order by
  any threads exclude each other as their kinds demand, never release a lock that is not held,
  and wait only for another guard. It is interpreted on \<open>Mutex\<close> and on \<open>RWMutex\<close>.
\<close>

section \<open>The locks\<close>

record Mutex =
  owner :: "int option"

definition new_Mutex :: Mutex where
  "new_Mutex = \<lparr>owner = None\<rparr>"

definition mutex_lock :: "int \<Rightarrow> Mutex \<Rightarrow> Mutex option" where
  "mutex_lock t m = (if owner m = None then Some (m\<lparr>owner := Some t\<rparr>) else None)"

definition mutex_unlock :: "int \<Rightarrow> Mutex \<Rightarrow> Mutex res" where
  "mutex_unlock t m = bindr (myAssert (owner m = Some t)) (\<lambda>_. Inr (m\<lparr>owner := None\<rparr>))"

text \<open>Destroying a lock that is held fails with \<open>EBUSY\<close>; the result is checked for a \<open>Mutex\<close> only.\<close>

definition delete_Mutex :: "Mutex \<Rightarrow> unit res" where
  "delete_Mutex m = myAssert (owner m = None)"

record RWMutex =
  readers :: "int list"
  writer :: "int option"

definition new_RWMutex :: RWMutex where
  "new_RWMutex = \<lparr>readers = [], writer = None\<rparr>"

definition rdlock :: "int \<Rightarrow> RWMutex \<Rightarrow> RWMutex option" where
  "rdlock t m = (if writer m = None then Some (m\<lparr>readers := t # readers m\<rparr>) else None)"

definition wrlock :: "int \<Rightarrow> RWMutex \<Rightarrow> RWMutex option" where
  "wrlock t m = (if writer m = None \<and> readers m = [] then Some (m\<lparr>writer := Some t\<rparr>) else None)"

definition rw_unlock :: "int \<Rightarrow> RWMutex \<Rightarrow> RWMutex res" where
  "rw_unlock t m =
     (if writer m = Some t then Inr (m\<lparr>writer := None\<rparr>)
      else if t \<in> set (readers m) then Inr (m\<lparr>readers := remove1 t (readers m)\<rparr>)
      else Inl AssertFail)"

section \<open>The guards\<close>

record guard =
  isLocked :: bool

definition guard_ctor :: "('m \<Rightarrow> 'm option) \<Rightarrow> 'm \<Rightarrow> (guard \<times> 'm) option" where
  "guard_ctor acquire m = (case acquire m of None \<Rightarrow> None | Some m' \<Rightarrow> Some (\<lparr>isLocked = True\<rparr>, m'))"

definition guard_lock :: "('m \<Rightarrow> 'm option) \<Rightarrow> guard \<Rightarrow> 'm \<Rightarrow> (guard \<times> 'm) option" where
  "guard_lock acquire g m =
     (if \<not> isLocked g then (case acquire m of None \<Rightarrow> None | Some m' \<Rightarrow> Some (g\<lparr>isLocked := True\<rparr>, m'))
      else Some (g, m))"

definition guard_unlock :: "('m \<Rightarrow> 'm res) \<Rightarrow> guard \<Rightarrow> 'm \<Rightarrow> (guard \<times> 'm) res" where
  "guard_unlock release g m =
     (if isLocked g then bindr (release m) (\<lambda>m'. Inr (g\<lparr>isLocked := False\<rparr>, m')) else Inr (g, m))"

definition guard_dtor :: "('m \<Rightarrow> 'm res) \<Rightarrow> guard \<Rightarrow> 'm \<Rightarrow> 'm res" where
  "guard_dtor release g m = bindr (guard_unlock release g m) (\<lambda>(_, m'). Inr m')"

text \<open>The methods of the guards of a \<open>RWMutex\<close>, by the kind of guard.\<close>

datatype rw_kind = ReadGuard | WriteGuard

fun rw_acquire :: "rw_kind \<Rightarrow> int \<Rightarrow> RWMutex \<Rightarrow> RWMutex option" where
  "rw_acquire ReadGuard t = rdlock t"
| "rw_acquire WriteGuard t = wrlock t"

definition mutex_acquire :: "unit \<Rightarrow> int \<Rightarrow> Mutex \<Rightarrow> Mutex option" where
  "mutex_acquire k t = mutex_lock t"

text \<open>The two guard classes of a \<open>RWMutex\<close>; \<open>t\<close> is the thread that calls the method.\<close>

definition ReadLock_ctor :: "int \<Rightarrow> RWMutex \<Rightarrow> (guard \<times> RWMutex) option" where
  "ReadLock_ctor t m = (case rdlock t m of None \<Rightarrow> None | Some m' \<Rightarrow> Some (\<lparr>isLocked = True\<rparr>, m'))"

definition ReadLock_lock :: "int \<Rightarrow> guard \<Rightarrow> RWMutex \<Rightarrow> (guard \<times> RWMutex) option" where
  "ReadLock_lock t g m =
     (if \<not> isLocked g then (case rdlock t m of None \<Rightarrow> None | Some m' \<Rightarrow> Some (g\<lparr>isLocked := True\<rparr>, m'))
      else Some (g, m))"

definition ReadLock_unlock :: "int \<Rightarrow> guard \<Rightarrow> RWMutex \<Rightarrow> (guard \<times> RWMutex) res" where
  "ReadLock_unlock t g m =
     (if isLocked g then bindr (rw_unlock t m) (\<lambda>m'. Inr (g\<lparr>isLocked := False\<rparr>, m')) else Inr (g, m))"

definition ReadLock_dtor :: "int \<Rightarrow> guard \<Rightarrow> RWMutex \<Rightarrow> RWMutex res" where
  "ReadLock_dtor t g m = bindr (ReadLock_unlock t g m) (\<lambda>(_, m'). Inr m')"

definition WriteLock_ctor :: "int \<Rightarrow> RWMutex \<Rightarrow> (guard \<times> RWMutex) option" where
  "WriteLock_ctor t m = (case wrlock t m of None \<Rightarrow> None | Some m' \<Rightarrow> Some (\<lparr>isLocked = True\<rparr>, m'))"

definition WriteLock_lock :: "int \<Rightarrow> guard \<Rightarrow> RWMutex \<Rightarrow> (guard \<times> RWMutex) option" where
  "WriteLock_lock t g m =
     (if \<not> isLocked g then (case wrlock t m of None \<Rightarrow> None | Some m' \<Rightarrow> Some (g\<lparr>isLocked := True\<rparr>, m'))
      else Some (g, m))"

definition WriteLock_unlock :: "int \<Rightarrow> guard \<Rightarrow> RWMutex \<Rightarrow> (guard \<times> RWMutex) res" where
  "WriteLock_unlock t g m =
     (if isLocked g then bindr (rw_unlock t m) (\<lambda>m'. Inr (g\<lparr>isLocked := False\<rparr>, m')) else Inr (g, m))"

definition WriteLock_dtor :: "int \<Rightarrow> guard \<Rightarrow> RWMutex \<Rightarrow> RWMutex res" where
  "WriteLock_dtor t g m = bindr (WriteLock_unlock t g m) (\<lambda>(_, m'). Inr m')"

lemma read_guard_methods:
  "guard_ctor (rw_acquire ReadGuard t) = ReadLock_ctor t" "guard_lock (rw_acquire ReadGuard t) = ReadLock_lock t"
  "guard_unlock (rw_unlock t) = ReadLock_unlock t" "guard_dtor (rw_unlock t) = ReadLock_dtor t"
  by (simp_all add: fun_eq_iff guard_ctor_def guard_lock_def guard_unlock_def guard_dtor_def
      ReadLock_ctor_def ReadLock_lock_def ReadLock_unlock_def ReadLock_dtor_def)

lemma write_guard_methods:
  "guard_ctor (rw_acquire WriteGuard t) = WriteLock_ctor t" "guard_lock (rw_acquire WriteGuard t) = WriteLock_lock t"
  "guard_unlock (rw_unlock t) = WriteLock_unlock t" "guard_dtor (rw_unlock t) = WriteLock_dtor t"
  by (simp_all add: fun_eq_iff guard_ctor_def guard_lock_def guard_unlock_def guard_dtor_def
      WriteLock_ctor_def WriteLock_lock_def WriteLock_unlock_def WriteLock_dtor_def)

lemma rw_methods:
  "(case k of ReadGuard \<Rightarrow> ReadLock_lock t g m | WriteGuard \<Rightarrow> WriteLock_lock t g m) = guard_lock (rw_acquire k t) g m"
  "(case k of ReadGuard \<Rightarrow> ReadLock_unlock t g m | WriteGuard \<Rightarrow> WriteLock_unlock t g m) = guard_unlock (rw_unlock t) g m"
  "(case k of ReadGuard \<Rightarrow> ReadLock_dtor t g m | WriteGuard \<Rightarrow> WriteLock_dtor t g m) = guard_dtor (rw_unlock t) g m"
  using read_guard_methods[of t] write_guard_methods[of t] by (auto split: rw_kind.split)

text \<open>
  One lock and the guards for it, each with its thread and kind; a destroyed guard is \<open>None\<close>. A
  step is a method of a guard that does not have to wait, called by the guard's thread.
\<close>

type_synonym ('k, 'm) guarded = "(int \<times> 'k \<times> guard) option list \<times> 'm"

inductive guard_step ::
  "('k \<Rightarrow> int \<Rightarrow> 'm \<Rightarrow> 'm option) \<Rightarrow> (int \<Rightarrow> 'm \<Rightarrow> 'm res) \<Rightarrow> ('k, 'm) guarded \<Rightarrow> ('k, 'm) guarded \<Rightarrow> bool"
  for acq rel where
  construct: "guard_ctor (acq k t) m = Some (g, m') \<Longrightarrow> guard_step acq rel (gs, m) (gs @ [Some (t, k, g)], m')"
| lock: "i < length gs \<Longrightarrow> gs ! i = Some (t, k, g) \<Longrightarrow> guard_lock (acq k t) g m = Some (g', m') \<Longrightarrow>
    guard_step acq rel (gs, m) (gs[i := Some (t, k, g')], m')"
| unlock: "i < length gs \<Longrightarrow> gs ! i = Some (t, k, g) \<Longrightarrow> guard_unlock (rel t) g m = Inr (g', m') \<Longrightarrow>
    guard_step acq rel (gs, m) (gs[i := Some (t, k, g')], m')"
| destroy: "i < length gs \<Longrightarrow> gs ! i = Some (t, k, g) \<Longrightarrow> guard_dtor (rel t) g m = Inr m' \<Longrightarrow>
    guard_step acq rel (gs, m) (gs[i := None], m')"

section \<open>What a guard relies on\<close>

fun share :: "(int \<times> 'k \<times> guard) option \<Rightarrow> (int \<times> 'k) multiset" where
  "share None = {#}"
| "share (Some (t, k, g)) = (if isLocked g then {#(t, k)#} else {#})"

definition holders :: "(int \<times> 'k \<times> guard) option list \<Rightarrow> (int \<times> 'k) multiset" where
  "holders gs = sum_list (map share gs)"

lemma holders_simps [simp]:
  "holders [] = {#}" "holders (x # gs) = share x + holders gs" "holders (gs @ hs) = holders gs + holders hs"
  by (simp_all add: holders_def)

lemma holders_split:
  assumes "i < length gs"
  shows "holders gs = share (gs ! i) + holders (take i gs @ drop (Suc i) gs)"
    and "holders (gs[i := x]) = share x + holders (take i gs @ drop (Suc i) gs)"
proof -
  show "holders gs = share (gs ! i) + holders (take i gs @ drop (Suc i) gs)"
    by (subst id_take_nth_drop[OF assms]) (simp add: add_ac)
  show "holders (gs[i := x]) = share x + holders (take i gs @ drop (Suc i) gs)"
    by (subst upd_conv_take_nth_drop[OF assms]) (simp add: add_ac)
qed

lemma holders_pair:
  assumes "i < length gs" and "j < length gs" and "i \<noteq> j"
  shows "share (gs ! i) + share (gs ! j) \<subseteq># holders gs"
proof -
  have "j < length (gs[i := None])" "gs[i := None] ! j = gs ! j" using assms by simp_all
  then have "share (gs ! j) \<subseteq># holders (gs[i := None])" using holders_split(1) by (metis mset_subset_eq_add_left)
  then show ?thesis using holders_split[OF assms(1)] by simp
qed

lemma holders_mem: "h \<in># holders gs \<longleftrightarrow> (\<exists>x \<in> set gs. h \<in># share x)"
  by (induction gs) auto

locale lockable =
  fixes acq :: "'k \<Rightarrow> int \<Rightarrow> 'm \<Rightarrow> 'm option" and rel :: "int \<Rightarrow> 'm \<Rightarrow> 'm res"
    and holds :: "'m \<Rightarrow> (int \<times> 'k) multiset" and ok :: "'m \<Rightarrow> bool" and free :: 'm and compatible :: "'k \<Rightarrow> 'k \<Rightarrow> bool"
  assumes free: "ok free" "holds free = {#}"
    and acquired: "ok m \<Longrightarrow> acq k t m = Some m' \<Longrightarrow> ok m' \<and> holds m' = add_mset (t, k) (holds m)"
    and refused: "ok m \<Longrightarrow> acq k t m = None \<Longrightarrow> \<exists>h. h \<in># holds m \<and> \<not> compatible k (snd h)"
    and released: "ok m \<Longrightarrow> (t, k) \<in># holds m \<Longrightarrow> \<exists>m'. rel t m = Inr m' \<and> ok m' \<and> holds m' = holds m - {#(t, k)#}"
    and exclusive: "ok m \<Longrightarrow> {#h, h'#} \<subseteq># holds m \<Longrightarrow> compatible (snd h) (snd h')"
begin

definition inv :: "('k, 'm) guarded \<Rightarrow> bool" where
  "inv s \<longleftrightarrow> ok (snd s) \<and> holds (snd s) = holders (fst s)"

lemma unlock_effect:
  assumes "inv (gs, m)" and "i < length gs" and "gs ! i = Some (t, k, g)"
  shows "\<exists>g' m'. guard_unlock (rel t) g m = Inr (g', m') \<and> \<not> isLocked g' \<and> ok m' \<and> holds m' = holders (gs[i := None])"
proof (cases "isLocked g")
  case True
  then have "holds m = add_mset (t, k) (holders (gs[i := None]))"
    using assms holders_split[OF assms(2)] by (simp add: inv_def)
  then show ?thesis using released[of m t k] assms(1) True by (auto simp: inv_def guard_unlock_def)
next
  case False
  then show ?thesis
    using assms holders_split[OF assms(2)] by (simp add: inv_def guard_unlock_def)
qed

lemma holders_unlocked:
  "i < length gs \<Longrightarrow> \<not> isLocked g \<Longrightarrow> holders (gs[i := Some (t, k, g)]) = holders (gs[i := None])"
  by (simp add: holders_split(2))

lemma inv_step:
  assumes "guard_step acq rel s s'" and "inv s"
  shows "inv s'"
  using assms
proof cases
  case (construct k t m g m' gs)
  then show ?thesis using assms(2) acquired[of m k t] by (auto simp: inv_def guard_ctor_def split: option.splits)
next
  case (lock i gs t k g m g' m')
  show ?thesis
  proof (cases "isLocked g")
    case True
    then have "s' = s" using lock by (auto simp: guard_lock_def list_update_same_conv)
    then show ?thesis using assms(2) by simp
  next
    case False
    then have a: "acq k t m = Some m'" "isLocked g'" using lock(5) by (auto simp: guard_lock_def split: option.splits)
    have "holders (gs[i := Some (t, k, g')]) = add_mset (t, k) (holders gs)"
      using holders_split[OF lock(3)] lock(4) False a(2) by simp
    then show ?thesis using acquired[OF _ a(1)] assms(2) lock(1,2) by (simp add: inv_def)
  qed
next
  case (unlock i gs t k g m g' m')
  then have "\<not> isLocked g' \<and> ok m' \<and> holds m' = holders (gs[i := None])"
    using unlock_effect[of gs m i t k g] assms(2) by auto
  then show ?thesis using unlock(1-3) holders_unlocked[of i gs g' t k] by (simp add: inv_def)
next
  case (destroy i gs t k g m m')
  then show ?thesis using unlock_effect[of gs m i t k g] assms(2) by (auto simp: inv_def guard_dtor_def)
qed

lemma reachable_inv: "(guard_step acq rel)\<^sup>*\<^sup>* ([], free) s \<Longrightarrow> inv s"
  by (induction rule: rtranclp_induct) (use inv_step in \<open>auto simp: inv_def free\<close>)

lemma guards_compatible:
  assumes "(guard_step acq rel)\<^sup>*\<^sup>* ([], free) (gs, m)" and "i < length gs" "j < length gs" "i \<noteq> j"
    and "gs ! i = Some (t, k, g)" "gs ! j = Some (t', k', g')" "isLocked g" "isLocked g'"
  shows "compatible k k'"
proof -
  have "{#(t, k), (t', k')#} \<subseteq># holds m"
    using holders_pair[OF assms(2-4)] reachable_inv[OF assms(1)] assms(5-8) by (simp add: inv_def add_mset_commute)
  from exclusive[OF _ this] show ?thesis using reachable_inv[OF assms(1)] by (simp add: inv_def)
qed

lemma destroy_succeeds:
  assumes "(guard_step acq rel)\<^sup>*\<^sup>* ([], free) (gs, m)" and "i < length gs" and "gs ! i = Some (t, k, g)"
  shows "\<exists>g' m'. guard_unlock (rel t) g m = Inr (g', m') \<and> guard_dtor (rel t) g m = Inr m'"
  using unlock_effect[OF reachable_inv[OF assms(1)] assms(2,3)] by (auto simp: guard_dtor_def)

lemma waits_for_guard:
  assumes "(guard_step acq rel)\<^sup>*\<^sup>* ([], free) (gs, m)" and "acq k t m = None"
  shows "\<exists>i t' k' g. i < length gs \<and> gs ! i = Some (t', k', g) \<and> isLocked g \<and> \<not> compatible k k'"
proof -
  obtain h where h: "h \<in># holders gs" "\<not> compatible k (snd h)"
    using refused[OF _ assms(2)] reachable_inv[OF assms(1)] by (auto simp: inv_def)
  then obtain x where "x \<in> set gs" "h \<in># share x" by (auto simp: holders_mem)
  then show ?thesis using h(2) by (cases x rule: share.cases) (auto simp: in_set_conv_nth split: if_splits)
qed

end

section \<open>The locks are lockable\<close>

definition mutex_holds :: "Mutex \<Rightarrow> (int \<times> unit) multiset" where
  "mutex_holds m = (case owner m of None \<Rightarrow> {#} | Some t \<Rightarrow> {#(t, ())#})"

interpretation mx: lockable mutex_acquire mutex_unlock mutex_holds "\<lambda>_. True" new_Mutex "\<lambda>_ _. False"
proof
  fix m t k assume "(t, k) \<in># mutex_holds m"
  then show "\<exists>m'. mutex_unlock t m = Inr m' \<and> True \<and> mutex_holds m' = mutex_holds m - {#(t, k)#}"
    by (intro exI[of _ "m\<lparr>owner := None\<rparr>"]) (auto simp: mutex_unlock_def mutex_holds_def split: option.splits)
qed (auto simp: mutex_acquire_def mutex_lock_def mutex_holds_def new_Mutex_def split: if_splits option.splits)

definition rw_holds :: "RWMutex \<Rightarrow> (int \<times> rw_kind) multiset" where
  "rw_holds m = image_mset (\<lambda>t. (t, ReadGuard)) (mset (readers m)) +
     (case writer m of None \<Rightarrow> {#} | Some t \<Rightarrow> {#(t, WriteGuard)#})"

definition rw_ok :: "RWMutex \<Rightarrow> bool" where
  "rw_ok m \<longleftrightarrow> writer m = None \<or> readers m = []"

definition rw_compatible :: "rw_kind \<Rightarrow> rw_kind \<Rightarrow> bool" where
  "rw_compatible k k' \<longleftrightarrow> k = ReadGuard \<and> k' = ReadGuard"

lemma rw_holds_cases:
  assumes "rw_ok m"
  obtains (written) t where "writer m = Some t" "readers m = []" "rw_holds m = {#(t, WriteGuard)#}"
  | (shared) "writer m = None" "rw_holds m = image_mset (\<lambda>t. (t, ReadGuard)) (mset (readers m))"
  using assms by (cases "writer m") (auto simp: rw_ok_def rw_holds_def)

interpretation rw: lockable rw_acquire rw_unlock rw_holds rw_ok new_RWMutex rw_compatible
proof
  show "rw_ok new_RWMutex" "rw_holds new_RWMutex = {#}" by (simp_all add: new_RWMutex_def rw_ok_def rw_holds_def)
next
  fix m m' k t assume "rw_ok m" "rw_acquire k t m = Some m'"
  then show "rw_ok m' \<and> rw_holds m' = add_mset (t, k) (rw_holds m)"
    by (cases k) (auto simp: rdlock_def wrlock_def rw_ok_def rw_holds_def split: if_splits)
next
  fix m k t assume "rw_ok m" "rw_acquire k t m = None"
  then show "\<exists>h. h \<in># rw_holds m \<and> \<not> rw_compatible k (snd h)"
    by (cases k; cases "readers m"; cases "writer m")
      (auto simp: rdlock_def wrlock_def rw_ok_def rw_holds_def rw_compatible_def split: if_splits)
next
  fix m t k assume ok: "rw_ok m" and "(t, k) \<in># rw_holds m"
  then show "\<exists>m'. rw_unlock t m = Inr m' \<and> rw_ok m' \<and> rw_holds m' = rw_holds m - {#(t, k)#}"
    by (cases rule: rw_holds_cases[OF ok]) (auto simp: rw_unlock_def rw_ok_def rw_holds_def image_mset_Diff)
next
  fix m h h' assume ok: "rw_ok m" and "{#h, h'#} \<subseteq># rw_holds m"
  then show "rw_compatible (snd h) (snd h')"
  proof (cases rule: rw_holds_cases[OF ok])
    case (1 t)
    then show ?thesis using size_mset_mono[OF \<open>{#h, h'#} \<subseteq># rw_holds m\<close>] by simp
  next
    case 2
    then have "h \<in># rw_holds m" "h' \<in># rw_holds m" using mset_subset_eqD[OF \<open>{#h, h'#} \<subseteq># rw_holds m\<close>] by simp_all
    then show ?thesis using 2 by (auto simp: rw_compatible_def)
  qed
qed

section \<open>Threads\<close>

text \<open>
  Objects of the class \<open>Thread\<close> in a heap, the thread-local variables as functions of the thread, and the
  names the system knows. \<open>rt\<close> is the result of the system call; a function that throws
  \<open>std::logic_error\<close> has the value \<open>None\<close>. The fields \<open>id_\<close>, \<open>thread_\<close>, \<open>cb_\<close> and \<open>name_\<close> are
  \<open>th_id\<close>, \<open>th_handle\<close>, \<open>th_cb\<close> and \<open>th_name\<close>; the constructor leaves the id as it finds it. What the function of a
  thread does is not part of the class: \<open>thread_run\<close> returns the function it calls.
\<close>

record 'c Thread =
  th_id :: int
  th_handle :: int
  th_cb :: "'c option"
  th_name :: string

record 'c threads =
  thread_at :: "nat \<Rightarrow> 'c Thread option"
  cur_thread :: "int \<Rightarrow> nat option"
  cur_thread_name :: "int \<Rightarrow> string"
  os_name :: "int \<Rightarrow> string"

definition new_threads :: "'c threads" where
  "new_threads = \<lparr>thread_at = Map.empty, cur_thread = Map.empty, cur_thread_name = (\<lambda>_. ''UNKNOW''), os_name = (\<lambda>_. [])\<rparr>"

definition new_Thread :: "nat \<Rightarrow> int \<Rightarrow> int \<Rightarrow> int \<Rightarrow> 'c \<Rightarrow> string \<Rightarrow> 'c threads \<Rightarrow> 'c threads option" where
  "new_Thread p garbage handle rt cb name s =
     (let name' = (if name = [] then ''UNKNOW'' else name) in
      if rt \<noteq> 0 then None
      else Some (s\<lparr>thread_at := (thread_at s)(p \<mapsto> \<lparr>th_id = garbage, th_handle = handle, th_cb = Some cb, th_name = name'\<rparr>)\<rparr>))"

definition thread_run :: "int \<Rightarrow> int \<Rightarrow> nat \<Rightarrow> 'c threads \<Rightarrow> ('c option \<times> 'c threads) res" where
  "thread_run t tid p s =
     (case thread_at s p of
        None \<Rightarrow> Inl NullDeref
      | Some th \<Rightarrow>
          Inr (th_cb th, s\<lparr>cur_thread := (cur_thread s)(t \<mapsto> p), cur_thread_name := (cur_thread_name s)(t := th_name th),
            thread_at := (thread_at s)(p \<mapsto> th\<lparr>th_id := tid, th_cb := None\<rparr>), os_name := (os_name s)(t := take 15 (th_name th))\<rparr>))"

text \<open>The result tells which handle is detached.\<close>

definition delete_Thread :: "nat \<Rightarrow> 'c threads \<Rightarrow> (int option \<times> 'c threads) res" where
  "delete_Thread p s =
     (case thread_at s p of
        None \<Rightarrow> Inl NullDeref
      | Some th \<Rightarrow> Inr (if th_handle th \<noteq> 0 then Some (th_handle th) else None, s\<lparr>thread_at := (thread_at s)(p := None)\<rparr>))"

definition thread_join :: "int \<Rightarrow> nat \<Rightarrow> 'c threads \<Rightarrow> 'c threads option res" where
  "thread_join rt p s =
     (case thread_at s p of
        None \<Rightarrow> Inl NullDeref
      | Some th \<Rightarrow>
          if th_handle th = 0 then Inr (Some s)
          else if rt \<noteq> 0 then Inr None
          else Inr (Some (s\<lparr>thread_at := (thread_at s)(p \<mapsto> th\<lparr>th_handle := 0\<rparr>)\<rparr>)))"

definition thread_GetName :: "int \<Rightarrow> 'c threads \<Rightarrow> string" where
  "thread_GetName t s = cur_thread_name s t"

definition thread_SetName :: "int \<Rightarrow> string \<Rightarrow> 'c threads \<Rightarrow> 'c threads res" where
  "thread_SetName t name s =
     (if name = [] then Inr s
      else
        case cur_thread s t of
          None \<Rightarrow> Inr (s\<lparr>cur_thread_name := (cur_thread_name s)(t := name)\<rparr>)
        | Some p \<Rightarrow>
            (case thread_at s p of
               None \<Rightarrow> Inl NullDeref
             | Some th \<Rightarrow> Inr (s\<lparr>thread_at := (thread_at s)(p \<mapsto> th\<lparr>th_name := name\<rparr>), cur_thread_name := (cur_thread_name s)(t := name)\<rparr>)))"

text \<open>A started thread runs its function once, under its name, which the system knows up to 15 characters.\<close>

lemma thread_start:
  assumes "new_Thread p garbage handle 0 cb name s = Some s1"
  obtains s2 where "thread_run t tid p s1 = Inr (Some cb, s2)"
    "thread_GetName t s2 = (if name = [] then ''UNKNOW'' else name)" "length (os_name s2 t) \<le> 15"
    "map_option th_id (thread_at s2 p) = Some tid" "map_option th_cb (thread_at s2 p) = Some None"
  using assms by (fastforce simp: new_Thread_def thread_run_def thread_GetName_def)

text \<open>The name set by a thread is its name, in the object too.\<close>

lemma SetName_GetName:
  "name \<noteq> [] \<Longrightarrow> thread_SetName t name s = Inr s' \<Longrightarrow>
   thread_GetName t s' = name \<and> (\<forall>p. cur_thread s t = Some p \<longrightarrow> map_option th_name (thread_at s' p) = Some name)"
  by (auto simp: thread_SetName_def thread_GetName_def split: option.splits)

text \<open>A second \<open>join\<close> does nothing, and neither does the destructor detach a joined thread.\<close>

lemma join_once:
  assumes "thread_join rt p s = Inr (Some s1)"
  shows "thread_join rt' p s1 = Inr (Some s1)" and "\<exists>s2. delete_Thread p s1 = Inr (None, s2)"
  using assms by (auto simp: thread_join_def delete_Thread_def split: option.splits if_splits)

text \<open>The destructor does not wait: a thread that starts after its object is gone uses freed memory.\<close>

lemma run_after_delete: "delete_Thread p s = Inr (h, s1) \<Longrightarrow> thread_run t tid p s1 = Inl NullDeref"
  by (auto simp: delete_Thread_def thread_run_def split: option.splits)

section \<open>Properties\<close>

text \<open>A mutex is held by one guard at a time, and its checks never fail.\<close>

lemma mutex_guards:
  assumes "(guard_step mutex_acquire mutex_unlock)\<^sup>*\<^sup>* ([], new_Mutex) (gs, m)" and "i < length gs" "gs ! i = Some (t, k, g)"
  shows "\<exists>m'. guard_dtor (mutex_unlock t) g m = Inr m'"
    and "j < length gs \<Longrightarrow> gs ! j = Some (t', k', g') \<Longrightarrow> isLocked g \<Longrightarrow> isLocked g' \<Longrightarrow> i = j"
  using mx.destroy_succeeds[OF assms] mx.guards_compatible[OF assms(1)] assms(2,3) by blast+

text \<open>Once no guard is locked the mutex can be destroyed.\<close>

lemma mutex_destroyed:
  assumes "(guard_step mutex_acquire mutex_unlock)\<^sup>*\<^sup>* ([], new_Mutex) (gs, m)"
    and "\<forall>t k g. Some (t, k, g) \<in> set gs \<longrightarrow> \<not> isLocked g"
  shows "delete_Mutex m = Inr ()"
proof -
  have "share a = {#}" if "a \<in> set gs" for a using that assms(2) by (cases a rule: share.cases) auto
  then have "holders gs = {#}" by (induction gs) auto
  then have "mutex_holds m = {#}" using mx.reachable_inv[OF assms(1)] by (simp add: mx.inv_def)
  then show ?thesis by (simp add: delete_Mutex_def mutex_holds_def split: option.splits)
qed



end
