(* ===== verification/Spec2Isabelle.thy ===== *)
theory Spec2Isabelle
  imports ClusterRun KvRequests Startup EchoServer Threads
begin

text \<open>
  A verification development for a replicated key-value store in C++.

  \<^bold>\<open>The program.\<close> A client (src/src/raftClerk) sends \<open>Get\<close>, \<open>Put\<close> and \<open>Append\<close> to a cluster of
  servers by remote calls (src/src/rpc). Each server (src/src/raftCore/kvServer.cpp) hands the
  operation to its Raft node (src/src/raftCore/raft.cpp), waits until the node has committed it,
  applies it to a skip list (src/src/skipList) and answers. The Raft nodes elect a leader,
  replicate their logs and save their state in two files (src/src/raftCore/Persister.cpp); a
  server compacts the log by a snapshot of its skip list. Shared queues and constants are in
  src/src/common. The tickers of a Raft node run on a fiber library with timers and interposed
  system calls (src/src/fiber).

  \<^bold>\<open>The theories.\<close>
  \<^item> \<open>Prelude\<close>: faults and the result type \<open>'a res\<close>, vector access, and the locales
    \<open>inductive_invariant\<close> and \<open>monotone_quantity\<close> of transition systems.
  \<^item> \<open>Util\<close> (common/util.cpp, util.h, config.h, ApplyMsg.h): \<open>LockQueue\<close> with the locale \<open>fifo\<close>, \<open>Op\<close>,
    \<open>ApplyMsg\<close>, the constants, the port search.
  \<^item> \<open>Persister\<close> (raftCore/Persister.cpp): the two files with their streams; the locale
    \<open>stable_storage\<close> is what a Raft node relies on.
  \<^item> \<open>Wire\<close> (raftRpcPro): the messages as records; encodings are the parameter \<open>lib\<close>.
  \<^item> \<open>RaftState\<close>, \<open>RaftElection\<close>, \<open>RaftReplication\<close>, \<open>RaftLeader\<close>, \<open>RaftSnapshot\<close> (raftCore/raft.cpp, raft.h):
    the record \<open>Raft\<close> has the fields of the class, and every method is a definition of the same
    name; a method that makes a remote call is split at the call. Lemmas: \<open>raft_wf\<close> is kept,
    behaviour on every branch, the merge of received entries, the commit rule, hand-over of
    committed entries, compaction and installation of snapshots, what persisting restores and what
    a restart forgets.
  \<^item> \<open>Cluster\<close>: nodes, started threads and messages in flight as an inductive step relation, one step
    per critical section. \<open>ElectionSafety\<close>: at most one leader per term. \<open>ClusterLog\<close>: logs stay
    well formed and positions only grow. \<open>LogUnique\<close>: one command per index and term in all logs and
    requests, and which requests stop a node. \<open>Delivery\<close>: commands reach the servers in index order, none
    twice, and are applied as \<open>KvCorrect\<close> says. \<open>ClusterRun\<close>: an executable form of the step relation,
    sound for it, and a run of five nodes in which two servers are handed different commands for one index.
  \<^item> \<open>SkipList\<close>, \<open>SkipListCorrect\<close> (skipList.h): nodes and forward arrays in a heap; every operation refines
    a partial map (locale \<open>kv_store\<close>), never follows a dangling pointer and ends.
  \<^item> \<open>KvServer\<close>, \<open>KvCorrect\<close>, \<open>KvRequests\<close> (raftCore/kvServer.cpp, kvServer.h): handlers, apply loop and
    snapshots; the apply loop refines the replicated state machine (locale \<open>replicated\<close>), replicas
    agree, duplicates are ignored; concurrent requests as a step relation with the invariants of
    the wait channels.
  \<^item> \<open>RpcConfig\<close> (rpc/mprpcconfig.cpp and the node list of server and client), \<open>RpcHeader\<close>
    (rpc/rpcheader.pb.cpp), \<open>Rpc\<close> (rpc/mprpcchannel.cpp, mprpccontroller.cpp, rpcprovider.cpp and the
    stubs): configuration round trip, frames, dispatch, error reports.
  \<^item> \<open>Clerk\<close> (raftClerk/clerk.cpp): the retry loops; locale \<open>round_robin\<close>.
  \<^item> \<open>Startup\<close> (example/raftCoreExample/raftKvDB.cpp, \<open>RpcProvider::Run\<close>, the constructor of \<open>KvServer\<close>): from the
    command line to servers and clients that know all nodes, and what another file name leads to.
  \<^item> \<open>Timer\<close> (fiber/timer.cpp): timers on 64-bit times in an ordered set (locale \<open>ordered_keys\<close>);
    exact expiry, exact waiting time, and the wrap-around of the rollover test.
  \<^item> \<open>FdManager\<close>, \<open>Hook\<close> (fiber/fd_manager.cpp, hook.cpp): the table of descriptors (locale
    \<open>descriptor_table\<close>) and the calls that separate the program's view of a socket's mode from the
    kernel's.
  \<^item> \<open>Fiber\<close>, \<open>Scheduler\<close> (fiber/fiber.cpp, scheduler.cpp): fibers in a heap, a context switch as a change of
    the executing fiber; the run loops of all threads as a step relation: no fiber is inside two
    threads, no task is lost or taken twice, and what stops the process.
  \<^item> \<open>IOManager\<close> (fiber/iomanager.cpp): registered events, triggering and the idle loop on top of the scheduler
    and the timers; the pending count is exact, and when the loop stops the process.
  \<^item> \<open>HookIo\<close> (the rest of fiber/hook.cpp): the calls that wait, \<open>do_io\<close>, \<open>connect\<close>, the sleeps and \<open>close\<close>, split where
    they yield; a waiting call is woken by its event or by its time-out.
  \<^item> \<open>Threads\<close> (fiber/include/mutex.hpp, thread.cpp): locks and their guards as a step relation, with the locale
    \<open>lockable\<close> interpreted on \<open>Mutex\<close> and \<open>RWMutex\<close>; the class \<open>Thread\<close>.
  \<^item> \<open>Diagnostics\<close> (fiber/include/utils.hpp): the clock and the back traces of failed checks. \<open>EchoServer\<close>
    (example/fiberExample/server.cpp): an echo server on the event manager, and how it misses a closed connection.

  \<^bold>\<open>State and steps.\<close> Stateful code is explicit state passing over records; a failed assertion, an
  index outside a vector, a null or freed pointer, a failed parse and a loop without end are values
  of \<open>fault\<close>. A critical section is one step; where a function releases its lock in between, it is
  split. Concurrency is the interleaving of such steps in \<open>Cluster\<close>, \<open>KvRequests\<close>, \<open>Scheduler\<close>, \<open>IOManager\<close> and
  \<open>Threads\<close>. Clock readings,
  random numbers and the results of system calls are arguments.

  \<^bold>\<open>Parameters and hypotheses.\<close> Boost archives and protobuf are the records \<open>lib\<close> and \<open>pblib\<close>, assumed to
  give back what was encoded (\<open>lib_ok\<close>, \<open>pb_ok\<close>); the kernel calls of the hooks are \<open>sys\<close> with \<open>sys_ok\<close>.
  Each has a concrete instance that satisfies the hypothesis. In a cluster a call gets the reply to
  its own request.

  \<^bold>\<open>Bounds and fuel.\<close> C++ \<open>int\<close> is \<open>int\<close>, since signed overflow is undefined; ports, sizes in a frame and
  times are words. The search loop of the skip list visits an address at most once, so \<open>sl_next\<close> steps
  are enough, and the lemmas show that they never run out; the level generator ends because the
  list of results of \<open>rand()\<close> has enough even numbers (\<open>evens\<close>). The node list is read with the length of
  the configuration as fuel, more than its nodes. The loops of the client may run forever: they
  take any fuel, and it is proved that one attempt per server is enough when a leader answers.

  \<^bold>\<open>Not modelled.\<close> Log output and the formatting for it; the event loop of muduo, the descriptor tables of
  generated code, and the example programs and tests that only call the components; the sleeps of the
  start-up, so that all nodes have registered before one reads the list is a hypothesis; reference counts of
  shared pointers; a class \<open>Semaphore\<close> that is declared and never defined.

  \<^bold>\<open>What does not hold.\<close> The servers of a cluster need not agree (\<open>ClusterRun\<close>), so there is no theorem that
  relates the reply to a client with the commands delivered on other nodes: on a conflict the code overwrites
  one entry and keeps those after it, which breaks log matching and lets a committed entry be lost. What is proved
  of every cluster is one leader per term, one command per index and term, and delivery in index order
  on each node; replicas that are handed the same commands agree.
\<close>

end
